(* ===== verification/Prelude.thy ===== *)
theory Prelude imports Main "HOL-Library.Word" "HOL-Library.Monad_Syntax" begin

text \<open>
  Shared vocabulary of the development: the machine integer types of the C code at the widths it
  has on the 64-bit little-endian targets of this repository, the little-endian byte codes of
  words, the combinator for C's \<open>if (!f(...)) return false;\<close>, and the lemma collections the other
  theories add to.
\<close>

unbundle bit_operations_syntax

subsection \<open>Types\<close>

type_synonym byte = "8 word"
type_synonym u16 = "16 word"
type_synonym u32 = "32 word"
type_synonym u64 = "64 word"

text \<open>\<open>csize\<close> is \<open>size_t\<close>; \<open>ptr\<close> is any data or function pointer, \<open>0\<close> being NULL.\<close>

type_synonym csize = "64 word"
type_synonym ptr = "64 word"

named_theorems pb_consts "values of the constants and macros of pb.h"
named_theorems frame_intros "rules that propagate a memory frame through the code"
named_theorems inv_intros "rules that propagate a stream invariant through the code"

subsection \<open>Control flow\<close>

text \<open>
  A C function that returns \<open>bool\<close> and changes a state is a function into
  \<open>(bool \<times> 's) option\<close>: \<open>None\<close> means that it did not return within the fuel. \<open>and_then\<close> is the
  statement sequence \<open>if (!m) return false; k\<close>.
\<close>

definition and_then :: "(bool \<times> 's) option \<Rightarrow> ('s \<Rightarrow> (bool \<times> 's) option) \<Rightarrow> (bool \<times> 's) option" where
  "and_then m k = (case m of None \<Rightarrow> None
     | Some (ok, s) \<Rightarrow> if ok then k s else Some (False, s))"

lemma and_then_None [simp]: "and_then None k = None"
  by (simp add: and_then_def)

lemma and_then_Some [simp]: "and_then (Some (ok, s)) k = (if ok then k s else Some (False, s))"
  by (simp add: and_then_def)

lemma and_then_SomeE:
  assumes "and_then m k = Some (b, t)"
  obtains (fail) "m = Some (False, t)" "\<not> b"
    | (ok) s where "m = Some (True, s)" "k s = Some (b, t)"
  using assms by (cases m) (auto split: if_splits)

text \<open>A computation that returns.\<close>

fun returns :: "'a option \<Rightarrow> bool" where
  "returns None = False"
| "returns (Some x) = True"

lemma returns_iff: "returns r \<longleftrightarrow> (\<exists>x. r = Some x)"
  by (cases r) auto

lemma returns_map_option [simp]: "returns (map_option f r) = returns r"
  by (cases r) auto

lemma returns_and_then: "returns r \<Longrightarrow> (\<And>s. returns (g s)) \<Longrightarrow> returns (and_then r g)"
  by (cases r) (auto split: if_splits)

lemma returns_case_pair:
  "returns r \<Longrightarrow> (\<And>a b. returns (g a b)) \<Longrightarrow> returns (case r of None \<Rightarrow> None | Some (a, b) \<Rightarrow> g a b)"
  by (cases r) auto

subsection \<open>Little-endian byte codes of words\<close>

definition le_bytes :: "nat \<Rightarrow> 'a::len word \<Rightarrow> byte list" where
  "le_bytes n w = map (\<lambda>i. ucast (drop_bit (8 * i) w)) [0..<n]"

fun le_word :: "byte list \<Rightarrow> 'a::len word" where
  "le_word [] = 0"
| "le_word (b # bs) = ucast b OR push_bit 8 (le_word bs)"

lemma length_le_bytes [simp]: "length (le_bytes n w) = n"
  by (simp add: le_bytes_def)

lemma le_bytes_eq_Nil [simp]: "le_bytes n w = [] \<longleftrightarrow> n = 0"
  by (simp add: le_bytes_def)

lemma nth_le_bytes: "i < n \<Longrightarrow> le_bytes n w ! i = ucast (drop_bit (8 * i) w)"
  by (simp add: le_bytes_def)

lemma bit_le_word:
  "bit (le_word bs :: 'a::len word) k \<longleftrightarrow>
     k < LENGTH('a) \<and> k div 8 < length bs \<and> bit (bs ! (k div 8)) (k mod 8)"
proof (induction bs arbitrary: k)
  case Nil
  then show ?case by simp
next
  case (Cons b bs)
  show ?case
  proof (cases "k < 8")
    case True
    then show ?thesis by (auto simp: bit_simps dest: bit_imp_le_length)
  next
    case False
    then have "k div 8 = Suc ((k - 8) div 8)" and "k mod 8 = (k - 8) mod 8"
      by (simp_all add: le_div_geq le_mod_geq)
    moreover have "\<not> bit b k"
      using False by (auto dest: bit_imp_le_length)
    ultimately show ?thesis
      using False Cons.IH [of "k - 8"] by (auto simp: bit_simps)
  qed
qed

lemma le_word_le_bytes [simp]:
  "LENGTH('a) \<le> 8 * n \<Longrightarrow> le_word (le_bytes n w) = (w :: 'a::len word)"
  by (rule bit_word_eqI) (auto simp: bit_le_word nth_le_bytes bit_simps dest: bit_imp_le_length)

lemma le_bytes_le_word:
  "8 * length bs \<le> LENGTH('a) \<Longrightarrow> le_bytes (length bs) (le_word bs :: 'a::len word) = bs"
proof (rule nth_equalityI)
  fix i assume le: "8 * length bs \<le> LENGTH('a)"
    and "i < length (le_bytes (length bs) (le_word bs :: 'a word))"
  then have i: "i < length bs" by simp
  show "le_bytes (length bs) (le_word bs :: 'a word) ! i = bs ! i"
  proof (rule bit_word_eqI)
    fix n assume "n < LENGTH(8)"
    then have n: "n < 8" by simp
    then have d: "(8 * i + n) div 8 = i" "(8 * i + n) mod 8 = n" by simp_all
    have "8 * i + n < LENGTH('a)" using i n le by linarith
    with i n d show "bit (le_bytes (length bs) (le_word bs :: 'a word) ! i) n = bit (bs ! i) n"
      by (simp add: nth_le_bytes bit_simps bit_le_word)
  qed
qed simp

lemma le_bytes_zero [simp]: "le_bytes n 0 = replicate n 0"
  by (simp add: le_bytes_def map_replicate_const)

lemma le_word_zeros [simp]: "le_word (replicate n 0) = 0"
  by (induction n) simp_all

subsection \<open>Words\<close>

lemma unat_add_of_nat_minus [simp]:
  fixes a :: "64 word"
  shows "i < 2 ^ 64 \<Longrightarrow> unat (a + of_nat i - a) = i"
  by (simp add: unat_of_nat take_bit_nat_eq_self)

text \<open>The masks of the code, bit by bit.\<close>

lemma bit_and_0x7F: "bit (w AND 0x7F :: 'a::len word) n \<longleftrightarrow> n < 7 \<and> bit w n"
proof -
  have eq: "(0x7F :: 'a word) = mask 7" by (simp add: mask_eq_exp_minus_1)
  show ?thesis unfolding eq bit_and_iff bit_mask_iff by (auto dest: bit_imp_le_length)
qed

lemma bit_or_0x80: "bit (w OR 0x80 :: 'a::len word) n \<longleftrightarrow> bit w n \<or> n = 7 \<and> 7 < LENGTH('a)"
proof -
  have eq: "(0x80 :: 'a word) = push_bit 7 1" by simp
  show ?thesis unfolding eq bit_or_iff bit_push_bit_iff bit_1_iff by auto
qed

lemma and_0x80: "w AND 0x80 = 0 \<longleftrightarrow> \<not> bit (w :: 'a::len word) 7"
  using bit_iff_and_push_bit_not_eq_0 [of w 7] by simp

lemma and_1: "w AND 1 = 0 \<longleftrightarrow> \<not> bit (w :: 'a::len word) 0"
  using bit_iff_and_push_bit_not_eq_0 [of w 0] by simp

lemma unat_lt64: "unat (w :: 64 word) < 2 ^ 64"
  using unsigned_less [of w] by simp

lemma unat_lt32: "unat (w :: 32 word) < 2 ^ 32"
  using unsigned_less [of w] by simp

lemma unat_ucast_u64 [simp]: "unat (ucast (w :: 32 word) :: 64 word) = unat w"
  using unat_lt32 [of w] by (simp add: unsigned_ucast_eq take_bit_nat_eq_self)

lemma unat_ucast_byte [simp]:
  "unat (ucast (w :: 8 word) :: 32 word) = unat w" "unat (ucast (w :: 8 word) :: 64 word) = unat w"
  using unsigned_less [of w, where 'a = nat]
  by (simp_all add: unsigned_ucast_eq take_bit_nat_eq_self)

lemma unat_plus_nat:
  "unat (w :: 64 word) + n < 2 ^ 64 \<Longrightarrow> unat (w + of_nat n) = unat w + n"
  by (simp add: unat_word_ariths unat_of_nat)

lemma sint_of_nat_u32: "n < 2 ^ 31 \<Longrightarrow> sint (of_nat n :: u32) = int n"
  by (simp add: sint_uint unsigned_of_nat take_bit_nat_eq_self signed_take_bit_int_eq_self
      flip: of_nat_take_bit)

lemma add_minus_offset: "(a :: 64 word) + of_nat (unat (x - a)) = x"
  by simp

lemma byte_le_10:
  assumes "(l :: byte) \<le> 0x0A"
  shows "l = 0 \<or> l = 1 \<or> l = 2 \<or> l = 3 \<or> l = 4 \<or> l = 5 \<or> l = 6 \<or> l = 7 \<or> l = 8 \<or> l = 9 \<or> l = 10"
proof -
  from assms have "unat l \<le> 10" by (simp add: word_le_nat_alt)
  then show ?thesis by (simp add: word_unat_eq_iff) arith
qed

subsection \<open>Arrays with bounds\<close>

text \<open>A store to \<open>a[i]\<close> and a load from it; \<open>None\<close> is an access outside the array.\<close>

definition array_set :: "'a list \<Rightarrow> nat \<Rightarrow> 'a \<Rightarrow> 'a list option" where
  "array_set a i x = (if i < length a then Some (a[i := x]) else None)"

definition array_get :: "'a list \<Rightarrow> nat \<Rightarrow> 'a option" where
  "array_get a i = (if i < length a then Some (a ! i) else None)"

lemma array_set_Some_iff [simp]: "array_set a i x = Some b \<longleftrightarrow> i < length a \<and> b = a[i := x]"
  by (auto simp: array_set_def)

lemma array_get_Some_iff [simp]: "array_get a i = Some x \<longleftrightarrow> i < length a \<and> x = a ! i"
  by (auto simp: array_get_def)

lemma array_in_range [simp]:
  "i < length a \<Longrightarrow> array_set a i x = Some (a[i := x])" "i < length a \<Longrightarrow> array_get a i = Some (a ! i)"
  by simp_all

end
