(* ===== verification/CMem.thy ===== *)
theory CMem imports Prelude begin

text \<open>
  The memory of a C program on a 64-bit little-endian machine, as far as the modelled code uses
  it: a byte-addressed store, typed loads and stores at addresses, \<open>memset\<close> and \<open>memcpy\<close>, and the
  block table behind \<open>realloc\<close> and \<open>free\<close>. Where an allocator places a block is not the
  program's choice, so it is a parameter of \<open>c_realloc\<close>. A misuse the C standard leaves undefined
  (freeing or reallocating a pointer that is no live block) sets \<open>hfault\<close>.
\<close>

subsection \<open>Bytes at addresses\<close>

definition mem_read :: "(ptr \<Rightarrow> byte) \<Rightarrow> ptr \<Rightarrow> nat \<Rightarrow> byte list" where
  "mem_read m a n = map (\<lambda>i. m (a + of_nat i)) [0..<n]"

definition mem_write :: "(ptr \<Rightarrow> byte) \<Rightarrow> ptr \<Rightarrow> byte list \<Rightarrow> (ptr \<Rightarrow> byte)" where
  "mem_write m a bs =
     (\<lambda>x. if uint (x - a) < int (length bs) then bs ! unat (x - a) else m x)"

lemma mem_write_unat:
  "mem_write m a bs = (\<lambda>x. if unat (x - a) < length bs then bs ! unat (x - a) else m x)"
proof -
  have "uint (x - a) < int (length bs) \<longleftrightarrow> unat (x - a) < length bs" for x
    by (simp only: of_nat_less_iff [symmetric, where 'a = int] uint_nat [symmetric] of_nat_unat)
  then show ?thesis by (simp add: mem_write_def)
qed

text \<open>The addresses of the \<open>n\<close> bytes from \<open>a\<close> on (wrapping at the end of the address space).\<close>

definition region :: "ptr \<Rightarrow> nat \<Rightarrow> ptr set" where
  "region a n = {x. unat (x - a) < n}"

lemma in_region [simp]: "x \<in> region a n \<longleftrightarrow> unat (x - a) < n"
  by (simp add: region_def)

lemma region_0 [simp]: "region a 0 = {}"
  by (simp add: region_def)

lemma region_mono: "n \<le> k \<Longrightarrow> region a n \<subseteq> region a k"
  by auto

lemma unat_offset_less:
  fixes x a :: ptr
  assumes "unat (x - (a + of_nat k)) < n" and "k + n \<le> m" and "m \<le> 2 ^ 64"
  shows "unat (x - a) < m"
proof -
  define d where "d = x - (a + of_nat k)"
  have d: "unat d < n" using assms(1) by (simp add: d_def)
  then have k: "k < 2 ^ 64" and dk: "unat d + k < 2 ^ 64"
    using assms(2,3) by linarith+
  have "unat (x - a) = unat (d + of_nat k)" by (simp add: d_def)
  also have "\<dots> = unat d + k"
    using k dk by (simp add: unat_word_ariths unat_of_nat)
  finally show ?thesis using d assms(2) by linarith
qed

lemma region_offset:
  assumes "k + n \<le> m" and "m \<le> 2 ^ 64"
  shows "region (a + of_nat k) n \<subseteq> region a m"
  using unat_offset_less [OF _ assms] by (auto simp: region_def)

lemma length_mem_read [simp]: "length (mem_read m a n) = n"
  by (simp add: mem_read_def)

lemma mem_read_write_same:
  "length bs \<le> 2 ^ 64 \<Longrightarrow> n = length bs \<Longrightarrow> mem_read (mem_write m a bs) a n = bs"
  by (auto simp: mem_read_def mem_write_unat unat_of_nat take_bit_nat_eq_self intro: nth_equalityI)

lemma mem_write_outside: "x \<notin> region a (length bs) \<Longrightarrow> mem_write m a bs x = m x"
  by (simp add: mem_write_unat)

lemma mem_read_cong:
  assumes "\<And>x. x \<in> region a n \<Longrightarrow> m x = m' x" and "n \<le> 2 ^ 64"
  shows "mem_read m a n = mem_read m' a n"
  unfolding mem_read_def
  by (rule map_cong [OF refl], rule assms(1)) (use assms(2) in \<open>simp add: unat_of_nat take_bit_nat_eq_self\<close>)

lemma mem_read_write_other:
  assumes "region a n \<inter> region b (length bs) = {}" and "n \<le> 2 ^ 64"
  shows "mem_read (mem_write m b bs) a n = mem_read m a n"
  using assms by (intro mem_read_cong mem_write_outside) auto

subsection \<open>The heap\<close>

record heap =
  hmem :: "ptr \<Rightarrow> byte"
  hblocks :: "ptr \<Rightarrow> nat option"
  hfault :: bool
  hfixed :: u32

text \<open>
  \<open>hblocks\<close> maps the start of each live block of \<open>malloc\<close> to its size. \<open>hfixed\<close> is the local
  variable \<open>fixed_count_size\<close> of the running \<open>pb_decode_noinit\<close>, to which the iterator's \<open>pSize\<close>
  may point (see the theory on decoding).
\<close>

definition load_bytes :: "heap \<Rightarrow> ptr \<Rightarrow> nat \<Rightarrow> byte list" where
  "load_bytes h p n = mem_read (hmem h) p n"

definition store_bytes :: "ptr \<Rightarrow> byte list \<Rightarrow> heap \<Rightarrow> heap" where
  "store_bytes p bs h = h\<lparr>hmem := mem_write (hmem h) p bs\<rparr>"

definition load8 :: "heap \<Rightarrow> ptr \<Rightarrow> byte" where
  "load8 h p = hmem h p"

definition load16 :: "heap \<Rightarrow> ptr \<Rightarrow> u16" where
  "load16 h p = le_word (load_bytes h p 2)"

definition load32 :: "heap \<Rightarrow> ptr \<Rightarrow> u32" where
  "load32 h p = le_word (load_bytes h p 4)"

definition load64 :: "heap \<Rightarrow> ptr \<Rightarrow> u64" where
  "load64 h p = le_word (load_bytes h p 8)"

definition store8 :: "ptr \<Rightarrow> byte \<Rightarrow> heap \<Rightarrow> heap" where
  "store8 p v = store_bytes p [v]"

definition store16 :: "ptr \<Rightarrow> u16 \<Rightarrow> heap \<Rightarrow> heap" where
  "store16 p v = store_bytes p (le_bytes 2 v)"

definition store32 :: "ptr \<Rightarrow> u32 \<Rightarrow> heap \<Rightarrow> heap" where
  "store32 p v = store_bytes p (le_bytes 4 v)"

definition store64 :: "ptr \<Rightarrow> u64 \<Rightarrow> heap \<Rightarrow> heap" where
  "store64 p v = store_bytes p (le_bytes 8 v)"

text \<open>\<open>bool\<close> takes one byte; storing writes 0 or 1.\<close>

definition store_bool :: "ptr \<Rightarrow> bool \<Rightarrow> heap \<Rightarrow> heap" where
  "store_bool p b = store8 p (if b then 1 else 0)"

text \<open>\<open>memset(p, 0, n)\<close> and \<open>memcpy(p, q, n)\<close>.\<close>

definition mem_zero :: "ptr \<Rightarrow> nat \<Rightarrow> heap \<Rightarrow> heap" where
  "mem_zero p n = store_bytes p (replicate n 0)"

definition mem_copy :: "ptr \<Rightarrow> ptr \<Rightarrow> nat \<Rightarrow> heap \<Rightarrow> heap" where
  "mem_copy p q n h = store_bytes p (load_bytes h q n) h"

lemmas store_defs = store8_def store16_def store32_def store64_def store_bool_def mem_zero_def

lemma store_bytes_simps [simp]:
  "hblocks (store_bytes p bs h) = hblocks h"
  "hfault (store_bytes p bs h) = hfault h"
  "hfixed (store_bytes p bs h) = hfixed h"
  by (simp_all add: store_bytes_def)

lemma load_store_bytes_same [simp]:
  "length bs \<le> 2 ^ 64 \<Longrightarrow> n = length bs \<Longrightarrow> load_bytes (store_bytes p bs h) p n = bs"
  by (simp add: load_bytes_def store_bytes_def mem_read_write_same)

lemma load_store8 [simp]: "load8 (store8 p v h) p = v"
  by (simp add: load8_def store8_def store_bytes_def mem_write_unat)

lemma load_store16 [simp]: "load16 (store16 p v h) p = v"
  by (simp add: load16_def store16_def)

lemma load_store32 [simp]: "load32 (store32 p v h) p = v"
  by (simp add: load32_def store32_def)

lemma load_store64 [simp]: "load64 (store64 p v h) p = v"
  by (simp add: load64_def store64_def)

lemma length_load_bytes [simp]: "length (load_bytes h p n) = n"
  by (simp add: load_bytes_def)

subsection \<open>Frames\<close>

text \<open>\<open>frame R h h'\<close>: the step from \<open>h\<close> to \<open>h'\<close> changes no byte outside \<open>R\<close> and leaves the block
  table and the fault flag as they are.\<close>

definition frame :: "ptr set \<Rightarrow> heap \<Rightarrow> heap \<Rightarrow> bool" where
  "frame R h h' \<longleftrightarrow> (\<forall>x. x \<notin> R \<longrightarrow> hmem h' x = hmem h x)
     \<and> hblocks h' = hblocks h \<and> hfault h' = hfault h"

lemma frame_refl [frame_intros, simp]: "frame R h h"
  by (simp add: frame_def)

lemma frame_trans: "frame R h h' \<Longrightarrow> frame R h' h'' \<Longrightarrow> frame R h h''"
  by (simp add: frame_def)

lemma frame_mono: "frame R h h' \<Longrightarrow> R \<subseteq> S \<Longrightarrow> frame S h h'"
  by (auto simp: frame_def)

lemma frame_hfixed [simp]:
  "frame R h (h'\<lparr>hfixed := v\<rparr>) = frame R h h'" "frame R (h\<lparr>hfixed := v\<rparr>) h' = frame R h h'"
  by (simp_all add: frame_def)

lemma frame_store_bytes:
  "region p (length bs) \<subseteq> R \<Longrightarrow> frame R h (store_bytes p bs h)"
  by (auto simp: frame_def store_bytes_def mem_write_unat)

lemma frame_store_bytes_step [frame_intros]:
  "frame R h h' \<Longrightarrow> region p (length bs) \<subseteq> R \<Longrightarrow> frame R h (store_bytes p bs h')"
  by (rule frame_trans [OF _ frame_store_bytes])

lemma frame_load_bytes:
  "frame R h h' \<Longrightarrow> region p n \<inter> R = {} \<Longrightarrow> n \<le> 2 ^ 64 \<Longrightarrow> load_bytes h' p n = load_bytes h p n"
  unfolding load_bytes_def frame_def by (intro mem_read_cong) auto

subsection \<open>realloc and free\<close>

text \<open>
  An allocator answers a request for \<open>n\<close> bytes with a place for the new block, or with \<open>None\<close>
  when it has no memory. \<open>c_realloc\<close> moves the old contents there and retires the old block.
\<close>

type_synonym allocator = "heap \<Rightarrow> ptr \<Rightarrow> csize \<Rightarrow> ptr option"

definition c_realloc :: "allocator \<Rightarrow> ptr \<Rightarrow> csize \<Rightarrow> heap \<Rightarrow> ptr \<times> heap" where
  "c_realloc al p n h =
     (if p \<noteq> 0 \<and> hblocks h p = None then (0, h\<lparr>hfault := True\<rparr>)
      else case al h p n of
        None \<Rightarrow> (0, h)
      | Some q \<Rightarrow>
          let old = (if p = 0 then 0 else the (hblocks h p));
              bs = load_bytes h p (min old (unat n));
              h' = store_bytes q bs h
          in (q, h'\<lparr>hblocks := ((hblocks h)(p := None))(q \<mapsto> unat n)\<rparr>))"

definition c_free :: "ptr \<Rightarrow> heap \<Rightarrow> heap" where
  "c_free p h =
     (if p = 0 then h
      else if hblocks h p = None then h\<lparr>hfault := True\<rparr>
      else h\<lparr>hblocks := (hblocks h)(p := None)\<rparr>)"

text \<open>What the C standard promises of a block \<open>realloc\<close> returns: it is not NULL, and it overlaps no
  other live block.\<close>

definition good_allocator :: "allocator \<Rightarrow> bool" where
  "good_allocator al \<longleftrightarrow> (\<forall>h p n q. al h p n = Some q \<longrightarrow>
     q \<noteq> 0 \<and> (\<forall>b k. b \<noteq> p \<longrightarrow> hblocks h b = Some k \<longrightarrow>
       region q (unat n) \<inter> region b k = {} \<and> q \<noteq> b))"

end
