(* ===== verification/Pb_Types.thy ===== *)
theory Pb_Types imports CMem begin

text \<open>
  The declarations of \<open>nanopb/pb.h\<close>, \<open>pb_encode.h\<close> and \<open>pb_decode.h\<close> under the build settings of
  the project (\<open>PB_FIELD_32BIT\<close>, \<open>PB_NO_PACKED_STRUCTS\<close>, \<open>PB_ENABLE_MALLOC\<close>): the field type codes,
  the field descriptor \<open>pb_field_t\<close> and the macros that build one, the stream structures, and the
  record of everything the library calls through pointers.
\<close>

subsection \<open>Type codes\<close>

text \<open>The low four bits of a field type are the data type, the next two the repetition rule and
  the top two the allocation.\<close>

abbreviation PB_LTYPE_BOOL :: byte where "PB_LTYPE_BOOL \<equiv> 0x00"
abbreviation PB_LTYPE_VARINT :: byte where "PB_LTYPE_VARINT \<equiv> 0x01"
abbreviation PB_LTYPE_UVARINT :: byte where "PB_LTYPE_UVARINT \<equiv> 0x02"
abbreviation PB_LTYPE_SVARINT :: byte where "PB_LTYPE_SVARINT \<equiv> 0x03"
abbreviation PB_LTYPE_FIXED32 :: byte where "PB_LTYPE_FIXED32 \<equiv> 0x04"
abbreviation PB_LTYPE_FIXED64 :: byte where "PB_LTYPE_FIXED64 \<equiv> 0x05"
abbreviation PB_LTYPE_LAST_PACKABLE :: byte where "PB_LTYPE_LAST_PACKABLE \<equiv> 0x05"
abbreviation PB_LTYPE_BYTES :: byte where "PB_LTYPE_BYTES \<equiv> 0x06"
abbreviation PB_LTYPE_STRING :: byte where "PB_LTYPE_STRING \<equiv> 0x07"
abbreviation PB_LTYPE_SUBMESSAGE :: byte where "PB_LTYPE_SUBMESSAGE \<equiv> 0x08"
abbreviation PB_LTYPE_EXTENSION :: byte where "PB_LTYPE_EXTENSION \<equiv> 0x09"
abbreviation PB_LTYPE_FIXED_LENGTH_BYTES :: byte where "PB_LTYPE_FIXED_LENGTH_BYTES \<equiv> 0x0A"
abbreviation PB_LTYPES_COUNT :: byte where "PB_LTYPES_COUNT \<equiv> 0x0B"
abbreviation PB_LTYPE_MASK :: byte where "PB_LTYPE_MASK \<equiv> 0x0F"
abbreviation PB_HTYPE_REQUIRED :: byte where "PB_HTYPE_REQUIRED \<equiv> 0x00"
abbreviation PB_HTYPE_OPTIONAL :: byte where "PB_HTYPE_OPTIONAL \<equiv> 0x10"
abbreviation PB_HTYPE_REPEATED :: byte where "PB_HTYPE_REPEATED \<equiv> 0x20"
abbreviation PB_HTYPE_ONEOF :: byte where "PB_HTYPE_ONEOF \<equiv> 0x30"
abbreviation PB_HTYPE_MASK :: byte where "PB_HTYPE_MASK \<equiv> 0x30"
abbreviation PB_ATYPE_STATIC :: byte where "PB_ATYPE_STATIC \<equiv> 0x00"
abbreviation PB_ATYPE_POINTER :: byte where "PB_ATYPE_POINTER \<equiv> 0x80"
abbreviation PB_ATYPE_CALLBACK :: byte where "PB_ATYPE_CALLBACK \<equiv> 0x40"
abbreviation PB_ATYPE_MASK :: byte where "PB_ATYPE_MASK \<equiv> 0xC0"

definition PB_ATYPE :: "byte \<Rightarrow> byte" where
  "PB_ATYPE x = x AND PB_ATYPE_MASK"

definition PB_HTYPE :: "byte \<Rightarrow> byte" where
  "PB_HTYPE x = x AND PB_HTYPE_MASK"

definition PB_LTYPE :: "byte \<Rightarrow> byte" where
  "PB_LTYPE x = x AND PB_LTYPE_MASK"

lemmas type_code_defs = PB_ATYPE_def PB_HTYPE_def PB_LTYPE_def

text \<open>\<open>pb_size_t\<close> is \<open>uint32_t\<close> and \<open>pb_ssize_t\<close> is \<open>int32_t\<close>.\<close>

abbreviation PB_SIZE_MAX :: u32 where "PB_SIZE_MAX \<equiv> - 1"

abbreviation PB_MAX_REQUIRED_FIELDS :: nat where "PB_MAX_REQUIRED_FIELDS \<equiv> 64"

text \<open>\<open>pb_wire_type_t\<close>; a tag read from the wire can also hold the codes 3, 4, 6 and 7.\<close>

abbreviation PB_WT_VARINT :: u32 where "PB_WT_VARINT \<equiv> 0"
abbreviation PB_WT_64BIT :: u32 where "PB_WT_64BIT \<equiv> 1"
abbreviation PB_WT_STRING :: u32 where "PB_WT_STRING \<equiv> 2"
abbreviation PB_WT_32BIT :: u32 where "PB_WT_32BIT \<equiv> 5"

subsection \<open>Field descriptors\<close>

text \<open>\<open>size_offset\<close> is signed: read it with \<open>scast\<close>. \<open>fptr\<close> is the member \<open>ptr\<close>, the address of a
  submessage's descriptor or of a default value.\<close>

record pb_field =
  tag :: u32
  ftype :: byte
  data_offset :: u32
  size_offset :: u32
  data_size :: u32
  array_size :: u32
  fptr :: ptr

definition PB_LAST_FIELD :: pb_field where
  "PB_LAST_FIELD = \<lparr>tag = 0, ftype = 0, data_offset = 0, size_offset = 0, data_size = 0,
     array_size = 0, fptr = 0\<rparr>"

text \<open>A descriptor is an array of fields that ends with \<open>PB_LAST_FIELD\<close>; here the list of its
  entries, where the entry after the last one listed is the terminator.\<close>

definition field_at :: "pb_field list \<Rightarrow> nat \<Rightarrow> pb_field" where
  "field_at fs i = (if i < length fs then fs ! i else PB_LAST_FIELD)"

definition pb_delta :: "u32 \<Rightarrow> u32 \<Rightarrow> u32" where
  "pb_delta off1 off2 = off1 - off2"

definition PB_DATAOFFSET_FIRST :: "u32 \<Rightarrow> u32" where
  "PB_DATAOFFSET_FIRST off1 = off1"

definition PB_DATAOFFSET_OTHER :: "u32 \<Rightarrow> u32 \<Rightarrow> u32 \<Rightarrow> u32" where
  "PB_DATAOFFSET_OTHER off1 off2 size2 = off1 - off2 - size2"

definition PB_DATAOFFSET_UNION :: u32 where
  "PB_DATAOFFSET_UNION = PB_SIZE_MAX"

text \<open>
  The descriptor macros. What \<open>offsetof\<close> and \<open>sizeof\<close> say of the C structure are arguments: \<open>fd\<close>
  is the data offset, \<open>d\<close> the distance of the has/count/which member from the data, \<open>sz\<close> the size
  of an item and \<open>n\<close> the number of items.
\<close>

definition PB_REQUIRED_STATIC :: "u32 \<Rightarrow> u32 \<Rightarrow> u32 \<Rightarrow> byte \<Rightarrow> ptr \<Rightarrow> pb_field" where
  "PB_REQUIRED_STATIC t fd sz ltype p =
     \<lparr>tag = t, ftype = PB_ATYPE_STATIC OR PB_HTYPE_REQUIRED OR ltype, data_offset = fd,
      size_offset = 0, data_size = sz, array_size = 0, fptr = p\<rparr>"

definition PB_OPTIONAL_STATIC :: "u32 \<Rightarrow> u32 \<Rightarrow> u32 \<Rightarrow> u32 \<Rightarrow> byte \<Rightarrow> ptr \<Rightarrow> pb_field" where
  "PB_OPTIONAL_STATIC t fd d sz ltype p =
     \<lparr>tag = t, ftype = PB_ATYPE_STATIC OR PB_HTYPE_OPTIONAL OR ltype, data_offset = fd,
      size_offset = d, data_size = sz, array_size = 0, fptr = p\<rparr>"

definition PB_SINGULAR_STATIC :: "u32 \<Rightarrow> u32 \<Rightarrow> u32 \<Rightarrow> byte \<Rightarrow> ptr \<Rightarrow> pb_field" where
  "PB_SINGULAR_STATIC t fd sz ltype p =
     \<lparr>tag = t, ftype = PB_ATYPE_STATIC OR PB_HTYPE_OPTIONAL OR ltype, data_offset = fd,
      size_offset = 0, data_size = sz, array_size = 0, fptr = p\<rparr>"

definition PB_REPEATED_STATIC :: "u32 \<Rightarrow> u32 \<Rightarrow> u32 \<Rightarrow> u32 \<Rightarrow> u32 \<Rightarrow> byte \<Rightarrow> ptr \<Rightarrow> pb_field" where
  "PB_REPEATED_STATIC t fd d sz n ltype p =
     \<lparr>tag = t, ftype = PB_ATYPE_STATIC OR PB_HTYPE_REPEATED OR ltype, data_offset = fd,
      size_offset = d, data_size = sz, array_size = n, fptr = p\<rparr>"

definition PB_REQUIRED_POINTER :: "u32 \<Rightarrow> u32 \<Rightarrow> u32 \<Rightarrow> byte \<Rightarrow> ptr \<Rightarrow> pb_field" where
  "PB_REQUIRED_POINTER t fd sz ltype p =
     \<lparr>tag = t, ftype = PB_ATYPE_POINTER OR PB_HTYPE_REQUIRED OR ltype, data_offset = fd,
      size_offset = 0, data_size = sz, array_size = 0, fptr = p\<rparr>"

definition PB_OPTIONAL_POINTER :: "u32 \<Rightarrow> u32 \<Rightarrow> u32 \<Rightarrow> byte \<Rightarrow> ptr \<Rightarrow> pb_field" where
  "PB_OPTIONAL_POINTER t fd sz ltype p =
     \<lparr>tag = t, ftype = PB_ATYPE_POINTER OR PB_HTYPE_OPTIONAL OR ltype, data_offset = fd,
      size_offset = 0, data_size = sz, array_size = 0, fptr = p\<rparr>"

definition PB_SINGULAR_POINTER :: "u32 \<Rightarrow> u32 \<Rightarrow> u32 \<Rightarrow> byte \<Rightarrow> ptr \<Rightarrow> pb_field" where
  "PB_SINGULAR_POINTER t fd sz ltype p =
     \<lparr>tag = t, ftype = PB_ATYPE_POINTER OR PB_HTYPE_OPTIONAL OR ltype, data_offset = fd,
      size_offset = 0, data_size = sz, array_size = 0, fptr = p\<rparr>"

definition PB_REPEATED_POINTER :: "u32 \<Rightarrow> u32 \<Rightarrow> u32 \<Rightarrow> u32 \<Rightarrow> byte \<Rightarrow> ptr \<Rightarrow> pb_field" where
  "PB_REPEATED_POINTER t fd d sz ltype p =
     \<lparr>tag = t, ftype = PB_ATYPE_POINTER OR PB_HTYPE_REPEATED OR ltype, data_offset = fd,
      size_offset = d, data_size = sz, array_size = 0, fptr = p\<rparr>"

definition PB_REQUIRED_CALLBACK :: "u32 \<Rightarrow> u32 \<Rightarrow> u32 \<Rightarrow> byte \<Rightarrow> ptr \<Rightarrow> pb_field" where
  "PB_REQUIRED_CALLBACK t fd sz ltype p =
     \<lparr>tag = t, ftype = PB_ATYPE_CALLBACK OR PB_HTYPE_REQUIRED OR ltype, data_offset = fd,
      size_offset = 0, data_size = sz, array_size = 0, fptr = p\<rparr>"

definition PB_OPTIONAL_CALLBACK :: "u32 \<Rightarrow> u32 \<Rightarrow> u32 \<Rightarrow> byte \<Rightarrow> ptr \<Rightarrow> pb_field" where
  "PB_OPTIONAL_CALLBACK t fd sz ltype p =
     \<lparr>tag = t, ftype = PB_ATYPE_CALLBACK OR PB_HTYPE_OPTIONAL OR ltype, data_offset = fd,
      size_offset = 0, data_size = sz, array_size = 0, fptr = p\<rparr>"

definition PB_SINGULAR_CALLBACK :: "u32 \<Rightarrow> u32 \<Rightarrow> u32 \<Rightarrow> byte \<Rightarrow> ptr \<Rightarrow> pb_field" where
  "PB_SINGULAR_CALLBACK t fd sz ltype p =
     \<lparr>tag = t, ftype = PB_ATYPE_CALLBACK OR PB_HTYPE_OPTIONAL OR ltype, data_offset = fd,
      size_offset = 0, data_size = sz, array_size = 0, fptr = p\<rparr>"

definition PB_REPEATED_CALLBACK :: "u32 \<Rightarrow> u32 \<Rightarrow> u32 \<Rightarrow> byte \<Rightarrow> ptr \<Rightarrow> pb_field" where
  "PB_REPEATED_CALLBACK t fd sz ltype p =
     \<lparr>tag = t, ftype = PB_ATYPE_CALLBACK OR PB_HTYPE_REPEATED OR ltype, data_offset = fd,
      size_offset = 0, data_size = sz, array_size = 0, fptr = p\<rparr>"

definition PB_OPTEXT_STATIC :: "u32 \<Rightarrow> u32 \<Rightarrow> byte \<Rightarrow> ptr \<Rightarrow> pb_field" where
  "PB_OPTEXT_STATIC t sz ltype p =
     \<lparr>tag = t, ftype = PB_ATYPE_STATIC OR PB_HTYPE_REQUIRED OR ltype, data_offset = 0,
      size_offset = 0, data_size = sz, array_size = 0, fptr = p\<rparr>"

definition PB_REPEATED_FIXED_COUNT :: "u32 \<Rightarrow> u32 \<Rightarrow> u32 \<Rightarrow> u32 \<Rightarrow> byte \<Rightarrow> ptr \<Rightarrow> pb_field" where
  "PB_REPEATED_FIXED_COUNT t fd sz n ltype p =
     \<lparr>tag = t, ftype = PB_ATYPE_STATIC OR PB_HTYPE_REPEATED OR ltype, data_offset = fd,
      size_offset = 0, data_size = sz, array_size = n, fptr = p\<rparr>"

definition PB_ONEOF_STATIC :: "u32 \<Rightarrow> u32 \<Rightarrow> u32 \<Rightarrow> u32 \<Rightarrow> byte \<Rightarrow> ptr \<Rightarrow> pb_field" where
  "PB_ONEOF_STATIC t fd d sz ltype p =
     \<lparr>tag = t, ftype = PB_ATYPE_STATIC OR PB_HTYPE_ONEOF OR ltype, data_offset = fd,
      size_offset = d, data_size = sz, array_size = 0, fptr = p\<rparr>"

definition PB_ONEOF_POINTER :: "u32 \<Rightarrow> u32 \<Rightarrow> u32 \<Rightarrow> u32 \<Rightarrow> byte \<Rightarrow> ptr \<Rightarrow> pb_field" where
  "PB_ONEOF_POINTER t fd d sz ltype p =
     \<lparr>tag = t, ftype = PB_ATYPE_POINTER OR PB_HTYPE_ONEOF OR ltype, data_offset = fd,
      size_offset = d, data_size = sz, array_size = 0, fptr = p\<rparr>"

subsection \<open>Streams\<close>

text \<open>
  An input stream reads from a memory buffer (\<open>buf_read\<close>; the state is then the pointer to the rest
  of the buffer, here the bytes from there to the end of the allocation) or through a callback of
  the application with a state of its own. \<open>is_fault\<close> records that the code read past the end of
  the buffer or called through a NULL pointer.
\<close>

datatype 'u is_source = Buf_read "byte list" | User_read 'u

record 'u istream =
  is_src :: "'u is_source"
  is_bytes_left :: csize
  is_errmsg :: "string option"
  is_fault :: bool

text \<open>
  An output stream counts only (NULL callback), appends to a memory buffer (\<open>buf_write\<close>: the bytes
  written so far and the room the buffer has for more) or writes through a callback.
\<close>

datatype 'u os_dest = No_write | Buf_write "byte list" nat | User_write 'u

record 'u ostream =
  os_sink :: "'u os_dest"
  os_max_size :: csize
  os_bytes_written :: csize
  os_errmsg :: "string option"
  os_fault :: bool

text \<open>\<open>PB_SET_ERROR\<close> keeps the first message.\<close>

definition PB_SET_ERROR_is :: "string \<Rightarrow> 'u istream \<Rightarrow> 'u istream" where
  "PB_SET_ERROR_is msg s =
     s\<lparr>is_errmsg := (case is_errmsg s of Some e \<Rightarrow> Some e | None \<Rightarrow> Some msg)\<rparr>"

definition PB_SET_ERROR_os :: "string \<Rightarrow> 'u ostream \<Rightarrow> 'u ostream" where
  "PB_SET_ERROR_os msg s =
     s\<lparr>os_errmsg := (case os_errmsg s of Some e \<Rightarrow> Some e | None \<Rightarrow> Some msg)\<rparr>"

subsection \<open>What the library calls through pointers\<close>

text \<open>
  The application supplies stream callbacks, field callbacks and extension handlers, the C library
  the allocator, and the linked program the descriptors behind \<open>const pb_field_t *\<close> pointers. They
  are parameters of the model. A read callback delivers the bytes it put into the buffer
  (\<open>Inr\<close>), or returns false (\<open>Inl\<close>), having set \<open>bytes_left\<close> to 0 where the flag says so. Stream
  callbacks work on their own \<open>state\<close> and leave the other members alone, as the rules in
  \<open>pb_decode.h\<close> and \<open>pb_encode.h\<close> ask. Callbacks of fields get the descriptor, the address of
  \<open>arg\<close> and the heap; those of the encoder change only the stream.
\<close>

record 'u env =
  e_alloc :: allocator
  e_fields :: "ptr \<Rightarrow> pb_field list"
  e_read :: "'u \<Rightarrow> csize \<Rightarrow> (bool + byte list) \<times> 'u"
  e_write :: "'u \<Rightarrow> byte list \<Rightarrow> bool \<times> 'u"
  e_dec_cb :: "ptr \<Rightarrow> 'u istream \<Rightarrow> pb_field \<Rightarrow> ptr \<Rightarrow> heap \<Rightarrow> bool \<times> 'u istream \<times> heap"
  e_enc_cb :: "ptr \<Rightarrow> 'u ostream \<Rightarrow> pb_field \<Rightarrow> ptr \<Rightarrow> heap \<Rightarrow> bool \<times> 'u ostream"
  e_ext_dec :: "ptr \<Rightarrow> 'u istream \<Rightarrow> ptr \<Rightarrow> u32 \<Rightarrow> u32 \<Rightarrow> heap \<Rightarrow> bool \<times> 'u istream \<times> heap"
  e_ext_enc :: "ptr \<Rightarrow> 'u ostream \<Rightarrow> ptr \<Rightarrow> heap \<Rightarrow> bool \<times> 'u ostream"

text \<open>The smallest program to link against: no memory, no descriptors, no callbacks. Concrete runs
  below use it.\<close>

definition plain_env :: "unit env" where
  "plain_env = \<lparr>e_alloc = (\<lambda>_ _ _. None), e_fields = (\<lambda>_. []), e_read = (\<lambda>u _. (Inl True, u)),
     e_write = (\<lambda>u _. (False, u)), e_dec_cb = (\<lambda>_ s _ _ h. (False, s, h)),
     e_enc_cb = (\<lambda>_ s _ _ _. (False, s)), e_ext_dec = (\<lambda>_ s _ _ _ h. (False, s, h)),
     e_ext_enc = (\<lambda>_ s _ _. (False, s))\<rparr>"

text \<open>A message with a required \<open>int32\<close> and an array of up to two \<open>uint32\<close>,
  \<open>struct { int32_t a; pb_size_t b_count; uint32_t b[2]; }\<close>, and one of it in memory at \<open>0x1000\<close>:
  \<open>a = 150\<close>, \<open>b = {5}\<close>.\<close>

definition demo_fields :: "pb_field list" where
  "demo_fields =
     [PB_REQUIRED_STATIC 1 (PB_DATAOFFSET_FIRST 0) 4 PB_LTYPE_VARINT 0,
      PB_REPEATED_STATIC 2 (PB_DATAOFFSET_OTHER 8 0 4) (pb_delta 4 8) 4 2 PB_LTYPE_UVARINT 0,
      PB_LAST_FIELD]"

definition demo_heap :: heap where
  "demo_heap = \<lparr>hmem = (\<lambda>x. if x = 0x1000 then 150 else if x = 0x1004 then 1
     else if x = 0x1008 then 5 else 0), hblocks = (\<lambda>_. None), hfault = False, hfixed = 0\<rparr>"

subsection \<open>Structures in memory\<close>

text \<open>Member offsets of \<open>pb_bytes_array_t\<close>, \<open>pb_callback_t\<close>, \<open>pb_extension_type_t\<close> and
  \<open>pb_extension_t\<close> with 8-byte pointers.\<close>

definition bytes_array_bytes :: "ptr \<Rightarrow> ptr" where
  "bytes_array_bytes p = p + 4"

definition PB_BYTES_ARRAY_T_ALLOCSIZE :: "csize \<Rightarrow> csize" where
  "PB_BYTES_ARRAY_T_ALLOCSIZE n = n + 4"

definition callback_func :: "heap \<Rightarrow> ptr \<Rightarrow> ptr" where
  "callback_func h p = load64 h p"

definition callback_arg :: "ptr \<Rightarrow> ptr" where
  "callback_arg p = p + 8"

definition ext_type :: "heap \<Rightarrow> ptr \<Rightarrow> ptr" where
  "ext_type h p = load64 h p"

definition ext_dest_addr :: "ptr \<Rightarrow> ptr" where
  "ext_dest_addr p = p + 8"

definition ext_dest :: "heap \<Rightarrow> ptr \<Rightarrow> ptr" where
  "ext_dest h p = load64 h (ext_dest_addr p)"

definition ext_next :: "heap \<Rightarrow> ptr \<Rightarrow> ptr" where
  "ext_next h p = load64 h (p + 16)"

definition ext_found_addr :: "ptr \<Rightarrow> ptr" where
  "ext_found_addr p = p + 24"

definition ext_type_decode :: "heap \<Rightarrow> ptr \<Rightarrow> ptr" where
  "ext_type_decode h p = load64 h p"

definition ext_type_encode :: "heap \<Rightarrow> ptr \<Rightarrow> ptr" where
  "ext_type_encode h p = load64 h (p + 8)"

definition ext_type_arg :: "heap \<Rightarrow> ptr \<Rightarrow> ptr" where
  "ext_type_arg h p = load64 h (p + 16)"

subsection \<open>Facts about type codes\<close>

lemma PB_HTYPE_bits:
  "PB_HTYPE t = (if bit t 4 then 0x10 else 0) OR (if bit t 5 then 0x20 else 0)"
proof (rule bit_word_eqI)
  fix n assume "n < LENGTH(8)"
  then have "n \<in> {0, 1, 2, 3, 4, 5, 6, 7}" by auto
  then show "bit (PB_HTYPE t) n =
      bit ((if bit t 4 then 0x10 else 0) OR (if bit t 5 then 0x20 else 0 :: byte)) n"
    by (auto simp: PB_HTYPE_def bit_simps bit_numeral_rec)
qed

lemma PB_HTYPE_cases:
  "PB_HTYPE t = PB_HTYPE_REQUIRED \<or> PB_HTYPE t = PB_HTYPE_OPTIONAL
   \<or> PB_HTYPE t = PB_HTYPE_REPEATED \<or> PB_HTYPE t = PB_HTYPE_ONEOF"
  by (simp add: PB_HTYPE_bits)

lemma PB_ATYPE_bits:
  "PB_ATYPE t = (if bit t 6 then 0x40 else 0) OR (if bit t 7 then 0x80 else 0)"
proof (rule bit_word_eqI)
  fix n assume "n < LENGTH(8)"
  then have "n \<in> {0, 1, 2, 3, 4, 5, 6, 7}" by auto
  then show "bit (PB_ATYPE t) n =
      bit ((if bit t 6 then 0x40 else 0) OR (if bit t 7 then 0x80 else 0 :: byte)) n"
    by (auto simp: PB_ATYPE_def bit_simps bit_numeral_rec)
qed

lemma field_at_beyond [simp]: "length fs \<le> i \<Longrightarrow> tag (field_at fs i) = 0"
  by (simp add: field_at_def PB_LAST_FIELD_def)

lemma field_at_tag: "tag (field_at fs i) \<noteq> 0 \<Longrightarrow> i < length fs"
  by (cases "i < length fs") simp_all

end
