(* ===== verification/Pb_Common.thy ===== *)
theory Pb_Common imports Pb_Types begin

text \<open>
  \<open>nanopb/pb_common.c\<close>: the iterator that walks a message descriptor and the C structure it
  describes side by side. \<open>iter_nth fs d k\<close> is the iterator at field \<open>k\<close>; the lemmas show that
  \<open>pb_field_iter_next\<close> goes through these in order and wraps around, that the two searches stop
  after one round and find the first match, and where the data pointers point.
\<close>

subsection \<open>The code\<close>

text \<open>
  \<open>pSize\<close> points into the message structure, except where \<open>pb_decode_noinit\<close> makes it point to its
  local variable \<open>fixed_count_size\<close>. \<open>pos\<close> is the index into the array \<open>start\<close>.
\<close>

datatype slot = Slot ptr | Local_slot

record iter =
  it_start :: "pb_field list"
  it_pos :: nat
  required_field_index :: nat
  dest_struct :: ptr
  pData :: ptr
  pSize :: slot

definition it_field :: "iter \<Rightarrow> pb_field" where
  "it_field it = field_at (it_start it) (it_pos it)"

definition pb_field_iter_begin :: "pb_field list \<Rightarrow> ptr \<Rightarrow> bool \<times> iter" where
  "pb_field_iter_begin fs dest =
     (let f = field_at fs 0;
          data = dest + ucast (data_offset f)
      in (tag f \<noteq> 0,
          \<lparr>it_start = fs, it_pos = 0, required_field_index = 0, dest_struct = dest,
           pData = data, pSize = Slot (data + scast (size_offset f))\<rparr>))"

definition pb_field_iter_next :: "iter \<Rightarrow> bool \<times> iter" where
  "pb_field_iter_next it =
     (let prev_field = it_field it in
      if tag prev_field = 0 then (False, it)
      else
        let it1 = it\<lparr>it_pos := it_pos it + 1\<rparr>; f = it_field it1 in
        if tag f = 0 then (False, snd (pb_field_iter_begin (it_start it) (dest_struct it)))
        else if PB_HTYPE (ftype prev_field) = PB_HTYPE_ONEOF
             \<and> PB_HTYPE (ftype f) = PB_HTYPE_ONEOF \<and> data_offset f = PB_SIZE_MAX
        then (True, it1)
        else
          let prev_size =
                (if PB_ATYPE (ftype prev_field) = PB_ATYPE_STATIC
                    \<and> PB_HTYPE (ftype prev_field) = PB_HTYPE_REPEATED
                 then ucast (data_size prev_field) * ucast (array_size prev_field)
                 else if PB_ATYPE (ftype prev_field) = PB_ATYPE_POINTER then 8
                 else ucast (data_size prev_field)) :: csize;
              req = (if PB_HTYPE (ftype prev_field) = PB_HTYPE_REQUIRED
                     then required_field_index it + 1 else required_field_index it);
              data = pData it + prev_size + ucast (data_offset f)
          in (True, it1\<lparr>required_field_index := req, pData := data,
                        pSize := Slot (data + scast (size_offset f))\<rparr>))"

text \<open>
  Both searches of the library are the loop
  \<open>do { if (P(iter->pos)) return true; pb_field_iter_next(iter); } while (iter->pos != start)\<close>.
  The fuel is one step more than there are entries; \<open>iter_search_total\<close> shows that it is enough.
\<close>

fun iter_search_loop :: "nat \<Rightarrow> (pb_field \<Rightarrow> bool) \<Rightarrow> nat \<Rightarrow> iter \<Rightarrow> (bool \<times> iter) option" where
  "iter_search_loop 0 P start it = None"
| "iter_search_loop (Suc n) P start it =
     (if P (it_field it) then Some (True, it)
      else let it' = snd (pb_field_iter_next it)
           in if it_pos it' \<noteq> start then iter_search_loop n P start it'
              else Some (False, it'))"

definition iter_search :: "(pb_field \<Rightarrow> bool) \<Rightarrow> iter \<Rightarrow> (bool \<times> iter) option" where
  "iter_search P it = iter_search_loop (Suc (length (it_start it))) P (it_pos it) it"

definition tag_matches :: "u32 \<Rightarrow> pb_field \<Rightarrow> bool" where
  "tag_matches t f \<longleftrightarrow> tag f = t \<and> PB_LTYPE (ftype f) \<noteq> PB_LTYPE_EXTENSION"

definition pb_field_iter_find :: "iter \<Rightarrow> u32 \<Rightarrow> (bool \<times> iter) option" where
  "pb_field_iter_find it t = iter_search (tag_matches t) it"

text \<open>\<open>find_extension_field\<close> of \<open>pb_decode.c\<close>.\<close>

definition find_extension_field :: "iter \<Rightarrow> (bool \<times> iter) option" where
  "find_extension_field it = iter_search (\<lambda>f. PB_LTYPE (ftype f) = PB_LTYPE_EXTENSION) it"

text \<open>The loop \<open>do { body } while (pb_field_iter_next(&iter))\<close>, left early when the body fails.\<close>

function iter_loop ::
  "(iter \<Rightarrow> 's \<Rightarrow> (bool \<times> 's) option) \<Rightarrow> iter \<Rightarrow> 's \<Rightarrow> (bool \<times> 's) option" where
  "iter_loop body it s =
     and_then (body it s) (\<lambda>s'.
       case pb_field_iter_next it of (again, it') \<Rightarrow>
         if again then iter_loop body it' s' else Some (True, s'))"
  by pat_completeness auto

text \<open>Each round moves one entry on, and there is no next field past the end of the array.\<close>

lemma pb_field_iter_next_True:
  assumes "pb_field_iter_next it = (True, it')"
  shows "it_pos it' = Suc (it_pos it)" "it_start it' = it_start it"
    "dest_struct it' = dest_struct it" "tag (it_field it') \<noteq> 0" "tag (it_field it) \<noteq> 0"
  using assms
  by (auto simp: pb_field_iter_next_def Let_def it_field_def split: if_splits)

termination iter_loop
proof (relation "measure (\<lambda>(body, it, s). length (it_start it) - it_pos it)", goal_cases)
  case (2 body it s s' p it')
  then have "pb_field_iter_next it = (True, it')" by simp
  from pb_field_iter_next_True [OF this] show ?case
    by (auto simp: it_field_def dest: field_at_tag)
qed simp

declare iter_loop.simps [simp del]

subsection \<open>The iterator at a given field\<close>

definition n_fields :: "pb_field list \<Rightarrow> nat" where
  "n_fields fs = length (takeWhile (\<lambda>f. tag f \<noteq> 0) fs)"

primrec iter_nth :: "pb_field list \<Rightarrow> ptr \<Rightarrow> nat \<Rightarrow> iter" where
  "iter_nth fs d 0 = snd (pb_field_iter_begin fs d)"
| "iter_nth fs d (Suc k) = snd (pb_field_iter_next (iter_nth fs d k))"

lemma n_fields_le: "n_fields fs \<le> length fs"
  by (simp add: n_fields_def length_takeWhile_le)

lemma tag_before_end: "k < n_fields fs \<Longrightarrow> tag (field_at fs k) \<noteq> 0"
  using nth_mem [of k "takeWhile (\<lambda>f. tag f \<noteq> 0) fs"] n_fields_le [of fs]
  by (auto simp: n_fields_def field_at_def takeWhile_nth dest: set_takeWhileD)

lemma tag_at_end: "tag (field_at fs (n_fields fs)) = 0"
proof (cases "n_fields fs < length fs")
  case True
  then show ?thesis
    using nth_length_takeWhile [of "\<lambda>f. tag f \<noteq> 0" fs] by (simp add: n_fields_def field_at_def)
qed simp

lemma begin_fields [simp]:
  "it_start (snd (pb_field_iter_begin fs d)) = fs"
  "it_pos (snd (pb_field_iter_begin fs d)) = 0"
  "dest_struct (snd (pb_field_iter_begin fs d)) = d"
  by (simp_all add: pb_field_iter_begin_def Let_def)

lemma pb_field_iter_begin_eq: "pb_field_iter_begin fs d = (n_fields fs \<noteq> 0, iter_nth fs d 0)"
proof -
  have "tag (field_at fs 0) \<noteq> 0 \<longleftrightarrow> n_fields fs \<noteq> 0"
    using tag_before_end [of 0 fs] tag_at_end [of fs] by (cases "n_fields fs = 0") auto
  then show ?thesis by (simp add: pb_field_iter_begin_def Let_def)
qed

lemma iter_nth_fields [simp]:
  "k < n_fields fs \<Longrightarrow> it_pos (iter_nth fs d k) = k
     \<and> it_start (iter_nth fs d k) = fs \<and> dest_struct (iter_nth fs d k) = d"
proof (induction k)
  case (Suc k)
  then have "tag (field_at fs k) \<noteq> 0" "tag (field_at fs (Suc k)) \<noteq> 0"
    by (simp_all add: tag_before_end)
  with Suc show ?case
    by (auto simp: pb_field_iter_next_def Let_def it_field_def)
qed simp

lemma it_field_iter_nth [simp]: "k < n_fields fs \<Longrightarrow> it_field (iter_nth fs d k) = field_at fs k"
  by (simp add: it_field_def)

lemma pb_field_iter_next_iter_nth:
  assumes "k < n_fields fs"
  shows "pb_field_iter_next (iter_nth fs d k) =
    (if Suc k < n_fields fs then (True, iter_nth fs d (Suc k)) else (False, iter_nth fs d 0))"
proof (cases "Suc k < n_fields fs")
  case True
  then have "tag (field_at fs k) \<noteq> 0" "tag (field_at fs (Suc k)) \<noteq> 0"
    by (simp_all add: tag_before_end)
  with True have "fst (pb_field_iter_next (iter_nth fs d k))"
    by (simp add: pb_field_iter_next_def Let_def it_field_def)
  with True show ?thesis by (cases "pb_field_iter_next (iter_nth fs d k)") simp
next
  case False
  with assms have "Suc k = n_fields fs" by simp
  with assms show ?thesis
    using tag_at_end [of fs] tag_before_end [of k fs]
    by (simp add: pb_field_iter_next_def Let_def it_field_def)
qed

lemma pb_field_iter_next_empty:
  "n_fields fs = 0 \<Longrightarrow> pb_field_iter_next (iter_nth fs d 0) = (False, iter_nth fs d 0)"
  using tag_at_end [of fs] by (simp add: pb_field_iter_next_def it_field_def)

text \<open>The count pointer plays no role in a step, except between members of a union.\<close>

lemma pb_field_iter_next_pSize:
  assumes "PB_HTYPE (ftype (it_field it)) \<noteq> PB_HTYPE_ONEOF" and "tag (it_field it) \<noteq> 0"
  shows "pb_field_iter_next (it\<lparr>pSize := x\<rparr>) = pb_field_iter_next it"
  using assms by (simp add: pb_field_iter_next_def Let_def it_field_def)

declare iter_nth.simps [simp del] iter_search_loop.simps [simp del]

subsection \<open>The searches\<close>

text \<open>From field \<open>s\<close> on, \<open>m\<close> fields already seen without a match.\<close>

lemma iter_search_loop_spec:
  assumes "m < n_fields fs" and "s < n_fields fs" and "n_fields fs - m \<le> fuel"
    and "\<forall>i < m. \<not> P (field_at fs ((s + i) mod n_fields fs))"
  shows "(\<exists>j < n_fields fs. P (field_at fs ((s + j) mod n_fields fs))
            \<and> (\<forall>i < j. \<not> P (field_at fs ((s + i) mod n_fields fs)))
            \<and> iter_search_loop fuel P s (iter_nth fs d ((s + m) mod n_fields fs))
                = Some (True, iter_nth fs d ((s + j) mod n_fields fs)))
       \<or> ((\<forall>k < n_fields fs. \<not> P (field_at fs k))
            \<and> iter_search_loop fuel P s (iter_nth fs d ((s + m) mod n_fields fs))
                = Some (False, iter_nth fs d s))"
  using assms
proof (induction fuel arbitrary: m)
  case 0
  then show ?case by simp
next
  case (Suc fuel)
  let ?n = "n_fields fs"
  define k where "k = (s + m) mod ?n"
  define k' where "k' = (s + Suc m) mod ?n"
  have k: "k < ?n" and k': "k' < ?n" using Suc.prems by (simp_all add: k_def k'_def)
  have fk: "it_field (iter_nth fs d k) = field_at fs k" using k by simp
  show ?case
  proof (cases "P (field_at fs k)")
    case True
    then have "iter_search_loop (Suc fuel) P s (iter_nth fs d k) = Some (True, iter_nth fs d k)"
      by (simp add: fk iter_search_loop.simps)
    with True Suc.prems show ?thesis unfolding k_def by blast
  next
    case False
    have "k' = (if Suc k = ?n then 0 else Suc k)"
      unfolding k_def k'_def by (simp add: mod_Suc)
    then have next_it: "snd (pb_field_iter_next (iter_nth fs d k)) = iter_nth fs d k'"
      using k by (auto simp: pb_field_iter_next_iter_nth)
    have pos: "it_pos (iter_nth fs d k') = k'" using k' by simp
    have step: "iter_search_loop (Suc fuel) P s (iter_nth fs d k) =
        (if k' \<noteq> s then iter_search_loop fuel P s (iter_nth fs d k')
         else Some (False, iter_nth fs d k'))"
      using False by (simp only: iter_search_loop.simps fk next_it pos Let_def if_False)
    have seen: "\<forall>i < Suc m. \<not> P (field_at fs ((s + i) mod ?n))"
      using Suc.prems False by (auto simp: less_Suc_eq k_def)
    show ?thesis
    proof (cases "Suc m < ?n")
      case True
      have "k' \<noteq> s" unfolding k'_def
        using True Suc.prems(2) by (cases "s + Suc m < ?n") (simp_all add: le_mod_geq)
      with step have "iter_search_loop (Suc fuel) P s (iter_nth fs d k)
          = iter_search_loop fuel P s (iter_nth fs d k')" by simp
      with Suc.IH [of "Suc m"] True seen Suc.prems show ?thesis
        unfolding k_def k'_def by simp
    next
      case False
      with Suc.prems have m: "Suc m = ?n" by simp
      then have "k' = s" unfolding k'_def using Suc.prems by simp
      with step have "iter_search_loop (Suc fuel) P s (iter_nth fs d k)
          = Some (False, iter_nth fs d s)" by simp
      moreover have "\<not> P (field_at fs l)" if "l < ?n" for l
      proof -
        define i where "i = (l + (?n - s)) mod ?n"
        have "(s + i) mod ?n = (s + (l + (?n - s))) mod ?n"
          unfolding i_def by (rule mod_add_right_eq)
        also have "\<dots> = l" using that Suc.prems(2) by simp
        finally have "(s + i) mod ?n = l" .
        moreover have "i < Suc m" using m that unfolding i_def by simp
        ultimately show ?thesis using seen by auto
      qed
      ultimately show ?thesis unfolding k_def by blast
    qed
  qed
qed

text \<open>
  An iterator of the library is at a field of its descriptor. While \<open>pb_decode_noinit\<close> reads an
  array of fixed length, its \<open>pSize\<close> points to the local counter instead.
\<close>

definition iter_at :: "pb_field list \<Rightarrow> ptr \<Rightarrow> nat \<Rightarrow> iter \<Rightarrow> bool" where
  "iter_at fs d k it \<longleftrightarrow> (k < n_fields fs \<or> k = 0) \<and> (it = iter_nth fs d k
     \<or> k < n_fields fs \<and> PB_HTYPE (ftype (field_at fs k)) = PB_HTYPE_REPEATED
       \<and> it = (iter_nth fs d k)\<lparr>pSize := Local_slot\<rparr>)"

lemma iter_at_iter_nth [simp]: "iter_at fs d k (iter_nth fs d k) \<longleftrightarrow> k < n_fields fs \<or> k = 0"
  by (simp add: iter_at_def)

lemma iter_at_fields:
  assumes "iter_at fs d k it"
  shows "it_start it = fs" "it_pos it = k" "dest_struct it = d" "it_field it = field_at fs k"
proof -
  have "it_start (iter_nth fs d k) = fs \<and> it_pos (iter_nth fs d k) = k
      \<and> dest_struct (iter_nth fs d k) = d"
    using assms by (auto simp: iter_at_def iter_nth.simps)
  moreover obtain x where "it = (iter_nth fs d k)\<lparr>pSize := x\<rparr>"
  proof (cases "it = iter_nth fs d k")
    case True
    with that [of "pSize it"] show ?thesis by simp
  next
    case False
    with assms that show ?thesis by (auto simp: iter_at_def)
  qed
  ultimately show "it_start it = fs" "it_pos it = k" "dest_struct it = d"
    "it_field it = field_at fs k"
    by (simp_all add: it_field_def)
qed

lemma pb_field_iter_next_iter_at:
  assumes "iter_at fs d k it"
  shows "pb_field_iter_next it =
    (if Suc k < n_fields fs then (True, iter_nth fs d (Suc k)) else (False, iter_nth fs d 0))"
proof (cases "it = iter_nth fs d k")
  case True
  with assms show ?thesis
    by (cases "n_fields fs = 0")
      (auto simp: iter_at_def pb_field_iter_next_empty pb_field_iter_next_iter_nth)
next
  case False
  with assms have "k < n_fields fs" "PB_HTYPE (ftype (field_at fs k)) = PB_HTYPE_REPEATED"
    and it: "it = (iter_nth fs d k)\<lparr>pSize := Local_slot\<rparr>"
    by (auto simp: iter_at_def)
  then show ?thesis
    by (simp add: pb_field_iter_next_pSize pb_field_iter_next_iter_nth tag_before_end)
qed

text \<open>
  A search that starts at field \<open>k\<close> returns: at once where it is, if that field matches; else at
  the first match after \<open>k\<close> in cyclic order; and false, back at field \<open>k\<close>, if there is none.
\<close>

lemma iter_search_iter_nth:
  assumes "k < n_fields fs"
  shows "(\<exists>j < n_fields fs. P (field_at fs ((k + j) mod n_fields fs))
            \<and> (\<forall>i < j. \<not> P (field_at fs ((k + i) mod n_fields fs)))
            \<and> iter_search P (iter_nth fs d k)
                = Some (True, iter_nth fs d ((k + j) mod n_fields fs)))
       \<or> (\<forall>i < n_fields fs. \<not> P (field_at fs i))
            \<and> iter_search P (iter_nth fs d k) = Some (False, iter_nth fs d k)"
proof -
  have "iter_search P (iter_nth fs d k)
      = iter_search_loop (Suc (length fs)) P k (iter_nth fs d ((k + 0) mod n_fields fs))"
    using assms by (simp add: iter_search_def)
  moreover have "n_fields fs - 0 \<le> Suc (length fs)" using n_fields_le [of fs] by simp
  ultimately show ?thesis
    using iter_search_loop_spec [of 0 fs k "Suc (length fs)" P d] assms by simp
qed

lemma iter_search_here: "P (it_field it) \<Longrightarrow> iter_search P it = Some (True, it)"
  by (simp add: iter_search_def iter_search_loop.simps)

lemma iter_search_True: "iter_search P it = Some (True, it') \<Longrightarrow> P (it_field it')"
proof -
  have "iter_search_loop k P start it = Some (True, it') \<Longrightarrow> P (it_field it')" for k start
    by (induction k arbitrary: it) (auto simp: iter_search_loop.simps Let_def split: if_splits)
  then show "iter_search P it = Some (True, it') \<Longrightarrow> P (it_field it')"
    by (simp add: iter_search_def)
qed

lemma iter_search_iter_at:
  assumes "iter_at fs d k it" and "\<not> P (field_at fs k)"
  shows "iter_search P it = iter_search P (iter_nth fs d k)"
proof -
  have "it_field it = field_at fs k" "it_pos it = k" "it_start it = fs"
    using iter_at_fields [OF assms(1)] by simp_all
  moreover have at: "iter_at fs d k (iter_nth fs d k)" using assms(1) by (simp add: iter_at_def)
  have "it_field (iter_nth fs d k) = field_at fs k" "it_pos (iter_nth fs d k) = k"
    "it_start (iter_nth fs d k) = fs"
    using iter_at_fields [OF at] by simp_all
  moreover have "pb_field_iter_next (iter_nth fs d k) = pb_field_iter_next it"
    using pb_field_iter_next_iter_at [OF at] pb_field_iter_next_iter_at [OF assms(1)] by simp
  ultimately show ?thesis using assms(2) by (simp add: iter_search_def iter_search_loop.simps)
qed

lemma iter_search_empty:
  assumes "n_fields fs = 0"
  shows "iter_search P (iter_nth fs d 0) = Some (P (field_at fs 0), iter_nth fs d 0)"
proof -
  have at: "iter_at fs d 0 (iter_nth fs d 0)" by simp
  from iter_at_fields [OF at] show ?thesis
    using pb_field_iter_next_empty [OF assms, of d] by (simp add: iter_search_def iter_search_loop.simps)
qed

theorem iter_search_total:
  assumes "iter_at fs d k it"
  shows "\<exists>b k' it'. iter_search P it = Some (b, it') \<and> iter_at fs d k' it'
    \<and> (b \<longrightarrow> P (it_field it')) \<and> (\<not> b \<longrightarrow> (\<forall>i < n_fields fs. \<not> P (field_at fs i)))"
proof (cases "P (field_at fs k)")
  case True
  with assms have "iter_search P it = Some (True, it)" "P (it_field it)"
    using iter_at_fields [OF assms] by (simp_all add: iter_search_here)
  with assms show ?thesis by blast
next
  case False
  note eq = iter_search_iter_at [of fs d k it P, OF assms False]
  show ?thesis
  proof (cases "n_fields fs = 0")
    case True
    then have "k = 0" using assms by (simp add: iter_at_def)
    with True False eq have "iter_search P it = Some (False, iter_nth fs d 0)"
      by (simp add: iter_search_empty)
    with True show ?thesis
      by (intro exI [of _ False] exI [of _ 0] exI [of _ "iter_nth fs d 0"]) simp
  next
    case False
    then have k: "k < n_fields fs" using assms by (auto simp: iter_at_def)
    from iter_search_iter_nth [OF k, of P d] show ?thesis
    proof (elim disjE exE conjE)
      fix j assume "j < n_fields fs" "P (field_at fs ((k + j) mod n_fields fs))"
        "iter_search P (iter_nth fs d k) = Some (True, iter_nth fs d ((k + j) mod n_fields fs))"
      with eq k show ?thesis
        by (intro exI [of _ True] exI [of _ "(k + j) mod n_fields fs"]
              exI [of _ "iter_nth fs d ((k + j) mod n_fields fs)"]) auto
    next
      assume "\<forall>i < n_fields fs. \<not> P (field_at fs i)"
        "iter_search P (iter_nth fs d k) = Some (False, iter_nth fs d k)"
      with eq k show ?thesis
        by (intro exI [of _ False] exI [of _ k] exI [of _ "iter_nth fs d k"]) auto
    qed
  qed
qed

text \<open>A loop over the fields relates its states by whatever reflexive and transitive relation its body
  does at each field.\<close>

lemma iter_loop_rel:
  assumes refl: "\<And>s. Q True s s" and trans: "\<And>b s t u. Q True s t \<Longrightarrow> Q b t u \<Longrightarrow> Q b s u"
    and body: "\<And>j s b t. k \<le> j \<Longrightarrow> j < n_fields fs \<Longrightarrow> body (iter_nth fs d j) s = Some (b, t) \<Longrightarrow> Q b s t"
  shows "k < n_fields fs \<Longrightarrow> iter_loop body (iter_nth fs d k) s = Some (b, t) \<Longrightarrow> Q b s t"
  using body
proof (induction "n_fields fs - k" arbitrary: k s)
  case (Suc m)
  from Suc.prems(2) show ?case
    unfolding iter_loop.simps [of body "iter_nth fs d k"]
  proof (cases rule: and_then_SomeE)
    case fail
    with Suc.prems show ?thesis by (cases b) auto
  next
    case (ok s1)
    have Q: "Q True s s1" using Suc.prems ok(1) by auto
    show ?thesis
    proof (cases "Suc k < n_fields fs")
      case True
      with ok(2) Suc.prems have "iter_loop body (iter_nth fs d (Suc k)) s1 = Some (b, t)"
        by (simp add: pb_field_iter_next_iter_nth)
      moreover have "m = n_fields fs - Suc k" using Suc.hyps(2) by simp
      moreover have "Q b' s t'" if "Suc k \<le> j" "j < n_fields fs"
        "body (iter_nth fs d j) s = Some (b', t')" for j s b' t'
        by (rule Suc.prems(3) [of j]) (use that in simp_all)
      ultimately have "Q b s1 t" using Suc.hyps(1) [of "Suc k" s1] True by blast
      with Q show ?thesis by (rule trans)
    next
      case False
      with ok(2) Suc.prems Q show ?thesis by (simp add: pb_field_iter_next_iter_nth)
    qed
  qed
qed simp

lemma iter_loop_total:
  assumes body: "\<And>j s. j < n_fields fs \<Longrightarrow> returns (body (iter_nth fs d j) s)"
  shows "k < n_fields fs \<Longrightarrow> returns (iter_loop body (iter_nth fs d k) s)"
proof (induction "n_fields fs - k" arbitrary: k s)
  case (Suc m)
  have "Suc k < n_fields fs \<Longrightarrow> returns (iter_loop body (iter_nth fs d (Suc k)) t)" for t
    using Suc.hyps by simp
  then show ?case
    unfolding iter_loop.simps [of body "iter_nth fs d k"]
    using Suc.prems body by (intro returns_and_then) (simp_all add: pb_field_iter_next_iter_nth)
qed simp

lemma pb_field_iter_begin_nonempty: "fst (pb_field_iter_begin fs d) \<longleftrightarrow> n_fields fs \<noteq> 0"
  using tag_at_end [of fs] tag_before_end [of 0 fs]
  by (cases "n_fields fs = 0") (auto simp: pb_field_iter_begin_def Let_def)

subsection \<open>Where the data pointers point\<close>

text \<open>The size a field takes in the C structure, as the iterator steps over it.\<close>

definition field_extent :: "pb_field \<Rightarrow> csize" where
  "field_extent f =
     (if PB_ATYPE (ftype f) = PB_ATYPE_STATIC \<and> PB_HTYPE (ftype f) = PB_HTYPE_REPEATED
      then ucast (data_size f) * ucast (array_size f)
      else if PB_ATYPE (ftype f) = PB_ATYPE_POINTER then 8
      else ucast (data_size f))"

definition same_union :: "pb_field \<Rightarrow> pb_field \<Rightarrow> bool" where
  "same_union f g \<longleftrightarrow> PB_HTYPE (ftype f) = PB_HTYPE_ONEOF
     \<and> PB_HTYPE (ftype g) = PB_HTYPE_ONEOF \<and> data_offset g = PB_SIZE_MAX"

primrec struct_offset :: "pb_field list \<Rightarrow> nat \<Rightarrow> csize" where
  "struct_offset fs 0 = ucast (data_offset (field_at fs 0))"
| "struct_offset fs (Suc k) =
     (if same_union (field_at fs k) (field_at fs (Suc k)) then struct_offset fs k
      else struct_offset fs k + field_extent (field_at fs k)
           + ucast (data_offset (field_at fs (Suc k))))"

primrec struct_size_offset :: "pb_field list \<Rightarrow> nat \<Rightarrow> csize" where
  "struct_size_offset fs 0 = struct_offset fs 0 + scast (size_offset (field_at fs 0))"
| "struct_size_offset fs (Suc k) =
     (if same_union (field_at fs k) (field_at fs (Suc k)) then struct_size_offset fs k
      else struct_offset fs (Suc k) + scast (size_offset (field_at fs (Suc k))))"

lemma iter_nth_next_fields:
  assumes "Suc k < n_fields fs"
  shows "pData (iter_nth fs d (Suc k)) =
      (if same_union (field_at fs k) (field_at fs (Suc k)) then pData (iter_nth fs d k)
       else pData (iter_nth fs d k) + field_extent (field_at fs k)
            + ucast (data_offset (field_at fs (Suc k))))"
    and "pSize (iter_nth fs d (Suc k)) =
      (if same_union (field_at fs k) (field_at fs (Suc k)) then pSize (iter_nth fs d k)
       else Slot (pData (iter_nth fs d (Suc k)) + scast (size_offset (field_at fs (Suc k)))))"
proof -
  have t: "tag (field_at fs k) \<noteq> 0" "tag (field_at fs (Suc k)) \<noteq> 0" and k: "k < n_fields fs"
    using assms by (simp_all add: tag_before_end)
  define it where "it = iter_nth fs d k"
  have it: "it_field it = field_at fs k" "it_field (it\<lparr>it_pos := Suc (it_pos it)\<rparr>) = field_at fs (Suc k)"
    using k by (simp_all add: it_def it_field_def)
  show "pData (iter_nth fs d (Suc k)) =
      (if same_union (field_at fs k) (field_at fs (Suc k)) then pData (iter_nth fs d k)
       else pData (iter_nth fs d k) + field_extent (field_at fs k)
            + ucast (data_offset (field_at fs (Suc k))))"
    and "pSize (iter_nth fs d (Suc k)) =
      (if same_union (field_at fs k) (field_at fs (Suc k)) then pSize (iter_nth fs d k)
       else Slot (pData (iter_nth fs d (Suc k)) + scast (size_offset (field_at fs (Suc k)))))"
    using t by (simp_all add: iter_nth.simps it_def [symmetric] pb_field_iter_next_def it Let_def
        same_union_def field_extent_def)
qed

theorem iter_nth_pointers:
  assumes "k < n_fields fs"
  shows "pData (iter_nth fs d k) = d + struct_offset fs k
       \<and> pSize (iter_nth fs d k) = Slot (d + struct_size_offset fs k)"
  using assms
proof (induction k)
  case 0
  then show ?case by (simp add: iter_nth.simps pb_field_iter_begin_def Let_def add.assoc)
next
  case (Suc k)
  then have "k < n_fields fs" by simp
  from Suc.IH [OF this] show ?case
    unfolding iter_nth_next_fields [OF Suc.prems] by (simp add: add.assoc)
qed

end
