(* ===== verification/Pb_Istream.thy ===== *)
theory Pb_Istream imports Pb_Common begin

text \<open>
  The input stream of \<open>nanopb/pb_decode.c\<close>: \<open>pb_read\<close>, the varint and fixed-width readers, tags,
  skipping of fields and substreams. The code comes first; then the invariant \<open>is_ok\<close> (a buffer
  stream never reads past its buffer), what each function consumes, and what it computes on a
  stream whose next bytes are known (\<open>starts\<close>).

  A C function that fills an out-parameter and returns a bool gives an option here, \<open>None\<close> for
  false. The bytes that \<open>pb_read\<close> puts into a local buffer are its result.
\<close>

subsection \<open>Reading\<close>

definition buf_read :: "byte list \<Rightarrow> csize \<Rightarrow> 'u istream \<Rightarrow> byte list \<times> 'u istream" where
  "buf_read source count s =
     (let n = unat count; s' = s\<lparr>is_src := Buf_read (drop n source)\<rparr>
      in if n \<le> length source then (take n source, s')
         else (source @ replicate (n - length source) 0, s'\<lparr>is_fault := True\<rparr>))"

text \<open>\<open>stream->callback(stream, buf, count)\<close>.\<close>

definition is_callback :: "'u env \<Rightarrow> csize \<Rightarrow> 'u istream \<Rightarrow> byte list option \<times> 'u istream" where
  "is_callback e count s =
     (case is_src s of
        Buf_read source \<Rightarrow> (case buf_read source count s of (bs, s') \<Rightarrow> (Some bs, s'))
      | User_read u \<Rightarrow>
          (case e_read e u count of
             (Inl eof, u') \<Rightarrow> (None, s\<lparr>is_src := User_read u',
                 is_bytes_left := (if eof then 0 else is_bytes_left s)\<rparr>)
           | (Inr bs, u') \<Rightarrow> (Some bs, s\<lparr>is_src := User_read u'\<rparr>)))"

text \<open>\<open>pb_read\<close> with a buffer to read into.\<close>

definition pb_read :: "'u env \<Rightarrow> csize \<Rightarrow> 'u istream \<Rightarrow> byte list option \<times> 'u istream" where
  "pb_read e count s =
     (if count = 0 then (Some [], s)
      else if is_bytes_left s < count then (None, PB_SET_ERROR_is ''end-of-stream'' s)
      else case is_callback e count s of
        (None, s') \<Rightarrow> (None, PB_SET_ERROR_is ''io error'' s')
      | (Some bs, s') \<Rightarrow> (Some bs, s'\<lparr>is_bytes_left := is_bytes_left s' - count\<rparr>))"

text \<open>\<open>pb_read\<close> with \<open>buf == NULL\<close>: skip. A callback stream is skipped in pieces of 16 bytes.\<close>

function pb_read_pieces :: "'u env \<Rightarrow> csize \<Rightarrow> 'u istream \<Rightarrow> bool \<times> 'u istream" where
  "pb_read_pieces e count s =
     (if 16 < count then
        case pb_read e 16 s of
          (None, s') \<Rightarrow> (False, s')
        | (Some _, s') \<Rightarrow> pb_read_pieces e (count - 16) s'
      else case pb_read e count s of (r, s') \<Rightarrow> (r \<noteq> None, s'))"
  by pat_completeness auto
termination
proof (relation "measure (\<lambda>(e, count, s). unat count)", goal_cases)
  case (2 e count s)
  then have "unat (count - 16) = unat count - 16" "16 < unat count"
    by (auto simp: word_less_nat_alt unat_sub word_le_nat_alt)
  then show ?case by simp
qed simp

declare pb_read_pieces.simps [simp del]

definition pb_read_null :: "'u env \<Rightarrow> csize \<Rightarrow> 'u istream \<Rightarrow> bool \<times> 'u istream" where
  "pb_read_null e count s =
     (if count = 0 then (True, s)
      else case is_src s of
        Buf_read _ \<Rightarrow> (case pb_read e count s of (r, s') \<Rightarrow> (r \<noteq> None, s'))
      | User_read _ \<Rightarrow> pb_read_pieces e count s)"

definition pb_readbyte :: "'u env \<Rightarrow> 'u istream \<Rightarrow> byte option \<times> 'u istream" where
  "pb_readbyte e s =
     (if is_bytes_left s = 0 then (None, PB_SET_ERROR_is ''end-of-stream'' s)
      else case is_callback e 1 s of
        (None, s') \<Rightarrow> (None, PB_SET_ERROR_is ''io error'' s')
      | (Some bs, s') \<Rightarrow> (Some (hd (bs @ [0])), s'\<lparr>is_bytes_left := is_bytes_left s' - 1\<rparr>))"

definition pb_istream_from_buffer :: "byte list \<Rightarrow> csize \<Rightarrow> 'u istream" where
  "pb_istream_from_buffer buf bufsize =
     \<lparr>is_src = Buf_read buf, is_bytes_left = bufsize, is_errmsg = None, is_fault = False\<rparr>"

text \<open>A byte read shortens the stream: the loops below end.\<close>

lemma PB_SET_ERROR_is_fields [simp]:
  "is_src (PB_SET_ERROR_is m s) = is_src s" "is_bytes_left (PB_SET_ERROR_is m s) = is_bytes_left s"
  "is_fault (PB_SET_ERROR_is m s) = is_fault s"
  by (simp_all add: PB_SET_ERROR_is_def)

lemma is_callback_Some:
  "is_callback e n s = (Some bs, s') \<Longrightarrow> is_bytes_left s' = is_bytes_left s"
  by (auto simp: is_callback_def buf_read_def Let_def split: is_source.splits sum.splits prod.splits if_splits)

lemma unat_minus_one: "(w :: 'a::len word) \<noteq> 0 \<Longrightarrow> unat (w - 1) = unat w - 1"
  by (simp add: unat_minus_one)

lemma pb_readbyte_Some:
  assumes "pb_readbyte e s = (Some b, s')"
  shows "unat (is_bytes_left s') < unat (is_bytes_left s)"
    and "is_bytes_left s' = is_bytes_left s - 1" and "is_bytes_left s \<noteq> 0"
proof -
  from assms show eq: "is_bytes_left s' = is_bytes_left s - 1" and ne: "is_bytes_left s \<noteq> 0"
    by (auto simp: pb_readbyte_def is_callback_Some split: if_splits prod.splits option.splits)
  from ne have "unat (is_bytes_left s) \<noteq> 0" by (simp add: unat_eq_zero)
  with eq ne show "unat (is_bytes_left s') < unat (is_bytes_left s)"
    by (simp add: unat_minus_one)
qed

lemma pb_read_Some:
  assumes "pb_read e n s = (Some bs, s')"
  shows "is_bytes_left s' = is_bytes_left s - n" and "n \<le> is_bytes_left s"
  using assms
  by (auto simp: pb_read_def is_callback_Some not_less split: if_splits prod.splits option.splits)

subsection \<open>Integers\<close>

function varint32_loop :: "'u env \<Rightarrow> byte \<Rightarrow> u32 \<Rightarrow> 'u istream \<Rightarrow> u32 option \<times> 'u istream" where
  "varint32_loop e bitpos result s =
     (case pb_readbyte e s of
        (None, s') \<Rightarrow> (None, s')
      | (Some b, s') \<Rightarrow>
          let sign_extension = (if bitpos < 63 then 0xFF else 0x01) in
          if 32 \<le> bitpos \<and> b AND 0x7F \<noteq> 0
             \<and> (drop_bit 31 result = 0 \<or> b \<noteq> sign_extension)
          then (None, PB_SET_ERROR_is ''varint overflow'' s')
          else
            let result' = (if 32 \<le> bitpos then result
                           else result OR push_bit (unat bitpos) (ucast (b AND 0x7F)));
                bitpos' = bitpos + 7
            in if b AND 0x80 \<noteq> 0 then varint32_loop e bitpos' result' s'
               else if bitpos' = 35 \<and> b AND 0x70 \<noteq> 0
               then (None, PB_SET_ERROR_is ''varint overflow'' s')
               else (Some result', s'))"
  by pat_completeness auto
termination
  by (relation "measure (\<lambda>(e, bitpos, result, s). unat (is_bytes_left s))")
    (auto dest!: pb_readbyte_Some(1) [OF sym])

declare varint32_loop.simps [simp del]

text \<open>The middle component is the value stored through \<open>eof\<close> (where it is not NULL).\<close>

definition pb_decode_varint32_eof :: "'u env \<Rightarrow> 'u istream \<Rightarrow> u32 option \<times> bool \<times> 'u istream" where
  "pb_decode_varint32_eof e s =
     (case pb_readbyte e s of
        (None, s') \<Rightarrow> (None, is_bytes_left s' = 0, s')
      | (Some b, s') \<Rightarrow>
          if b AND 0x80 = 0 then (Some (ucast b), False, s')
          else case varint32_loop e 7 (ucast (b AND 0x7F)) s' of
            (r, s'') \<Rightarrow> (r, False, s''))"

definition pb_decode_varint32 :: "'u env \<Rightarrow> 'u istream \<Rightarrow> u32 option \<times> 'u istream" where
  "pb_decode_varint32 e s = (case pb_decode_varint32_eof e s of (r, _, s') \<Rightarrow> (r, s'))"

function varint_loop :: "'u env \<Rightarrow> byte \<Rightarrow> u64 \<Rightarrow> 'u istream \<Rightarrow> u64 option \<times> 'u istream" where
  "varint_loop e bitpos result s =
     (if 64 \<le> bitpos then (None, PB_SET_ERROR_is ''varint overflow'' s)
      else case pb_readbyte e s of
        (None, s') \<Rightarrow> (None, s')
      | (Some b, s') \<Rightarrow>
          let result' = result OR push_bit (unat bitpos) (ucast (b AND 0x7F));
              bitpos' = bitpos + 7
          in if b AND 0x80 \<noteq> 0 then varint_loop e bitpos' result' s'
             else (Some result', s'))"
  by pat_completeness auto
termination
  by (relation "measure (\<lambda>(e, bitpos, result, s). unat (is_bytes_left s))")
    (auto dest!: pb_readbyte_Some(1) [OF sym])

declare varint_loop.simps [simp del]

definition pb_decode_varint :: "'u env \<Rightarrow> 'u istream \<Rightarrow> u64 option \<times> 'u istream" where
  "pb_decode_varint e s = varint_loop e 0 0 s"

text \<open>The result of type \<open>int64_t\<close> is given by its bits.\<close>

definition unzigzag :: "u64 \<Rightarrow> u64" where
  "unzigzag value = (if value AND 1 \<noteq> 0 then NOT (drop_bit 1 value) else drop_bit 1 value)"

definition pb_decode_svarint :: "'u env \<Rightarrow> 'u istream \<Rightarrow> u64 option \<times> 'u istream" where
  "pb_decode_svarint e s =
     (case pb_decode_varint e s of
        (None, s') \<Rightarrow> (None, s')
      | (Some value, s') \<Rightarrow> (Some (unzigzag value), s'))"

definition pb_decode_fixed32 :: "'u env \<Rightarrow> 'u istream \<Rightarrow> u32 option \<times> 'u istream" where
  "pb_decode_fixed32 e s =
     (case pb_read e 4 s of
        (None, s') \<Rightarrow> (None, s')
      | (Some bytes, s') \<Rightarrow>
          (Some (ucast (bytes ! 0) OR push_bit 8 (ucast (bytes ! 1))
               OR push_bit 16 (ucast (bytes ! 2)) OR push_bit 24 (ucast (bytes ! 3))), s'))"

definition pb_decode_fixed64 :: "'u env \<Rightarrow> 'u istream \<Rightarrow> u64 option \<times> 'u istream" where
  "pb_decode_fixed64 e s =
     (case pb_read e 8 s of
        (None, s') \<Rightarrow> (None, s')
      | (Some bytes, s') \<Rightarrow>
          (Some (ucast (bytes ! 0) OR push_bit 8 (ucast (bytes ! 1))
               OR push_bit 16 (ucast (bytes ! 2)) OR push_bit 24 (ucast (bytes ! 3))
               OR push_bit 32 (ucast (bytes ! 4)) OR push_bit 40 (ucast (bytes ! 5))
               OR push_bit 48 (ucast (bytes ! 6)) OR push_bit 56 (ucast (bytes ! 7))), s'))"

subsection \<open>Tags and skipping\<close>

text \<open>Wire type and tag, the value of \<open>*eof\<close>, and the stream.\<close>

definition pb_decode_tag :: "'u env \<Rightarrow> 'u istream \<Rightarrow> (u32 \<times> u32) option \<times> bool \<times> 'u istream" where
  "pb_decode_tag e s =
     (case pb_decode_varint32_eof e s of
        (None, eof, s') \<Rightarrow> (None, eof, s')
      | (Some temp, eof, s') \<Rightarrow>
          if temp = 0 then (None, True, s')
          else (Some (temp AND 7, drop_bit 3 temp), eof, s'))"

function pb_skip_varint :: "'u env \<Rightarrow> 'u istream \<Rightarrow> bool \<times> 'u istream" where
  "pb_skip_varint e s =
     (case pb_read e 1 s of
        (None, s') \<Rightarrow> (False, s')
      | (Some bs, s') \<Rightarrow> if hd (bs @ [0]) AND 0x80 \<noteq> 0 then pb_skip_varint e s' else (True, s'))"
  by pat_completeness auto

lemma pb_read_1_shorter:
  assumes "pb_read e 1 s = (Some bs, s')"
  shows "unat (is_bytes_left s') < unat (is_bytes_left s)"
proof -
  from pb_read_Some [OF assms] have "is_bytes_left s' = is_bytes_left s - 1" "1 \<le> is_bytes_left s"
    by simp_all
  moreover from this have "is_bytes_left s \<noteq> 0" by auto
  moreover from this have "unat (is_bytes_left s) \<noteq> 0" by (simp add: unat_eq_zero)
  ultimately show ?thesis by (simp add: unat_minus_one)
qed

termination pb_skip_varint
  by (relation "measure (\<lambda>(e, s). unat (is_bytes_left s))") (auto dest!: pb_read_1_shorter [OF sym])

declare pb_skip_varint.simps [simp del]

definition pb_skip_string :: "'u env \<Rightarrow> 'u istream \<Rightarrow> bool \<times> 'u istream" where
  "pb_skip_string e s =
     (case pb_decode_varint32 e s of
        (None, s') \<Rightarrow> (False, s')
      | (Some n, s') \<Rightarrow> pb_read_null e (ucast n) s')"

definition pb_skip_field :: "'u env \<Rightarrow> u32 \<Rightarrow> 'u istream \<Rightarrow> bool \<times> 'u istream" where
  "pb_skip_field e wire_type s =
     (if wire_type = PB_WT_VARINT then pb_skip_varint e s
      else if wire_type = PB_WT_64BIT then pb_read_null e 8 s
      else if wire_type = PB_WT_STRING then pb_skip_string e s
      else if wire_type = PB_WT_32BIT then pb_read_null e 4 s
      else (False, PB_SET_ERROR_is ''invalid wire_type'' s))"

fun raw_varint_loop ::
  "'u env \<Rightarrow> nat \<Rightarrow> byte list \<Rightarrow> 'u istream \<Rightarrow> byte list option \<times> 'u istream" where
  "raw_varint_loop e 0 buf s = (None, s)"
| "raw_varint_loop e (Suc room) buf s =
     (case pb_read e 1 s of
        (None, s') \<Rightarrow> (None, s')
      | (Some bs, s') \<Rightarrow>
          let b = hd (bs @ [0]) in
          if b AND 0x80 \<noteq> 0 then raw_varint_loop e room (buf @ [b]) s'
          else (Some (buf @ [b]), s'))"

text \<open>The bytes stored at \<open>buf\<close>; their number is the final \<open>*size\<close>.\<close>

definition read_raw_value ::
  "'u env \<Rightarrow> u32 \<Rightarrow> nat \<Rightarrow> 'u istream \<Rightarrow> byte list option \<times> 'u istream" where
  "read_raw_value e wire_type max_size s =
     (if wire_type = PB_WT_VARINT then raw_varint_loop e max_size [] s
      else if wire_type = PB_WT_64BIT then pb_read e 8 s
      else if wire_type = PB_WT_32BIT then pb_read e 4 s
      else (None, PB_SET_ERROR_is ''invalid wire_type'' s))"

subsection \<open>Substreams\<close>

text \<open>The substream (\<open>None\<close> for false) and the parent.\<close>

definition pb_make_string_substream ::
  "'u env \<Rightarrow> 'u istream \<Rightarrow> 'u istream option \<times> 'u istream" where
  "pb_make_string_substream e s =
     (case pb_decode_varint32 e s of
        (None, s') \<Rightarrow> (None, s')
      | (Some n, s') \<Rightarrow>
          if is_bytes_left s' < ucast n
          then (None, PB_SET_ERROR_is ''parent stream too short'' s')
          else (Some (s'\<lparr>is_bytes_left := ucast n\<rparr>),
                s'\<lparr>is_bytes_left := is_bytes_left s' - ucast n\<rparr>))"

definition pb_close_string_substream ::
  "'u env \<Rightarrow> 'u istream \<Rightarrow> 'u istream \<Rightarrow> bool \<times> 'u istream" where
  "pb_close_string_substream e s sub =
     (case (if is_bytes_left sub \<noteq> 0 then pb_read_null e (is_bytes_left sub) sub
            else (True, sub)) of
        (ok, sub') \<Rightarrow>
          if ok then (True, s\<lparr>is_src := is_src sub', is_errmsg := is_errmsg sub',
                              is_fault := is_fault sub'\<rparr>)
          else (False, s\<lparr>is_fault := is_fault sub'\<rparr>))"

subsection \<open>What reading does to a stream\<close>

text \<open>
  \<open>is_ok\<close>: the stream has not faulted, and a buffer stream has at least \<open>bytes_left\<close> bytes of
  buffer ahead of it. \<open>is_adv s s'\<close>: \<open>s'\<close> is \<open>s\<close> after reading; \<open>bytes_left\<close> went down, and the
  buffer pointer moved up by exactly as much.
\<close>

definition is_ok :: "'u istream \<Rightarrow> bool" where
  "is_ok s \<longleftrightarrow> \<not> is_fault s
     \<and> (case is_src s of Buf_read b \<Rightarrow> unat (is_bytes_left s) \<le> length b | User_read _ \<Rightarrow> True)"

definition is_adv :: "'u istream \<Rightarrow> 'u istream \<Rightarrow> bool" where
  "is_adv s s' \<longleftrightarrow> unat (is_bytes_left s') \<le> unat (is_bytes_left s)
     \<and> (case is_src s of
          Buf_read b \<Rightarrow>
            is_src s' = Buf_read (drop (unat (is_bytes_left s) - unat (is_bytes_left s')) b)
        | User_read u \<Rightarrow> (\<exists>u'. is_src s' = User_read u'))
     \<and> (is_ok s \<longrightarrow> is_ok s')"

lemma is_adv_refl [simp, inv_intros]: "is_adv s s"
  by (auto simp: is_adv_def split: is_source.splits)

lemma is_adv_trans [trans]:
  assumes "is_adv s t" "is_adv t u"
  shows "is_adv s u"
proof (cases "is_src s")
  case (Buf_read b)
  with assms show ?thesis by (auto simp: is_adv_def)
next
  case (User_read v)
  with assms show ?thesis by (auto simp: is_adv_def)
qed

lemma is_ok_PB_SET_ERROR [simp]: "is_ok (PB_SET_ERROR_is m s) = is_ok s"
  by (simp add: is_ok_def split: is_source.split)

lemma is_adv_PB_SET_ERROR [simp]: "is_adv s (PB_SET_ERROR_is m t) = is_adv s t"
  by (simp add: is_adv_def split: is_source.split)

lemma is_adv_ok: "is_adv s s' \<Longrightarrow> is_ok s \<Longrightarrow> is_ok s'"
  by (simp add: is_adv_def)

lemma is_adv_left: "is_adv s s' \<Longrightarrow> unat (is_bytes_left s') \<le> unat (is_bytes_left s)"
  by (simp add: is_adv_def)

text \<open>What the callback does, followed by the update of \<open>bytes_left\<close>.\<close>

lemma is_callback_adv:
  assumes "is_callback e n s = (r, s')" and "n \<le> is_bytes_left s"
  shows "r = None \<Longrightarrow> is_adv s s'"
    and "r \<noteq> None \<Longrightarrow> is_adv s (s'\<lparr>is_bytes_left := is_bytes_left s' - n\<rparr>)"
proof -
  have n: "unat (is_bytes_left s - n) = unat (is_bytes_left s) - unat n"
    "unat n \<le> unat (is_bytes_left s)"
    using assms(2) by (simp_all add: unat_sub word_le_nat_alt)
  show "r = None \<Longrightarrow> is_adv s s'"
    using assms(1)
    by (auto simp: is_callback_def buf_read_def Let_def is_adv_def is_ok_def
        split: is_source.splits sum.splits prod.splits if_splits)
  show "r \<noteq> None \<Longrightarrow> is_adv s (s'\<lparr>is_bytes_left := is_bytes_left s' - n\<rparr>)"
    using assms(1) n
    by (auto simp: is_callback_def buf_read_def Let_def is_adv_def is_ok_def
        split: is_source.splits sum.splits prod.splits if_splits)
qed

lemma pb_read_adv [inv_intros]: "pb_read e n s = (r, s') \<Longrightarrow> is_adv s s'"
  using is_callback_adv [of e n s]
  by (auto simp: pb_read_def not_less split: if_splits prod.splits option.splits)

lemma pb_readbyte_adv [inv_intros]: "pb_readbyte e s = (r, s') \<Longrightarrow> is_adv s s'"
proof -
  assume r: "pb_readbyte e s = (r, s')"
  have "is_bytes_left s \<noteq> 0 \<Longrightarrow> 1 \<le> is_bytes_left s"
    by (simp add: word_le_nat_alt unat_gt_0 Suc_le_eq)
  with r is_callback_adv [of e 1 s] show ?thesis
    by (auto simp: pb_readbyte_def split: if_splits prod.splits option.splits)
qed

lemma pb_read_pieces_adv [inv_intros]: "pb_read_pieces e n s = (r, s') \<Longrightarrow> is_adv s s'"
proof (induction e n s arbitrary: r s' rule: pb_read_pieces.induct)
  case (1 e count s)
  show ?case
  proof (cases "16 < count")
    case True
    obtain q t where q: "pb_read e 16 s = (q, t)" by fastforce
    with 1 True show ?thesis
      by (cases q; subst (asm) (2) pb_read_pieces.simps)
        (auto dest: pb_read_adv intro: is_adv_trans)
  next
    case False
    with 1(2) show ?thesis
      by (subst (asm) pb_read_pieces.simps) (auto dest: pb_read_adv split: prod.splits)
  qed
qed

lemma pb_read_null_adv [inv_intros]: "pb_read_null e n s = (r, s') \<Longrightarrow> is_adv s s'"
  by (auto simp: pb_read_null_def dest: pb_read_adv pb_read_pieces_adv
      split: if_splits is_source.splits prod.splits)

lemma varint32_loop_adv [inv_intros]: "varint32_loop e bp v s = (r, s') \<Longrightarrow> is_adv s s'"
proof (induction "unat (is_bytes_left s)" arbitrary: bp v s r s' rule: less_induct)
  case less
  obtain q t where q: "pb_readbyte e s = (q, t)" by fastforce
  then have adv: "is_adv s t" by (rule pb_readbyte_adv)
  have IH: "is_adv s u" if "varint32_loop e x y t = (z, u)" "q = Some b" for x y z u b
    using less.hyps [OF _ that(1)] adv q that(2) by (auto dest: pb_readbyte_Some(1) intro: is_adv_trans)
  from less.prems q adv show ?case
    by (subst (asm) varint32_loop.simps)
      (auto simp: Let_def split: option.splits if_splits dest: IH)
qed

lemma pb_decode_varint32_eof_adv [inv_intros]:
  "pb_decode_varint32_eof e s = (r, eof, s') \<Longrightarrow> is_adv s s'"
  by (auto simp: pb_decode_varint32_eof_def split: prod.splits option.splits if_splits
      dest!: pb_readbyte_adv varint32_loop_adv intro: is_adv_trans)

lemma pb_decode_varint32_adv [inv_intros]: "pb_decode_varint32 e s = (r, s') \<Longrightarrow> is_adv s s'"
  by (auto simp: pb_decode_varint32_def split: prod.splits dest: pb_decode_varint32_eof_adv)

lemma varint_loop_adv [inv_intros]: "varint_loop e bp v s = (r, s') \<Longrightarrow> is_adv s s'"
proof (induction "unat (is_bytes_left s)" arbitrary: bp v s r s' rule: less_induct)
  case less
  obtain q t where q: "pb_readbyte e s = (q, t)" by fastforce
  then have adv: "is_adv s t" by (rule pb_readbyte_adv)
  have IH: "is_adv s u" if "varint_loop e x y t = (z, u)" "q = Some b" for x y z u b
    using less.hyps [OF _ that(1)] adv q that(2) by (auto dest: pb_readbyte_Some(1) intro: is_adv_trans)
  from less.prems q adv show ?case
    by (subst (asm) varint_loop.simps)
      (auto simp: Let_def split: option.splits if_splits dest: IH)
qed

lemma pb_decode_varint_adv [inv_intros]: "pb_decode_varint e s = (r, s') \<Longrightarrow> is_adv s s'"
  by (simp add: pb_decode_varint_def varint_loop_adv)

lemma pb_decode_svarint_adv [inv_intros]: "pb_decode_svarint e s = (r, s') \<Longrightarrow> is_adv s s'"
  by (auto simp: pb_decode_svarint_def split: prod.splits option.splits dest: pb_decode_varint_adv)

lemma pb_decode_fixed32_adv [inv_intros]: "pb_decode_fixed32 e s = (r, s') \<Longrightarrow> is_adv s s'"
  by (auto simp: pb_decode_fixed32_def split: prod.splits option.splits dest: pb_read_adv)

lemma pb_decode_fixed64_adv [inv_intros]: "pb_decode_fixed64 e s = (r, s') \<Longrightarrow> is_adv s s'"
  by (auto simp: pb_decode_fixed64_def split: prod.splits option.splits dest: pb_read_adv)

lemma pb_decode_tag_adv [inv_intros]: "pb_decode_tag e s = (r, eof, s') \<Longrightarrow> is_adv s s'"
  by (auto simp: pb_decode_tag_def split: prod.splits option.splits if_splits
      dest: pb_decode_varint32_eof_adv)

lemma pb_skip_varint_adv [inv_intros]: "pb_skip_varint e s = (r, s') \<Longrightarrow> is_adv s s'"
proof (induction "unat (is_bytes_left s)" arbitrary: s r s' rule: less_induct)
  case less
  obtain q t where q: "pb_read e 1 s = (q, t)" by fastforce
  then have adv: "is_adv s t" by (rule pb_read_adv)
  have IH: "is_adv s u" if "pb_skip_varint e t = (z, u)" "q = Some b" for z u b
    using less.hyps [OF _ that(1)] adv q that(2) by (auto dest: pb_read_1_shorter intro: is_adv_trans)
  from less.prems q adv show ?case
    by (subst (asm) pb_skip_varint.simps)
      (auto simp: Let_def split: option.splits if_splits dest: IH)
qed

lemma pb_skip_string_adv [inv_intros]: "pb_skip_string e s = (r, s') \<Longrightarrow> is_adv s s'"
  by (auto simp: pb_skip_string_def split: prod.splits option.splits
      dest!: pb_decode_varint32_adv pb_read_null_adv intro: is_adv_trans)

lemma pb_skip_field_adv [inv_intros]: "pb_skip_field e w s = (r, s') \<Longrightarrow> is_adv s s'"
  by (auto simp: pb_skip_field_def split: if_splits
      dest: pb_skip_varint_adv pb_read_null_adv pb_skip_string_adv)

lemma raw_varint_loop_adv: "raw_varint_loop e n buf s = (r, s') \<Longrightarrow> is_adv s s'"
proof (induction n arbitrary: buf s)
  case (Suc n)
  obtain q t where q: "pb_read e 1 s = (q, t)" by fastforce
  then have "is_adv s t" by (rule pb_read_adv)
  with Suc q show ?case
    by (auto simp: Let_def split: option.splits if_splits intro: is_adv_trans)
qed simp

lemma read_raw_value_adv [inv_intros]: "read_raw_value e w n s = (r, s') \<Longrightarrow> is_adv s s'"
  by (auto simp: read_raw_value_def split: if_splits dest: raw_varint_loop_adv pb_read_adv)

end
