(* ===== verification/Pb_Varint.thy ===== *)
theory Pb_Varint imports Pb_Istream begin

text \<open>
  What the readers compute on a buffer stream whose next bytes are known. \<open>is_varint\<close> and
  \<open>varint_value\<close> are the reference definition of the base-128 code of the protobuf wire format; the
  lemmas compare \<open>pb_decode_varint\<close>, \<open>pb_decode_varint32\<close> and \<open>pb_skip_varint\<close> with it.
\<close>

subsection \<open>Streams whose next bytes are known\<close>

definition starts :: "'u istream \<Rightarrow> byte list \<Rightarrow> bool" where
  "starts s xs \<longleftrightarrow> (case is_src s of
       Buf_read b \<Rightarrow> take (length xs) b = xs \<and> length xs \<le> unat (is_bytes_left s)
     | User_read _ \<Rightarrow> False)"

lemma take_prefix: "take (length xs) b = xs \<longleftrightarrow> (\<exists>r. b = xs @ r)"
  by (metis append_eq_conv_conj append_take_drop_id)

lemma starts_Buf:
  "starts s xs \<longleftrightarrow> (\<exists>r. is_src s = Buf_read (xs @ r)) \<and> length xs \<le> unat (is_bytes_left s)"
  by (auto simp: starts_def take_prefix split: is_source.splits)

text \<open>The stream after \<open>n\<close> bytes of it have been read.\<close>

definition is_skip :: "nat \<Rightarrow> 'u istream \<Rightarrow> 'u istream" where
  "is_skip n s =
     s\<lparr>is_src := (case is_src s of Buf_read b \<Rightarrow> Buf_read (drop n b) | User_read u \<Rightarrow> User_read u),
       is_bytes_left := is_bytes_left s - of_nat n\<rparr>"

lemma is_skip_0 [simp]: "is_skip 0 s = s"
  by (cases s) (simp add: is_skip_def split: is_source.split)

lemma is_skip_add [simp]: "is_skip m (is_skip n s) = is_skip (n + m) s"
  by (simp add: is_skip_def drop_drop add.commute diff_diff_eq2 algebra_simps
      split: is_source.split)

lemma unat_left_minus:
  "n \<le> unat w \<Longrightarrow> unat (w - of_nat n :: 64 word) = unat w - n"
proof -
  assume n: "n \<le> unat w"
  then have "n < 2 ^ 64" using unat_lt64 [of w] by simp
  then have "unat (of_nat n :: 64 word) = n" by (simp add: unat_of_nat take_bit_nat_eq_self)
  with n show ?thesis by (simp add: unat_sub word_le_nat_alt)
qed

lemma starts_append [simp]:
  "starts s (xs @ ys) \<longleftrightarrow> starts s xs \<and> starts (is_skip (length xs) s) ys"
  by (auto simp: starts_Buf is_skip_def unat_left_minus)

lemma starts_Nil: "starts s [] \<longleftrightarrow> (\<exists>b. is_src s = Buf_read b)"
  by (simp add: starts_def split: is_source.splits)

lemma starts_Cons:
  "starts s (x # xs) \<longleftrightarrow> starts s [x] \<and> starts (is_skip 1 s) xs"
  using starts_append [of s "[x]" xs] by (simp del: starts_append)

lemma starts_length: "starts s xs \<Longrightarrow> length xs \<le> unat (is_bytes_left s)"
  by (simp add: starts_def split: is_source.splits)

lemma is_skip_left: "starts s xs \<Longrightarrow>
    unat (is_bytes_left (is_skip (length xs) s)) = unat (is_bytes_left s) - length xs"
  by (simp add: is_skip_def unat_left_minus starts_length)

lemma pb_read_starts:
  assumes "starts s xs" and "n = of_nat (length xs)"
  shows "pb_read e n s = (Some xs, is_skip (length xs) s)"
proof (cases "xs = []")
  case True
  with assms show ?thesis by (simp add: pb_read_def)
next
  case False
  have l: "length xs \<le> unat (is_bytes_left s)" using assms(1) by (rule starts_length)
  then have "length xs < 2 ^ 64" using unat_lt64 [of "is_bytes_left s"] by simp
  with assms(2) have n: "unat n = length xs" by (simp add: unat_of_nat take_bit_nat_eq_self)
  with False have "n \<noteq> 0" by (auto simp: unat_eq_0 [symmetric])
  with assms l n show ?thesis
    by (auto simp: pb_read_def is_callback_def buf_read_def starts_Buf is_skip_def Let_def
        word_less_nat_alt)
qed

lemma pb_read_null_starts:
  assumes "starts s xs" and "n = of_nat (length xs)"
  shows "pb_read_null e n s = (True, is_skip (length xs) s)"
proof -
  obtain b where "is_src s = Buf_read b"
    using assms(1) by (auto simp: starts_def split: is_source.splits)
  moreover have "n = 0 \<Longrightarrow> is_skip (length xs) s = s"
    using pb_read_starts [OF assms, of e] by (simp add: pb_read_def)
  ultimately show ?thesis
    using pb_read_starts [OF assms, of e] by (simp add: pb_read_null_def)
qed

lemma pb_readbyte_starts:
  assumes "starts s [x]"
  shows "pb_readbyte e s = (Some x, is_skip 1 s)"
proof -
  have "unat (is_bytes_left s) \<ge> 1" using starts_length [OF assms] by simp
  then have "is_bytes_left s \<noteq> 0" by auto
  with assms show ?thesis
    by (auto simp: pb_readbyte_def is_callback_def buf_read_def is_skip_def starts_Buf Let_def)
qed

text \<open>At the end of the stream.\<close>

lemma pb_readbyte_end:
  "is_bytes_left s = 0 \<Longrightarrow> pb_readbyte e s = (None, PB_SET_ERROR_is ''end-of-stream'' s)"
  by (simp add: pb_readbyte_def)

subsection \<open>Base-128 codes\<close>

fun is_varint :: "byte list \<Rightarrow> bool" where
  "is_varint [] = False"
| "is_varint [x] = (\<not> bit x 7)"
| "is_varint (x # y # ys) = (bit x 7 \<and> is_varint (y # ys))"

fun varint_value :: "byte list \<Rightarrow> u64" where
  "varint_value [] = 0"
| "varint_value (x # xs) = ucast (x AND 0x7F) OR push_bit 7 (varint_value xs)"

lemma is_varint_Cons:
  "is_varint (x # xs) \<longleftrightarrow> (if xs = [] then \<not> bit x 7 else bit x 7 \<and> is_varint xs)"
  by (cases xs) simp_all

declare of_nat_mult [simp del]

subsection \<open>pb\_decode\_varint\<close>

lemma unat_bitpos: "k < 256 \<Longrightarrow> unat (of_nat k :: byte) = k"
  by (simp add: unat_of_nat take_bit_nat_eq_self)

lemma bitpos_step: "(of_nat (7 * i) :: byte) + 7 = of_nat (7 * Suc i)"
proof -
  have "7 * Suc i = 7 * i + 7" by simp
  then show ?thesis by (simp only: of_nat_add) simp
qed

lemma bitpos_le: "k < 256 \<Longrightarrow> n < 256 \<Longrightarrow> (of_nat n :: byte) \<le> of_nat k \<longleftrightarrow> n \<le> k"
  by (simp add: word_le_nat_alt unat_bitpos)

lemma varint_loop_starts:
  assumes "is_varint xs" and "starts s xs" and "i + length xs \<le> 10"
  shows "varint_loop e (of_nat (7 * i)) v s
    = (Some (v OR push_bit (7 * i) (varint_value xs)), is_skip (length xs) s)"
  using assms
proof (induction xs arbitrary: i v s)
  case Nil
  then show ?case by simp
next
  case (Cons x xs)
  from Cons.prems have s: "starts s [x]" "starts (is_skip 1 s) xs"
    by (simp_all add: starts_Cons [of s x xs])
  have i: "7 * i < 64" using Cons.prems(3) by simp
  have b: "\<not> 64 \<le> (of_nat (7 * i) :: byte)"
    using bitpos_le [of "7 * i" 64] i by simp
  have u: "unat (of_nat (7 * i) :: byte) = 7 * i" by (rule unat_bitpos) (use i in simp)
  show ?case
  proof (cases "xs = []")
    case True
    with Cons.prems b u show ?thesis
      by (subst varint_loop.simps) (simp add: pb_readbyte_starts [OF s(1)] and_0x80)
  next
    case False
    with Cons.prems have xs: "bit x 7" "is_varint xs" "Suc i + length xs \<le> 10"
      by (simp_all add: is_varint_Cons)
    have "varint_loop e (of_nat (7 * i)) v s
        = varint_loop e (of_nat (7 * Suc i))
            (v OR push_bit (7 * i) (ucast (x AND 0x7F))) (is_skip 1 s)"
      using b u xs(1) unfolding bitpos_step [symmetric]
      by (subst varint_loop.simps) (simp add: pb_readbyte_starts [OF s(1)] and_0x80)
    also have "\<dots> = (Some ((v OR push_bit (7 * i) (ucast (x AND 0x7F)))
        OR push_bit (7 * Suc i) (varint_value xs)), is_skip (length xs) (is_skip 1 s))"
      by (rule Cons.IH [OF xs(2) s(2) xs(3)])
    also have "\<dots> = (Some (v OR push_bit (7 * i) (varint_value (x # xs))),
        is_skip (length (x # xs)) s)"
      by (simp add: push_bit_or or.assoc add.commute)
    finally show ?thesis .
  qed
qed

theorem pb_decode_varint_starts:
  assumes "is_varint xs" and "length xs \<le> 10" and "starts s xs"
  shows "pb_decode_varint e s = (Some (varint_value xs), is_skip (length xs) s)"
  using varint_loop_starts [OF assms(1,3), of 0 e 0] assms(2) by (simp add: pb_decode_varint_def)

text \<open>Ten bytes that all announce another one are refused.\<close>

lemma varint_loop_overflow:
  assumes "\<forall>x \<in> set xs. bit x 7" and "starts s xs" and "i + length xs = 10"
  shows "varint_loop e (of_nat (7 * i)) v s
    = (None, PB_SET_ERROR_is ''varint overflow'' (is_skip (length xs) s))"
  using assms
proof (induction xs arbitrary: i v s)
  case Nil
  then have "(64 :: byte) \<le> of_nat (7 * i)" by simp
  then show ?case by (subst varint_loop.simps) simp
next
  case (Cons x xs)
  from Cons.prems have s: "starts s [x]" "starts (is_skip 1 s) xs"
    by (simp_all add: starts_Cons [of s x xs])
  have b: "\<not> 64 \<le> (of_nat (7 * i) :: byte)"
    using bitpos_le [of "7 * i" 64] Cons.prems(3) by simp
  have "varint_loop e (of_nat (7 * i)) v s
      = varint_loop e (of_nat (7 * Suc i))
          (v OR push_bit (unat (of_nat (7 * i) :: byte)) (ucast (x AND 0x7F))) (is_skip 1 s)"
    using b Cons.prems(1) unfolding bitpos_step [symmetric]
    by (subst varint_loop.simps) (simp add: pb_readbyte_starts [OF s(1)] and_0x80)
  with Cons.IH [OF _ s(2), of "Suc i"] Cons.prems show ?case by simp
qed

text \<open>Codes that the stream cuts off are refused.\<close>

lemma varint_loop_truncated:
  assumes "\<forall>x \<in> set xs. bit x 7" and "starts s xs" and "i + length xs < 10"
    and "unat (is_bytes_left s) = length xs"
  shows "varint_loop e (of_nat (7 * i)) v s
    = (None, PB_SET_ERROR_is ''end-of-stream'' (is_skip (length xs) s))"
  using assms
proof (induction xs arbitrary: i v s)
  case Nil
  then have "\<not> 64 \<le> (of_nat (7 * i) :: byte)"
    using bitpos_le [of "7 * i" 64] by simp
  with Nil show ?case
    by (subst varint_loop.simps) (simp add: pb_readbyte_end unat_eq_0)
next
  case (Cons x xs)
  from Cons.prems have s: "starts s [x]" "starts (is_skip 1 s) xs"
    by (simp_all add: starts_Cons [of s x xs])
  have b: "\<not> 64 \<le> (of_nat (7 * i) :: byte)"
    using bitpos_le [of "7 * i" 64] Cons.prems(3) by simp
  have "varint_loop e (of_nat (7 * i)) v s
      = varint_loop e (of_nat (7 * Suc i))
          (v OR push_bit (unat (of_nat (7 * i) :: byte)) (ucast (x AND 0x7F))) (is_skip 1 s)"
    using b Cons.prems(1) unfolding bitpos_step [symmetric]
    by (subst varint_loop.simps) (simp add: pb_readbyte_starts [OF s(1)] and_0x80)
  moreover have "unat (is_bytes_left (is_skip 1 s)) = length xs"
    using is_skip_left [OF s(1)] Cons.prems(4) by simp
  ultimately show ?case
    using Cons.IH [OF _ s(2), of "Suc i"] Cons.prems by simp
qed

end
