(* ===== verification/Pb_Ostream.thy ===== *)
theory Pb_Ostream imports Pb_Types begin

text \<open>
  The output stream of \<open>nanopb/pb_encode.c\<close> and the encoders of single values on it. \<open>writes s xs\<close>
  is the stream after the bytes \<open>xs\<close> went out, \<open>fits s n\<close> says that \<open>n\<close> more bytes fit; each encoder
  is shown to put out the code of its value.
\<close>

subsection \<open>Writing\<close>

definition buf_write :: "byte list \<Rightarrow> nat \<Rightarrow> byte list \<Rightarrow> csize \<Rightarrow> 'u ostream \<Rightarrow> 'u ostream" where
  "buf_write written room buf count s =
     (let n = unat count in
      if n \<le> room \<and> n \<le> length buf
      then s\<lparr>os_sink := Buf_write (written @ take n buf) (room - n)\<rparr>
      else s\<lparr>os_fault := True\<rparr>)"

definition pb_ostream_from_buffer :: "csize \<Rightarrow> 'u ostream" where
  "pb_ostream_from_buffer bufsize =
     \<lparr>os_sink = Buf_write [] (unat bufsize), os_max_size = bufsize, os_bytes_written = 0,
      os_errmsg = None, os_fault = False\<rparr>"

definition PB_OSTREAM_SIZING :: "'u ostream" where
  "PB_OSTREAM_SIZING =
     \<lparr>os_sink = No_write, os_max_size = 0, os_bytes_written = 0, os_errmsg = None,
      os_fault = False\<rparr>"

definition pb_write :: "'u env \<Rightarrow> byte list \<Rightarrow> csize \<Rightarrow> 'u ostream \<Rightarrow> bool \<times> 'u ostream" where
  "pb_write e buf count s =
     (if 0 < count \<and> os_sink s \<noteq> No_write
      then
        if os_bytes_written s + count < os_bytes_written s
           \<or> os_max_size s < os_bytes_written s + count
        then (False, PB_SET_ERROR_os ''stream full'' s)
        else case (case os_sink s of
                     No_write \<Rightarrow> (True, s)
                   | Buf_write written room \<Rightarrow> (True, buf_write written room buf count s)
                   | User_write u \<Rightarrow>
                       (case e_write e u (take (unat count) buf) of
                          (ok, u') \<Rightarrow> (ok, s\<lparr>os_sink := User_write u'\<rparr>))) of
          (ok, s') \<Rightarrow>
            if ok then (True, s'\<lparr>os_bytes_written := os_bytes_written s' + count\<rparr>)
            else (False, PB_SET_ERROR_os ''io error'' s')
      else (True, s\<lparr>os_bytes_written := os_bytes_written s + count\<rparr>))"

subsection \<open>Single values\<close>

lemma unat_drop_bit_7: "unat (drop_bit 7 v :: 64 word) = unat v div 128"
  by (simp only: unat_drop_bit_eq) (simp add: drop_bit_eq_div)

function varint_groups :: "u64 \<Rightarrow> byte list" where
  "varint_groups v =
     (if v \<noteq> 0 then ucast ((v AND 0x7F) OR 0x80) # varint_groups (drop_bit 7 v) else [])"
  by pat_completeness auto
termination
proof (relation "measure unat", goal_cases)
  case (2 v)
  then have "unat v \<noteq> 0" by (simp add: unat_eq_0)
  then show ?case unfolding in_measure unat_drop_bit_7 by simp
qed simp

declare varint_groups.simps [simp del]

definition pb_encode_varint :: "'u env \<Rightarrow> u64 \<Rightarrow> 'u ostream \<Rightarrow> bool \<times> 'u ostream" where
  "pb_encode_varint e value s =
     (if value \<le> 0x7F then pb_write e [ucast value] 1 s
      else let buffer = varint_groups value; i = length buffer
           in pb_write e (buffer[i - 1 := buffer ! (i - 1) AND 0x7F]) (of_nat i) s)"

text \<open>The argument is the bit pattern of an \<open>int64_t\<close>.\<close>

definition zigzag :: "u64 \<Rightarrow> u64" where
  "zigzag value = (if sint value < 0 then NOT (push_bit 1 value) else push_bit 1 value)"

definition pb_encode_svarint :: "'u env \<Rightarrow> u64 \<Rightarrow> 'u ostream \<Rightarrow> bool \<times> 'u ostream" where
  "pb_encode_svarint e value s = pb_encode_varint e (zigzag value) s"

definition pb_encode_fixed32 :: "'u env \<Rightarrow> u32 \<Rightarrow> 'u ostream \<Rightarrow> bool \<times> 'u ostream" where
  "pb_encode_fixed32 e val s =
     pb_write e [ucast (val AND 0xFF), ucast (drop_bit 8 val AND 0xFF),
                 ucast (drop_bit 16 val AND 0xFF), ucast (drop_bit 24 val AND 0xFF)] 4 s"

definition pb_encode_fixed64 :: "'u env \<Rightarrow> u64 \<Rightarrow> 'u ostream \<Rightarrow> bool \<times> 'u ostream" where
  "pb_encode_fixed64 e val s =
     pb_write e [ucast (val AND 0xFF), ucast (drop_bit 8 val AND 0xFF),
                 ucast (drop_bit 16 val AND 0xFF), ucast (drop_bit 24 val AND 0xFF),
                 ucast (drop_bit 32 val AND 0xFF), ucast (drop_bit 40 val AND 0xFF),
                 ucast (drop_bit 48 val AND 0xFF), ucast (drop_bit 56 val AND 0xFF)] 8 s"

definition pb_encode_tag :: "'u env \<Rightarrow> u32 \<Rightarrow> u32 \<Rightarrow> 'u ostream \<Rightarrow> bool \<times> 'u ostream" where
  "pb_encode_tag e wiretype field_number s =
     pb_encode_varint e (push_bit 3 (ucast field_number) OR ucast wiretype) s"

definition pb_encode_tag_for_field ::
  "'u env \<Rightarrow> pb_field \<Rightarrow> 'u ostream \<Rightarrow> bool \<times> 'u ostream" where
  "pb_encode_tag_for_field e field s =
     (let l = PB_LTYPE (ftype field) in
      if l \<in> {PB_LTYPE_BOOL, PB_LTYPE_VARINT, PB_LTYPE_UVARINT, PB_LTYPE_SVARINT}
      then pb_encode_tag e PB_WT_VARINT (tag field) s
      else if l = PB_LTYPE_FIXED32 then pb_encode_tag e PB_WT_32BIT (tag field) s
      else if l = PB_LTYPE_FIXED64 then pb_encode_tag e PB_WT_64BIT (tag field) s
      else if l \<in> {PB_LTYPE_BYTES, PB_LTYPE_STRING, PB_LTYPE_SUBMESSAGE,
                   PB_LTYPE_FIXED_LENGTH_BYTES}
      then pb_encode_tag e PB_WT_STRING (tag field) s
      else (False, PB_SET_ERROR_os ''invalid field type'' s))"

definition pb_encode_string ::
  "'u env \<Rightarrow> byte list \<Rightarrow> csize \<Rightarrow> 'u ostream \<Rightarrow> bool \<times> 'u ostream" where
  "pb_encode_string e buffer n s =
     (case pb_encode_varint e n s of
        (ok, s') \<Rightarrow> if ok then pb_write e buffer n s' else (False, s'))"

subsection \<open>Output of known bytes\<close>

definition writes :: "byte list \<Rightarrow> 'u ostream \<Rightarrow> 'u ostream" where
  "writes xs s =
     s\<lparr>os_sink := (case os_sink s of Buf_write w r \<Rightarrow> Buf_write (w @ xs) (r - length xs) | k \<Rightarrow> k),
       os_bytes_written := os_bytes_written s + of_nat (length xs)\<rparr>"

definition fits :: "nat \<Rightarrow> 'u ostream \<Rightarrow> bool" where
  "fits n s \<longleftrightarrow> (case os_sink s of
       No_write \<Rightarrow> True
     | Buf_write w r \<Rightarrow> n \<le> r \<and> unat (os_bytes_written s) + n \<le> unat (os_max_size s)
     | User_write _ \<Rightarrow> False)"

lemma writes_Nil [simp]: "writes [] s = s"
  by (cases s) (simp add: writes_def split: os_dest.split)

lemma writes_append [simp]: "writes ys (writes xs s) = writes (xs @ ys) s"
  by (simp add: writes_def split: os_dest.split)

lemma fits_writes [simp]: "fits m s \<Longrightarrow> length xs \<le> m \<Longrightarrow> fits (m - length xs) (writes xs s)"
  using unat_lt64 [of "os_max_size s"]
  by (auto simp: fits_def writes_def unat_plus_nat split: os_dest.splits)

lemma fits_mono: "fits m s \<Longrightarrow> n \<le> m \<Longrightarrow> fits n s"
  by (auto simp: fits_def split: os_dest.splits)

lemma fits_append:
  "fits (length (xs @ ys)) s \<Longrightarrow> fits (length xs) s \<and> fits (length ys) (writes xs s)"
  using fits_writes [of "length (xs @ ys)" s xs] by (auto intro: fits_mono)

lemma pb_write_fits:
  assumes "fits (length xs) s" and "n = of_nat (length xs)" and "length xs < 2 ^ 64"
  shows "pb_write e xs n s = (True, writes xs s)"
proof (cases "os_sink s")
  case No_write
  with assms show ?thesis by (simp add: pb_write_def writes_def)
next
  case (Buf_write w r)
  from assms have n: "unat n = length xs" by (simp add: unat_of_nat take_bit_nat_eq_self)
  from assms Buf_write have f: "length xs \<le> r"
    "unat (os_bytes_written s) + length xs \<le> unat (os_max_size s)"
    by (simp_all add: fits_def)
  then have "unat (os_bytes_written s + n) = unat (os_bytes_written s) + length xs"
    unfolding assms(2) using unat_lt64 [of "os_max_size s"] by (intro unat_plus_nat) linarith
  with f n have "\<not> os_bytes_written s + n < os_bytes_written s"
    "\<not> os_max_size s < os_bytes_written s + n"
    by (simp_all add: word_less_nat_alt)
  with Buf_write assms n f show ?thesis
    by (cases "xs = []") (auto simp: pb_write_def buf_write_def writes_def Let_def word_gt_0)
next
  case (User_write u)
  with assms show ?thesis by (simp add: fits_def)
qed

text \<open>The code of a value and the statement that an encoder puts it out.\<close>

definition varint_code :: "u64 \<Rightarrow> byte list" where
  "varint_code value =
     (if value \<le> 0x7F then [ucast value]
      else let buffer = varint_groups value; i = length buffer
           in buffer[i - 1 := buffer ! (i - 1) AND 0x7F])"

lemma length_varint_groups_le:
  "unat v < 2 ^ (7 * n) \<Longrightarrow> length (varint_groups v) \<le> n"
proof (induction n arbitrary: v)
  case 0
  then have "v = 0" by (simp add: unat_eq_0)
  then show ?case by (simp add: varint_groups.simps)
next
  case (Suc n)
  have "unat (drop_bit 7 v) < 2 ^ (7 * n)"
    unfolding unat_drop_bit_7 using Suc.prems
    by (intro less_mult_imp_div_less) (simp add: power_add)
  then have "length (varint_groups (drop_bit 7 v)) \<le> n" by (rule Suc.IH)
  then show ?case by (subst varint_groups.simps) simp
qed

lemma length_varint_groups_ge:
  "2 ^ (7 * n) \<le> unat v \<Longrightarrow> n < length (varint_groups v)"
proof (induction n arbitrary: v)
  case 0
  then have "v \<noteq> 0" by auto
  then show ?case by (subst varint_groups.simps) simp
next
  case (Suc n)
  then have "v \<noteq> 0" by auto
  have "2 ^ (7 * n) * 128 \<le> unat v" using Suc.prems by (simp add: power_add)
  then have "2 ^ (7 * n) \<le> unat (drop_bit 7 v)"
    unfolding unat_drop_bit_7 by (simp add: less_eq_div_iff_mult_less_eq)
  then have "n < length (varint_groups (drop_bit 7 v))" by (rule Suc.IH)
  with \<open>v \<noteq> 0\<close> show ?case by (subst varint_groups.simps) simp
qed

lemma pb_encode_varint_eq:
  "pb_encode_varint e v s = pb_write e (varint_code v) (of_nat (length (varint_code v))) s"
  by (simp add: pb_encode_varint_def varint_code_def Let_def)

text \<open>The length of the code is the least that holds the value; it never exceeds the buffer.\<close>

theorem length_varint_code_le_iff:
  assumes "0 < n"
  shows "length (varint_code v) \<le> n \<longleftrightarrow> unat v < 2 ^ (7 * n)"
proof (cases "v \<le> 0x7F")
  case True
  then have "unat v \<le> 127" by (simp add: word_le_nat_alt)
  also have "(127 :: nat) < 2 ^ (7 * 1)" by simp
  also have "\<dots> \<le> (2 :: nat) ^ (7 * n)" using assms by (intro power_increasing) auto
  finally show ?thesis using True assms by (simp add: varint_code_def)
next
  case False
  then have "length (varint_code v) = length (varint_groups v)"
    by (simp add: varint_code_def Let_def)
  then show ?thesis
    using length_varint_groups_le [of v n] length_varint_groups_ge [of n v] by linarith
qed

lemma length_varint_code: "length (varint_code v) \<le> 10"
  using length_varint_code_le_iff [of 10 v] unat_lt64 [of v] by simp

lemma varint_code_nonempty: "varint_code v \<noteq> []"
proof (cases "v \<le> 0x7F")
  case False
  then have "v \<noteq> 0" by auto
  then have "varint_groups v \<noteq> []" by (subst varint_groups.simps) simp
  with False show ?thesis by (simp add: varint_code_def Let_def)
qed (simp add: varint_code_def)

lemma pb_encode_varint_fits:
  "fits (length (varint_code v)) s \<Longrightarrow> pb_encode_varint e v s = (True, writes (varint_code v) s)"
  using length_varint_code [of v] by (simp add: pb_encode_varint_eq pb_write_fits)

lemma pb_encode_svarint_fits:
  "fits (length (varint_code (zigzag v))) s \<Longrightarrow>
   pb_encode_svarint e v s = (True, writes (varint_code (zigzag v)) s)"
  by (simp add: pb_encode_svarint_def pb_encode_varint_fits)

lemma ucast_and_0xFF: "ucast ((w :: 'a::len word) AND 0xFF) = (ucast w :: byte)"
proof -
  have eq: "(0xFF :: 'a word) = mask 8" by (simp add: mask_eq_exp_minus_1)
  show ?thesis
    unfolding eq
    by (rule bit_word_eqI) (auto simp: bit_simps dest: bit_imp_le_length)
qed

lemma pb_encode_fixed32_eq: "pb_encode_fixed32 e v s = pb_write e (le_bytes 4 v) 4 s"
  by (simp add: pb_encode_fixed32_def le_bytes_def ucast_and_0xFF upt_rec)

lemma pb_encode_fixed64_eq: "pb_encode_fixed64 e v s = pb_write e (le_bytes 8 v) 8 s"
  by (simp add: pb_encode_fixed64_def le_bytes_def ucast_and_0xFF upt_rec)

lemma pb_encode_fixed32_fits:
  "fits 4 s \<Longrightarrow> pb_encode_fixed32 e v s = (True, writes (le_bytes 4 v) s)"
  by (simp add: pb_encode_fixed32_eq pb_write_fits)

lemma pb_encode_fixed64_fits:
  "fits 8 s \<Longrightarrow> pb_encode_fixed64 e v s = (True, writes (le_bytes 8 v) s)"
  by (simp add: pb_encode_fixed64_eq pb_write_fits)

definition string_code :: "byte list \<Rightarrow> byte list" where
  "string_code xs = varint_code (of_nat (length xs)) @ xs"

lemma pb_encode_string_fits:
  assumes "fits (length (string_code xs)) s" and "n = of_nat (length xs)"
    and "length xs < 2 ^ 64"
  shows "pb_encode_string e xs n s = (True, writes (string_code xs) s)"
proof -
  let ?v = "varint_code n"
  have f: "fits (length ?v) s" "fits (length xs) (writes ?v s)"
    using assms(1) fits_append [of ?v xs s] by (simp_all add: string_code_def assms(2))
  have "pb_encode_string e xs n s = (True, writes xs (writes ?v s))"
    unfolding pb_encode_string_def pb_encode_varint_fits [OF f(1)]
    using pb_write_fits [OF f(2) assms(2,3)] by simp
  then show ?thesis by (simp add: string_code_def assms(2))
qed

end
