(* ===== verification/Pb_Wire.thy ===== *)
theory Pb_Wire imports Pb_Varint Pb_Ostream begin

text \<open>
  The value codes of the wire format from both sides: what the encoders of \<open>pb_encode.c\<close> put out,
  the decoders of \<open>pb_decode.c\<close> read back. \<open>wire_codec\<close> is the contract between the two files; it is
  interpreted for varints, zigzag varints, fixed-width words and 32-bit varints.
\<close>

subsection \<open>The contract\<close>

text \<open>
  \<open>enc\<close> gives the bytes of a value and \<open>dec\<close> reads a value: on a stream that starts with the code of
  a valid value, \<open>dec\<close> returns that value and leaves the stream right behind the code.
\<close>

locale wire_codec =
  fixes enc :: "'a \<Rightarrow> byte list"
    and dec :: "'u istream \<Rightarrow> 'a option \<times> 'u istream"
    and valid :: "'a \<Rightarrow> bool"
  assumes dec_enc:
    "valid v \<Longrightarrow> starts s (enc v) \<Longrightarrow> dec s = (Some v, is_skip (length (enc v)) s)"
    and enc_nonempty: "valid v \<Longrightarrow> enc v \<noteq> []"
begin

text \<open>Decoding of as many values as a list has, one after the other.\<close>

primrec dec_list :: "nat \<Rightarrow> 'u istream \<Rightarrow> 'a list option \<times> 'u istream" where
  "dec_list 0 s = (Some [], s)"
| "dec_list (Suc n) s =
     (case dec s of
        (None, s') \<Rightarrow> (None, s')
      | (Some v, s') \<Rightarrow> (case dec_list n s' of (r, s'') \<Rightarrow> (map_option ((#) v) r, s'')))"

lemma dec_list_enc:
  assumes "\<forall>v \<in> set vs. valid v" and "starts s (concat (map enc vs))"
  shows "dec_list (length vs) s = (Some vs, is_skip (length (concat (map enc vs))) s)"
  using assms
proof (induction vs arbitrary: s)
  case (Cons v vs)
  then have v: "valid v" "starts s (enc v)"
    and vs: "starts (is_skip (length (enc v)) s) (concat (map enc vs))"
    by simp_all
  from Cons.IH [OF _ vs] Cons.prems dec_enc [OF v] show ?case by simp
qed simp

lemma enc_prefix_free:
  assumes "valid v" "valid w" "starts (s :: 'u istream) (enc v)" "starts s (enc w)"
  shows "v = w"
  using dec_enc [OF assms(1,3)] dec_enc [OF assms(2,4)] by simp

lemma enc_inject:
  assumes "valid v" "valid w" "enc v = enc w" "length (enc v) < 2 ^ 64"
  shows "v = w"
proof -
  let ?s = "pb_istream_from_buffer (enc v) (of_nat (length (enc v))) :: 'u istream"
  have "starts ?s (enc v)"
    using assms(4) by (simp add: starts_def pb_istream_from_buffer_def unat_of_nat
        take_bit_nat_eq_self)
  with assms enc_prefix_free [of v w ?s] show ?thesis by simp
qed

text \<open>A run of codes fills its stream to the last byte only with its last value.\<close>

lemma left_after_list:
  assumes "\<forall>v \<in> set (vs @ ws). valid v"
    and "starts s (concat (map enc (vs @ ws)))"
    and "unat (is_bytes_left s) = length (concat (map enc (vs @ ws)))"
  shows "is_bytes_left (snd (dec_list (length vs) s)) = 0 \<longleftrightarrow> ws = []"
proof -
  have st: "starts s (concat (map enc vs))" using assms(2) by simp
  have "unat (is_bytes_left (is_skip (length (concat (map enc vs))) s))
      = length (concat (map enc ws))"
    using assms(3) is_skip_left [OF st] by simp
  moreover have "length (concat (map enc ws)) = 0 \<longleftrightarrow> ws = []"
    using assms(1) enc_nonempty by (cases ws) auto
  moreover have "dec_list (length vs) s = (Some vs, is_skip (length (concat (map enc vs))) s)"
    using assms(1) st by (intro dec_list_enc) auto
  ultimately show ?thesis by (simp add: unat_eq_0 [symmetric])
qed

end

subsection \<open>Varints\<close>

lemma bit_groups_byte:
  "bit (ucast ((v AND 0x7F) OR 0x80) :: byte) n \<longleftrightarrow> n < 7 \<and> bit (v :: u64) n \<or> n = 7"
  by (auto simp: bit_unsigned_iff bit_or_0x80 bit_and_0x7F)

lemma varint_groups_continue: "\<forall>x \<in> set (varint_groups v). bit x 7"
proof (induction v rule: varint_groups.induct)
  case (1 v)
  then show ?case
    by (subst varint_groups.simps) (auto simp: bit_groups_byte)
qed

lemma bit_varint_value_Cons:
  "bit (varint_value (x # xs)) n \<longleftrightarrow>
     (if n < 7 then bit x n else n < 64 \<and> bit (varint_value xs) (n - 7))"
  unfolding varint_value.simps bit_or_iff bit_push_bit_iff bit_unsigned_iff bit_and_0x7F
  by (auto dest: bit_imp_le_length)

lemma varint_value_groups [simp]: "varint_value (varint_groups v) = v"
proof (induction v rule: varint_groups.induct)
  case (1 v)
  show ?case
  proof (cases "v = 0")
    case True
    then show ?thesis by (simp add: varint_groups.simps)
  next
    case False
    have "varint_value (varint_groups v) =
        varint_value (ucast ((v AND 0x7F) OR 0x80) # varint_groups (drop_bit 7 v))"
      using False by (subst varint_groups.simps) simp
    also have "\<dots> = v"
      by (rule bit_word_eqI) (simp add: 1 False bit_varint_value_Cons bit_groups_byte bit_drop_bit_eq
          del: varint_value.simps)
    finally show ?thesis .
  qed
qed

lemma varint_value_clear_top:
  "varint_value (xs[i := (xs ! i) AND 0x7F]) = varint_value xs"
proof (induction xs arbitrary: i)
  case (Cons x xs)
  then show ?case by (cases i) (simp_all add: and.assoc)
qed simp

lemma is_varint_clear_last:
  assumes "xs \<noteq> []" and "\<forall>x \<in> set xs. bit x 7"
  shows "is_varint (xs[length xs - 1 := (xs ! (length xs - 1)) AND 0x7F])"
  using assms
proof (induction xs)
  case (Cons x xs)
  show ?case
  proof (cases "xs = []")
    case True
    then show ?thesis by (simp add: bit_and_0x7F)
  next
    case False
    with Cons show ?thesis by (cases "length xs") (auto simp: is_varint_Cons)
  qed
qed simp

lemma varint_code_groups:
  "\<not> v \<le> 0x7F \<Longrightarrow> varint_groups v \<noteq> []"
  by (subst varint_groups.simps) auto

lemma bit_small: "(v :: u64) \<le> 0x7F \<Longrightarrow> bit v n \<Longrightarrow> n < 7"
proof (rule ccontr)
  assume v: "v \<le> 0x7F" and b: "bit v n" and "\<not> n < 7"
  then have "unat (drop_bit 7 v) = 0"
    unfolding unat_drop_bit_7 by (simp add: word_le_nat_alt)
  then have "\<not> bit (drop_bit 7 v) (n - 7)" by (simp add: unat_eq_0)
  with b \<open>\<not> n < 7\<close> show False by (simp add: bit_drop_bit_eq)
qed

lemma bit_ucast_byte: "bit (ucast (v :: u64) :: byte) n \<longleftrightarrow> n < 8 \<and> bit v n"
  by (auto simp: bit_unsigned_iff)

theorem is_varint_code: "is_varint (varint_code v)"
proof (cases "v \<le> 0x7F")
  case True
  then show ?thesis using bit_small [OF True, of 7] by (auto simp: varint_code_def bit_ucast_byte)
next
  case False
  then show ?thesis
    using is_varint_clear_last [OF varint_code_groups [OF False] varint_groups_continue]
    by (simp add: varint_code_def Let_def)
qed

theorem varint_value_code [simp]: "varint_value (varint_code v) = v"
proof (cases "v \<le> 0x7F")
  case True
  then have "varint_code v = [ucast v]" by (simp add: varint_code_def)
  moreover have "varint_value [ucast v] = v"
    using bit_small [OF True]
    by (intro bit_word_eqI) (auto simp del: varint_value.simps(2) simp: bit_varint_value_Cons
      bit_ucast_byte)
  ultimately show ?thesis by simp
next
  case False
  then show ?thesis by (simp add: varint_code_def Let_def varint_value_clear_top)
qed

interpretation varint: wire_codec varint_code "pb_decode_varint e" "\<lambda>_. True" for e
  by unfold_locales
    (simp_all add: pb_decode_varint_starts [OF is_varint_code length_varint_code]
      varint_code_nonempty)

subsection \<open>Zigzag\<close>

lemma sint_less_0: "sint (v :: u64) < 0 \<longleftrightarrow> bit v 63"
  by (simp add: bit_last_iff [symmetric])

lemma bit_zigzag:
  "bit (zigzag v) n \<longleftrightarrow> n < 64 \<and> (if n = 0 then bit v 63 else bit v (n - 1) \<noteq> bit v 63)"
  unfolding zigzag_def sint_less_0
  by (cases "bit v 63")
    (simp_all only: if_True if_False bit_not_iff bit_push_bit_iff possible_bit_word, auto)

lemma bit_unzigzag:
  "bit (unzigzag v) n \<longleftrightarrow> n < 64 \<and> (if n = 63 then bit v 0 else bit v (Suc n) \<noteq> bit v 0)"
  unfolding unzigzag_def and_1
  by (cases "bit v 0")
    (simp_all only: not_not simp_thms if_True if_False bit_not_iff bit_drop_bit_eq possible_bit_word,
     auto simp: less_Suc_eq dest: bit_imp_le_length)

lemma unzigzag_zigzag [simp]: "unzigzag (zigzag v) = v"
  by (rule bit_word_eqI) (auto simp: bit_unzigzag bit_zigzag)

lemma zigzag_unzigzag [simp]: "zigzag (unzigzag v) = v"
  by (rule bit_word_eqI) (auto simp: bit_unzigzag bit_zigzag)

interpretation svarint: wire_codec "\<lambda>v. varint_code (zigzag v)" "pb_decode_svarint e" "\<lambda>_. True" for e
  by unfold_locales
    (simp_all add: pb_decode_svarint_def varint.dec_enc varint_code_nonempty)

subsection \<open>Fixed width\<close>

lemma list_of_4: "length bs = 4 \<Longrightarrow> bs = [bs ! 0, bs ! 1, bs ! 2, bs ! 3]"
  by (auto simp: length_Suc_conv eval_nat_numeral)

lemma list_of_8: "length bs = 8 \<Longrightarrow>
   bs = [bs ! 0, bs ! 1, bs ! 2, bs ! 3, bs ! 4, bs ! 5, bs ! 6, bs ! 7]"
  by (auto simp: length_Suc_conv eval_nat_numeral)

lemma le_word_4: "length bs = 4 \<Longrightarrow>
   ucast (bs ! 0) OR push_bit 8 (ucast (bs ! 1)) OR push_bit 16 (ucast (bs ! 2))
     OR push_bit 24 (ucast (bs ! 3)) = (le_word bs :: u32)"
  by (subst (5) list_of_4) (simp_all add: push_bit_or push_bit_push_bit or.assoc)

lemma le_word_8: "length bs = 8 \<Longrightarrow>
   ucast (bs ! 0) OR push_bit 8 (ucast (bs ! 1)) OR push_bit 16 (ucast (bs ! 2))
     OR push_bit 24 (ucast (bs ! 3)) OR push_bit 32 (ucast (bs ! 4)) OR push_bit 40 (ucast (bs ! 5))
     OR push_bit 48 (ucast (bs ! 6)) OR push_bit 56 (ucast (bs ! 7)) = (le_word bs :: u64)"
  by (subst (9) list_of_8) (simp_all add: push_bit_or push_bit_push_bit or.assoc)

lemma pb_decode_fixed32_starts:
  "starts s bs \<Longrightarrow> length bs = 4 \<Longrightarrow> pb_decode_fixed32 e s = (Some (le_word bs), is_skip 4 s)"
  using pb_read_starts [of s bs 4 e] by (simp only: pb_decode_fixed32_def le_word_4 prod.case option.case of_nat_numeral)

lemma pb_decode_fixed64_starts:
  "starts s bs \<Longrightarrow> length bs = 8 \<Longrightarrow> pb_decode_fixed64 e s = (Some (le_word bs), is_skip 8 s)"
  using pb_read_starts [of s bs 8 e]
  by (simp add: pb_decode_fixed64_def le_word_8 [unfolded One_nat_def])

interpretation fixed32: wire_codec "le_bytes 4" "pb_decode_fixed32 e" "\<lambda>_. True" for e
  by unfold_locales (simp_all add: pb_decode_fixed32_starts)

interpretation fixed64: wire_codec "le_bytes 8" "pb_decode_fixed64 e" "\<lambda>_. True" for e
  by unfold_locales (simp_all add: pb_decode_fixed64_starts)

subsection \<open>pb\_decode\_varint32\<close>

lemma and_0x70: "b AND 0x70 = 0 \<longleftrightarrow> \<not> bit (b :: byte) 4 \<and> \<not> bit b 5 \<and> \<not> bit b 6"
proof -
  have "bit (0x70 :: byte) n \<longleftrightarrow> n = 4 \<or> n = 5 \<or> n = 6" if "n < 8" for n
  proof -
    from that have "n \<in> {0, 1, 2, 3, 4, 5, 6, 7}" by auto
    then show ?thesis by (auto simp: bit_numeral_rec)
  qed
  then have bits: "bit (b AND 0x70) n \<longleftrightarrow> bit b n \<and> (n = 4 \<or> n = 5 \<or> n = 6)" for n
    by (auto simp: bit_and_iff dest: bit_imp_le_length)
  show ?thesis
  proof
    assume "b AND 0x70 = 0"
    then have "\<not> bit (b AND 0x70) n" for n by simp
    then show "\<not> bit b 4 \<and> \<not> bit b 5 \<and> \<not> bit b 6" unfolding bits by blast
  next
    assume "\<not> bit b 4 \<and> \<not> bit b 5 \<and> \<not> bit b 6"
    then show "b AND 0x70 = 0" by (intro bit_word_eqI) (auto simp: bits)
  qed
qed

lemma ucast_byte_twice: "ucast (ucast (b :: byte) :: u64) = (ucast b :: u32)"
  by (rule bit_word_eqI) (auto simp: bit_unsigned_iff dest: bit_imp_le_length)

lemma bit_varint_value_less: "bit (varint_value ys) m \<Longrightarrow> m < 7 * length ys"
proof (induction ys arbitrary: m)
  case (Cons y ys)
  show ?case
  proof (cases "m < 7")
    case False
    with Cons.prems have "bit (varint_value ys) (m - 7)"
      unfolding bit_varint_value_Cons by simp
    from Cons.IH [OF this] show ?thesis by simp
  qed simp
qed simp

lemma bit_push_ucast:
  "bit (push_bit k (ucast (w :: 'a::len word)) :: u32) n \<longleftrightarrow> n < 32 \<and> k \<le> n \<and> bit w (n - k)"
  unfolding bit_push_bit_iff bit_unsigned_iff by auto

lemma varint32_loop_starts:
  assumes "is_varint xs" and "starts s xs" and "1 \<le> i" and "i + length xs \<le> 5"
    and "\<forall>n. bit (varint_value xs) n \<longrightarrow> n + 7 * i < 32"
  shows "varint32_loop e (of_nat (7 * i)) v s
    = (Some (v OR push_bit (7 * i) (ucast (varint_value xs))), is_skip (length xs) s)"
  using assms
proof (induction xs arbitrary: i v s)
  case Nil
  then show ?case by simp
next
  case (Cons x xs)
  from Cons.prems have s: "starts s [x]" "starts (is_skip 1 s) xs"
    by (simp_all add: starts_Cons [of s x xs])
  have i: "7 * i < 32" using Cons.prems(4) by simp
  have b: "\<not> 32 \<le> (of_nat (7 * i) :: byte)"
    using bitpos_le [of "7 * i" 32] i by simp
  have u: "unat (of_nat (7 * i) :: byte) = 7 * i" by (rule unat_bitpos) (use i in simp)
  have vx: "bit (varint_value (x # xs)) n \<longleftrightarrow>
     (if n < 7 then bit x n else n < 64 \<and> bit (varint_value xs) (n - 7))" for n
    by (rule bit_varint_value_Cons)
  show ?case
  proof (cases "xs = []")
    case True
    have "x AND 0x70 = 0" if "i = 4"
      using Cons.prems(5) vx [of 4] vx [of 5] vx [of 6] that True by (auto simp: and_0x70)
    moreover have "(of_nat (7 * i) :: byte) + 7 = 35 \<longleftrightarrow> i = 4"
    proof
      assume "(of_nat (7 * i) :: byte) + 7 = 35"
      then have "unat (of_nat (7 * Suc i) :: byte) = unat (35 :: byte)"
        by (simp only: bitpos_step)
      moreover have "unat (of_nat (7 * Suc i) :: byte) = 7 * Suc i"
        by (rule unat_bitpos) (use i in simp)
      ultimately show "i = 4" by simp
    qed simp
    ultimately show ?thesis
      using True Cons.prems(1) b u
      by (subst varint32_loop.simps) (auto simp: pb_readbyte_starts [OF s(1)] and_0x80 Let_def ucast_byte_twice)
  next
    case False
    with Cons.prems have xs: "bit x 7" "is_varint xs" "Suc i + length xs \<le> 5" "1 \<le> Suc i"
      by (simp_all add: is_varint_Cons)
    have bound: "\<forall>n. bit (varint_value xs) n \<longrightarrow> n + 7 * Suc i < 32"
    proof (intro allI impI)
      fix n assume n: "bit (varint_value xs) n"
      show "n + 7 * Suc i < 32"
      proof (cases "n + 7 < 64")
        case True
        then have "bit (varint_value (x # xs)) (n + 7)" using n vx [of "n + 7"] by simp
        then have "(n + 7) + 7 * i < 32" using Cons.prems(5) by blast
        then show ?thesis by simp
      next
        case False
        have "length xs \<le> 3" using xs(3) Cons.prems(3) by simp
        from bit_varint_value_less [OF n] \<open>length xs \<le> 3\<close> False show ?thesis by simp
      qed
    qed
    have "varint32_loop e (of_nat (7 * i)) v s
        = varint32_loop e (of_nat (7 * Suc i))
            (v OR push_bit (7 * i) (ucast (x AND 0x7F))) (is_skip 1 s)"
      using b u xs(1) unfolding bitpos_step [symmetric]
      by (subst varint32_loop.simps) (simp add: pb_readbyte_starts [OF s(1)] and_0x80)
    also have "\<dots> = (Some ((v OR push_bit (7 * i) (ucast (x AND 0x7F)))
        OR push_bit (7 * Suc i) (ucast (varint_value xs))), is_skip (length xs) (is_skip 1 s))"
      by (rule Cons.IH [OF xs(2) s(2) xs(4,3) bound])
    also have "(v OR push_bit (7 * i) (ucast (x AND 0x7F)))
        OR push_bit (7 * Suc i) (ucast (varint_value xs))
      = v OR push_bit (7 * i) (ucast (varint_value (x # xs)))"
    proof (rule bit_word_eqI)
      fix n assume "n < LENGTH(32)"
      then show "bit ((v OR push_bit (7 * i) (ucast (x AND 0x7F)))
          OR push_bit (7 * Suc i) (ucast (varint_value xs))) n
        = bit (v OR push_bit (7 * i) (ucast (varint_value (x # xs)))) n"
        unfolding bit_or_iff bit_push_ucast vx
        by (auto simp: bit_and_0x7F diff_diff_left add.commute)
    qed
    finally show ?thesis by simp
  qed
qed

theorem pb_decode_varint32_starts:
  assumes "is_varint xs" and "length xs \<le> 5" and "starts s xs"
    and "unat (varint_value xs) < 2 ^ 32"
  shows "pb_decode_varint32 e s = (Some (ucast (varint_value xs)), is_skip (length xs) s)"
proof -
  obtain x ys where xs: "xs = x # ys" using assms(1) by (cases xs) simp_all
  have s: "starts s [x]" "starts (is_skip 1 s) ys"
    using assms(3) by (simp_all add: xs starts_Cons [of s x ys])
  have "take_bit 32 (varint_value xs) = varint_value xs"
    using assms(4) by (simp add: word_unat_eq_iff unsigned_take_bit_eq take_bit_nat_eq_self)
  then have small: "bit (varint_value xs) n \<Longrightarrow> n < 32" for n
    by (metis bit_take_bit_iff)
  show ?thesis
  proof (cases "ys = []")
    case True
    then have "\<not> bit x 7" using assms(1) by (simp add: xs)
    moreover have "ucast x = (ucast (varint_value xs) :: u32)"
    proof (rule bit_word_eqI)
      fix n assume "n < LENGTH(32)"
      then show "bit (ucast x :: u32) n = bit (ucast (varint_value xs) :: u32) n"
        using True \<open>\<not> bit x 7\<close> bit_varint_value_Cons [of x "[]" n]
        by (cases "n = 7") (auto simp: xs bit_unsigned_iff simp del: varint_value.simps(2)
            dest: bit_imp_le_length)
    qed
    ultimately show ?thesis
      using True by (simp add: pb_decode_varint32_def pb_decode_varint32_eof_def
          pb_readbyte_starts [OF s(1)] and_0x80 xs del: varint_value.simps)
  next
    case False
    with assms(1) have ys: "bit x 7" "is_varint ys" by (simp_all add: xs is_varint_Cons)
    have bound: "\<forall>n. bit (varint_value ys) n \<longrightarrow> n + 7 * 1 < 32"
    proof (intro allI impI)
      fix n assume n: "bit (varint_value ys) n"
      have "n < 28" using bit_varint_value_less [OF n] assms(2) by (simp add: xs)
      then have "bit (varint_value xs) (n + 7)" using n by (simp add: xs bit_varint_value_Cons del: varint_value.simps)
      then show "n + 7 * 1 < 32" using small by fastforce
    qed
    have "varint32_loop e (of_nat (7 * 1)) (ucast (x AND 0x7F)) (is_skip 1 s)
      = (Some (ucast (x AND 0x7F) OR push_bit (7 * 1) (ucast (varint_value ys))),
         is_skip (length ys) (is_skip 1 s))"
      by (rule varint32_loop_starts [OF ys(2) s(2) _ _ bound]) (use assms(2) in \<open>simp_all add: xs\<close>)
    moreover have "ucast (x AND 0x7F) OR push_bit 7 (ucast (varint_value ys))
        = (ucast (varint_value xs) :: u32)"
    proof (rule bit_word_eqI)
      fix n assume "n < LENGTH(32)"
      then show "bit (ucast (x AND 0x7F) OR push_bit 7 (ucast (varint_value ys)) :: u32) n
          = bit (ucast (varint_value xs) :: u32) n"
        unfolding bit_or_iff bit_push_ucast bit_unsigned_iff xs bit_varint_value_Cons
        by (auto simp: bit_and_0x7F)
    qed
    ultimately show ?thesis
      using ys(1) by (simp add: pb_decode_varint32_def pb_decode_varint32_eof_def
          pb_readbyte_starts [OF s(1)] and_0x80 xs del: varint_value.simps)
  qed
qed

text \<open>A varint of up to five bytes for a 32-bit value: the codes \<open>pb_encode_varint\<close> writes for
  tags, lengths and bools.\<close>

definition varint32_code :: "u32 \<Rightarrow> byte list" where
  "varint32_code v = varint_code (ucast v)"

lemma varint32_code:
  "is_varint (varint32_code v)" "length (varint32_code v) \<le> 5"
  "varint_value (varint32_code v) = ucast v" "varint32_code v \<noteq> []"
proof -
  have "unat (ucast v :: u64) < 2 ^ 32"
    using unat_lt32 [of v] by simp
  then have "unat (ucast v :: u64) < 2 ^ (7 * 5)" by simp
  then show "length (varint32_code v) \<le> 5"
    unfolding varint32_code_def by (subst length_varint_code_le_iff) simp_all
qed (simp_all add: varint32_code_def is_varint_code varint_code_nonempty)

interpretation varint32: wire_codec varint32_code "pb_decode_varint32 e" "\<lambda>_. True" for e
proof unfold_locales
  fix v and s :: "'a istream"
  assume "starts s (varint32_code v)"
  moreover have "unat (varint_value (varint32_code v)) < 2 ^ 32"
    using unat_lt32 [of v] by (simp add: varint32_code)
  moreover have "ucast (ucast v :: u64) = v"
    by (rule bit_word_eqI) (auto simp: bit_unsigned_iff dest: bit_imp_le_length)
  ultimately show "pb_decode_varint32 e s = (Some v, is_skip (length (varint32_code v)) s)"
    using pb_decode_varint32_starts [of "varint32_code v" s e] varint32_code [of v] by simp
qed (simp add: varint32_code)

subsection \<open>Tags\<close>

text \<open>The code \<open>pb_encode_tag\<close> puts out, for field numbers below \<open>2 ^ 29\<close>.\<close>

definition tag_word :: "u32 \<Rightarrow> u32 \<Rightarrow> u32" where
  "tag_word wiretype field_number = push_bit 3 field_number OR wiretype"

lemma bit_ucast_u64: "bit (ucast (w :: u32) :: u64) n \<longleftrightarrow> bit w n"
  by (auto simp: bit_unsigned_iff dest: bit_imp_le_length)

lemma u32_small_bits: "unat (w :: u32) < 2 ^ k \<Longrightarrow> bit w n \<Longrightarrow> n < k"
proof -
  assume w: "unat w < 2 ^ k" and b: "bit w n"
  have "take_bit k w = w"
    using w by (simp add: word_unat_eq_iff unsigned_take_bit_eq take_bit_nat_eq_self)
  with b show "n < k" by (metis bit_take_bit_iff)
qed

lemma pb_encode_tag_word:
  assumes "unat field_number < 2 ^ 29"
  shows "push_bit 3 (ucast field_number) OR ucast wiretype
    = (ucast (tag_word wiretype field_number) :: u64)"
proof (rule bit_word_eqI)
  fix n assume "n < LENGTH(64)"
  then show "bit (push_bit 3 (ucast field_number) OR ucast wiretype :: u64) n
      = bit (ucast (tag_word wiretype field_number) :: u64) n"
    unfolding tag_word_def bit_or_iff bit_ucast_u64 bit_push_bit_iff
    using u32_small_bits [OF assms, of "n - 3"] by auto
qed

lemma tag_word_split:
  assumes "unat field_number < 2 ^ 29" and "unat wiretype < 2 ^ 3"
  shows "tag_word wiretype field_number AND 7 = wiretype"
    and "drop_bit 3 (tag_word wiretype field_number) = field_number"
proof -
  have seven: "(7 :: u32) = mask 3" by (simp add: mask_eq_exp_minus_1)
  show "tag_word wiretype field_number AND 7 = wiretype"
  proof (rule bit_word_eqI)
    fix n assume "n < LENGTH(32)"
    then show "bit (tag_word wiretype field_number AND 7) n = bit wiretype n"
      unfolding seven tag_word_def bit_and_iff bit_or_iff bit_push_bit_iff bit_mask_iff
      using u32_small_bits [OF assms(2), of n] by auto
  qed
  show "drop_bit 3 (tag_word wiretype field_number) = field_number"
  proof (rule bit_word_eqI)
    fix n assume "n < LENGTH(32)"
    show "bit (drop_bit 3 (tag_word wiretype field_number)) n = bit field_number n"
      unfolding tag_word_def bit_drop_bit_eq comp_def bit_or_iff bit_push_bit_iff
      using u32_small_bits [OF assms(2), of "3 + n"] u32_small_bits [OF assms(1), of n] by auto
  qed
qed

lemma pb_encode_tag_fits:
  assumes "unat field_number < 2 ^ 29"
    and "fits (length (varint32_code (tag_word wiretype field_number))) s"
  shows "pb_encode_tag e wiretype field_number s
    = (True, writes (varint32_code (tag_word wiretype field_number)) s)"
  using assms by (simp add: pb_encode_tag_def pb_encode_tag_word varint32_code_def
      pb_encode_varint_fits)

text \<open>\<open>eof\<close> stays false when a varint is read.\<close>

lemma pb_decode_varint32_eof_Some:
  assumes "pb_decode_varint32 e s = (Some v, s')"
  shows "pb_decode_varint32_eof e s = (Some v, False, s')"
  using assms by (auto simp: pb_decode_varint32_def pb_decode_varint32_eof_def
      split: prod.splits option.splits if_splits)

theorem pb_decode_tag_starts:
  assumes "unat field_number < 2 ^ 29" and "unat wiretype < 2 ^ 3"
    and "tag_word wiretype field_number \<noteq> 0"
    and "starts s (varint32_code (tag_word wiretype field_number))"
  shows "pb_decode_tag e s = (Some (wiretype, field_number), False,
    is_skip (length (varint32_code (tag_word wiretype field_number))) s)"
  using pb_decode_varint32_eof_Some [OF varint32.dec_enc [OF TrueI assms(4)], of e]
    tag_word_split [OF assms(1,2)] assms(3)
  by (simp add: pb_decode_tag_def)

subsection \<open>Skipping\<close>

lemma pb_skip_varint_starts:
  "is_varint xs \<Longrightarrow> starts s xs \<Longrightarrow> pb_skip_varint e s = (True, is_skip (length xs) s)"
proof (induction xs arbitrary: s)
  case (Cons x xs)
  from Cons.prems have s: "starts s [x]" "starts (is_skip 1 s) xs"
    by (simp_all add: starts_Cons [of s x xs])
  have rd: "pb_read e 1 s = (Some [x], is_skip 1 s)"
    using pb_read_starts [OF s(1), of 1 e] by simp
  show ?case
    using Cons.IH [OF _ s(2)] Cons.prems(1)
    by (subst pb_skip_varint.simps) (auto simp: rd and_0x80 is_varint_Cons split: if_splits)
qed simp

lemma pb_skip_string_starts:
  assumes "starts s (varint32_code n @ xs)" and "unat n = length xs"
  shows "pb_skip_string e s = (True, is_skip (length (varint32_code n @ xs)) s)"
proof -
  have s: "starts s (varint32_code n)" "starts (is_skip (length (varint32_code n)) s) xs"
    using assms(1) by simp_all
  have "(ucast n :: csize) = of_nat (length xs)"
    unfolding assms(2) [symmetric] by simp
  then show ?thesis
    by (simp add: pb_skip_string_def varint32.dec_enc [OF TrueI s(1)]
        pb_read_null_starts [OF s(2)])
qed

text \<open>What a field of each wire type looks like behind its tag.\<close>

definition is_payload :: "u32 \<Rightarrow> byte list \<Rightarrow> bool" where
  "is_payload w xs \<longleftrightarrow>
     w = PB_WT_VARINT \<and> is_varint xs
   \<or> w = PB_WT_64BIT \<and> length xs = 8
   \<or> w = PB_WT_STRING \<and> (\<exists>n ys. xs = varint32_code n @ ys \<and> unat n = length ys)
   \<or> w = PB_WT_32BIT \<and> length xs = 4"

theorem pb_skip_field_starts:
  assumes "is_payload w xs" and "starts s xs"
  shows "pb_skip_field e w s = (True, is_skip (length xs) s)"
  using assms
  by (auto simp: is_payload_def pb_skip_field_def pb_skip_varint_starts
      pb_read_null_starts [of s xs] pb_skip_string_starts simp del: starts_append length_append)

subsection \<open>Whole buffers\<close>

lemma fits_from_buffer [simp]: "fits k (pb_ostream_from_buffer n) \<longleftrightarrow> k \<le> unat n"
  by (simp add: fits_def pb_ostream_from_buffer_def)

lemma writes_from_buffer:
  "os_sink (writes xs (pb_ostream_from_buffer n)) = Buf_write xs (unat n - length xs)"
  "os_bytes_written (writes xs (pb_ostream_from_buffer n)) = of_nat (length xs)"
  "os_errmsg (writes xs (pb_ostream_from_buffer n)) = None"
  by (simp_all add: writes_def pb_ostream_from_buffer_def)

lemma from_buffer_starts:
  assumes "length (xs @ ys) < 2 ^ 64"
  shows "starts (pb_istream_from_buffer (xs @ ys) (of_nat (length (xs @ ys)))) xs"
    and "is_skip (length xs) (pb_istream_from_buffer (xs @ ys) (of_nat (length (xs @ ys))))
      = pb_istream_from_buffer ys (of_nat (length ys))"
proof -
  have n: "unat (of_nat (length (xs @ ys)) :: csize) = length (xs @ ys)"
    using assms by (simp only: unat_of_nat) (simp add: take_bit_nat_eq_self)
  show "starts (pb_istream_from_buffer (xs @ ys) (of_nat (length (xs @ ys)))) xs"
    using n by (simp add: starts_def pb_istream_from_buffer_def)
  show "is_skip (length xs) (pb_istream_from_buffer (xs @ ys) (of_nat (length (xs @ ys))))
      = pb_istream_from_buffer ys (of_nat (length ys))"
    by (simp add: is_skip_def pb_istream_from_buffer_def)
qed

subsection \<open>Properties\<close>

lemma varint_buffers:
  assumes "10 \<le> unat n" and "length ys < 2 ^ 63"
  shows "\<exists>bs t. pb_encode_varint e v (pb_ostream_from_buffer n) = (True, t)
     \<and> os_sink t = Buf_write bs (unat n - length bs)
     \<and> length bs \<le> 10 \<and> (\<forall>k. 0 < k \<longrightarrow> length bs \<le> k \<longleftrightarrow> unat v < 2 ^ (7 * k))
     \<and> pb_decode_varint e' (pb_istream_from_buffer (bs @ ys) (of_nat (length (bs @ ys))))
         = (Some v, pb_istream_from_buffer ys (of_nat (length ys)))"
proof (intro exI conjI)
  let ?bs = "varint_code v"
  have "length ?bs \<le> 10" by (rule length_varint_code)
  then show "pb_encode_varint e v (pb_ostream_from_buffer n)
      = (True, writes ?bs (pb_ostream_from_buffer n))"
    using assms by (intro pb_encode_varint_fits) simp
  have len: "length (?bs @ ys) < 2 ^ 64" using \<open>length ?bs \<le> 10\<close> assms(2) by simp
  show "pb_decode_varint e' (pb_istream_from_buffer (?bs @ ys) (of_nat (length (?bs @ ys))))
      = (Some v, pb_istream_from_buffer ys (of_nat (length ys)))"
    using varint.dec_enc [OF TrueI from_buffer_starts(1) [OF len], of e'] from_buffer_starts(2) [OF len]
    by simp
qed (simp_all add: writes_from_buffer length_varint_code length_varint_code_le_iff)

lemma svarint_buffers:
  assumes "10 \<le> unat n" and "length ys < 2 ^ 63"
  shows "\<exists>bs t. pb_encode_svarint e v (pb_ostream_from_buffer n) = (True, t)
     \<and> os_sink t = Buf_write bs (unat n - length bs)
     \<and> pb_decode_svarint e' (pb_istream_from_buffer (bs @ ys) (of_nat (length (bs @ ys))))
         = (Some v, pb_istream_from_buffer ys (of_nat (length ys)))"
proof (intro exI conjI)
  let ?bs = "varint_code (zigzag v)"
  have "length ?bs \<le> 10" by (rule length_varint_code)
  then show "pb_encode_svarint e v (pb_ostream_from_buffer n)
      = (True, writes ?bs (pb_ostream_from_buffer n))"
    using assms by (intro pb_encode_svarint_fits) simp
  have len: "length (?bs @ ys) < 2 ^ 64" using \<open>length ?bs \<le> 10\<close> assms(2) by simp
  show "pb_decode_svarint e' (pb_istream_from_buffer (?bs @ ys) (of_nat (length (?bs @ ys))))
      = (Some v, pb_istream_from_buffer ys (of_nat (length ys)))"
    using svarint.dec_enc [OF TrueI from_buffer_starts(1) [OF len], of e'] from_buffer_starts(2) [OF len]
    by simp
qed (simp_all add: writes_from_buffer)

lemma fixed_buffers:
  assumes "8 \<le> unat n" and "length ys < 2 ^ 63"
  shows "(\<exists>bs t. pb_encode_fixed32 e v (pb_ostream_from_buffer n) = (True, t)
       \<and> os_sink t = Buf_write bs (unat n - 4)
       \<and> pb_decode_fixed32 e' (pb_istream_from_buffer (bs @ ys) (of_nat (length (bs @ ys))))
           = (Some v, pb_istream_from_buffer ys (of_nat (length ys))))
     \<and> (\<exists>bs t. pb_encode_fixed64 e w (pb_ostream_from_buffer n) = (True, t)
       \<and> os_sink t = Buf_write bs (unat n - 8)
       \<and> pb_decode_fixed64 e' (pb_istream_from_buffer (bs @ ys) (of_nat (length (bs @ ys))))
           = (Some w, pb_istream_from_buffer ys (of_nat (length ys))))"
proof (intro conjI exI)
  have len: "length (le_bytes 4 v @ ys) < 2 ^ 64" "length (le_bytes 8 w @ ys) < 2 ^ 64"
    using assms(2) by simp_all
  show "pb_encode_fixed32 e v (pb_ostream_from_buffer n)
      = (True, writes (le_bytes 4 v) (pb_ostream_from_buffer n))"
    "pb_encode_fixed64 e w (pb_ostream_from_buffer n)
      = (True, writes (le_bytes 8 w) (pb_ostream_from_buffer n))"
    using assms(1) by (simp_all add: pb_encode_fixed32_fits pb_encode_fixed64_fits)
  show "pb_decode_fixed32 e' (pb_istream_from_buffer (le_bytes 4 v @ ys)
      (of_nat (length (le_bytes 4 v @ ys)))) = (Some v, pb_istream_from_buffer ys (of_nat (length ys)))"
    using fixed32.dec_enc [OF TrueI from_buffer_starts(1) [OF len(1)], of e']
      from_buffer_starts(2) [OF len(1)] by simp
  show "pb_decode_fixed64 e' (pb_istream_from_buffer (le_bytes 8 w @ ys)
      (of_nat (length (le_bytes 8 w @ ys)))) = (Some w, pb_istream_from_buffer ys (of_nat (length ys)))"
    using fixed64.dec_enc [OF TrueI from_buffer_starts(1) [OF len(2)], of e']
      from_buffer_starts(2) [OF len(2)] by simp
qed (simp_all add: writes_from_buffer)

lemma tag_buffers:
  assumes "10 \<le> unat n" and "length ys < 2 ^ 63"
    and "0 < unat t" "unat t < 2 ^ 29" and "unat w < 8"
  shows "\<exists>bs s. pb_encode_tag e w t (pb_ostream_from_buffer n) = (True, s)
     \<and> os_sink s = Buf_write bs (unat n - length bs)
     \<and> pb_decode_tag e' (pb_istream_from_buffer (bs @ ys) (of_nat (length (bs @ ys))))
         = (Some (w, t), False, pb_istream_from_buffer ys (of_nat (length ys)))"
proof (intro exI conjI)
  let ?bs = "varint32_code (tag_word w t)"
  have "length ?bs \<le> 5" by (rule varint32_code)
  then show "pb_encode_tag e w t (pb_ostream_from_buffer n)
      = (True, writes ?bs (pb_ostream_from_buffer n))"
    using assms by (intro pb_encode_tag_fits) simp_all
  have len: "length (?bs @ ys) < 2 ^ 64" using \<open>length ?bs \<le> 5\<close> assms(2) by simp
  have "drop_bit 3 (tag_word w t) = t" using assms(4,5) by (intro tag_word_split) simp_all
  then have "tag_word w t \<noteq> 0" using assms(3) by (auto simp: unat_gt_0)
  then show "pb_decode_tag e' (pb_istream_from_buffer (?bs @ ys) (of_nat (length (?bs @ ys))))
      = (Some (w, t), False, pb_istream_from_buffer ys (of_nat (length ys)))"
    using pb_decode_tag_starts [OF _ _ _ from_buffer_starts(1) [OF len], of e']
      from_buffer_starts(2) [OF len] assms(4,5)
    by simp
qed (simp_all add: writes_from_buffer)

text \<open>C7: What the primitive encoders write into a buffer of at least ten bytes, the decoders read back, and
  they stop right behind it, whatever follows: varints, in at most ten bytes and no more than the value needs; signed
  values through the zigzag code; fixed-width words in 4 and 8 bytes; and tags, with wire type and field
  number, which are not mistaken for the end of the message.\<close>

theorem pb_wire_roundtrip:
  assumes "10 \<le> unat n" and "length ys < 2 ^ 63"
  shows "(\<exists>bs t. pb_encode_varint e v (pb_ostream_from_buffer n) = (True, t)
       \<and> os_sink t = Buf_write bs (unat n - length bs)
       \<and> length bs \<le> 10 \<and> (\<forall>k. 0 < k \<longrightarrow> length bs \<le> k \<longleftrightarrow> unat v < 2 ^ (7 * k))
       \<and> pb_decode_varint e' (pb_istream_from_buffer (bs @ ys) (of_nat (length (bs @ ys))))
           = (Some v, pb_istream_from_buffer ys (of_nat (length ys))))
     \<and> (\<exists>bs t. pb_encode_svarint e sv (pb_ostream_from_buffer n) = (True, t)
       \<and> os_sink t = Buf_write bs (unat n - length bs)
       \<and> pb_decode_svarint e' (pb_istream_from_buffer (bs @ ys) (of_nat (length (bs @ ys))))
           = (Some sv, pb_istream_from_buffer ys (of_nat (length ys))))
     \<and> (\<exists>bs t. pb_encode_fixed32 e f32 (pb_ostream_from_buffer n) = (True, t)
       \<and> os_sink t = Buf_write bs (unat n - 4)
       \<and> pb_decode_fixed32 e' (pb_istream_from_buffer (bs @ ys) (of_nat (length (bs @ ys))))
           = (Some f32, pb_istream_from_buffer ys (of_nat (length ys))))
     \<and> (\<exists>bs t. pb_encode_fixed64 e f64 (pb_ostream_from_buffer n) = (True, t)
       \<and> os_sink t = Buf_write bs (unat n - 8)
       \<and> pb_decode_fixed64 e' (pb_istream_from_buffer (bs @ ys) (of_nat (length (bs @ ys))))
           = (Some f64, pb_istream_from_buffer ys (of_nat (length ys))))
     \<and> (0 < unat t \<and> unat t < 2 ^ 29 \<and> unat w < 8 \<longrightarrow>
       (\<exists>bs s. pb_encode_tag e w t (pb_ostream_from_buffer n) = (True, s)
         \<and> os_sink s = Buf_write bs (unat n - length bs)
         \<and> pb_decode_tag e' (pb_istream_from_buffer (bs @ ys) (of_nat (length (bs @ ys))))
             = (Some (w, t), False, pb_istream_from_buffer ys (of_nat (length ys)))))"
proof (intro conjI impI)
  have "8 \<le> unat n" using assms(1) by simp
  note fixed = fixed_buffers [OF this assms(2)]
  show "\<exists>bs t. pb_encode_fixed32 e f32 (pb_ostream_from_buffer n) = (True, t)
       \<and> os_sink t = Buf_write bs (unat n - 4)
       \<and> pb_decode_fixed32 e' (pb_istream_from_buffer (bs @ ys) (of_nat (length (bs @ ys))))
           = (Some f32, pb_istream_from_buffer ys (of_nat (length ys)))"
    by (rule fixed [THEN conjunct1])
  show "\<exists>bs t. pb_encode_fixed64 e f64 (pb_ostream_from_buffer n) = (True, t)
       \<and> os_sink t = Buf_write bs (unat n - 8)
       \<and> pb_decode_fixed64 e' (pb_istream_from_buffer (bs @ ys) (of_nat (length (bs @ ys))))
           = (Some f64, pb_istream_from_buffer ys (of_nat (length ys)))"
    by (rule fixed [THEN conjunct2])
qed (rule varint_buffers svarint_buffers tag_buffers; use assms in simp)+

theorem pb_wire_roundtrip_witness:
  "(\<exists>bs t. pb_encode_varint plain_env 300 (pb_ostream_from_buffer 10) = (True, t)
     \<and> os_sink t = Buf_write bs (unat (10 :: csize) - length bs)
     \<and> length bs \<le> 10 \<and> (\<forall>k. 0 < k \<longrightarrow> length bs \<le> k \<longleftrightarrow> unat (300 :: u64) < 2 ^ (7 * k))
     \<and> pb_decode_varint plain_env (pb_istream_from_buffer (bs @ [1, 2]) (of_nat (length (bs @ [1, 2]))))
         = (Some 300, pb_istream_from_buffer [1, 2] (of_nat (length [1, 2 :: byte]))))
   \<and> (\<exists>bs s. pb_encode_tag plain_env 2 1000 (pb_ostream_from_buffer 10) = (True, s)
     \<and> os_sink s = Buf_write bs (unat (10 :: csize) - length bs)
     \<and> pb_decode_tag plain_env (pb_istream_from_buffer (bs @ [1, 2]) (of_nat (length (bs @ [1, 2]))))
         = (Some (2, 1000), False, pb_istream_from_buffer [1, 2] (of_nat (length [1, 2 :: byte]))))"
proof -
  have "10 \<le> unat (10 :: csize)" "length [1, 2 :: byte] < 2 ^ 63" by simp_all
  note wire = pb_wire_roundtrip [OF this]
  show ?thesis
  proof (rule conjI)
    show "\<exists>bs s. pb_encode_tag plain_env 2 1000 (pb_ostream_from_buffer 10) = (True, s)
     \<and> os_sink s = Buf_write bs (unat (10 :: csize) - length bs)
     \<and> pb_decode_tag plain_env (pb_istream_from_buffer (bs @ [1, 2]) (of_nat (length (bs @ [1, 2]))))
         = (Some (2, 1000), False, pb_istream_from_buffer [1, 2] (of_nat (length [1, 2 :: byte])))"
      by (rule wire [THEN conjunct2, THEN conjunct2, THEN conjunct2, THEN conjunct2, THEN mp]) simp
  qed (rule wire [THEN conjunct1])
qed

text \<open>C8: \<open>pb_skip_field\<close> takes a field of any of the four wire types as a whole, and nothing more.\<close>

theorem pb_skip_field_exact:
  assumes "is_payload w xs" and "length (xs @ ys) < 2 ^ 64"
  shows "pb_skip_field e w (pb_istream_from_buffer (xs @ ys) (of_nat (length (xs @ ys))))
     = (True, pb_istream_from_buffer ys (of_nat (length ys)))"
  using pb_skip_field_starts [OF assms(1) from_buffer_starts(1) [OF assms(2)], of e]
    from_buffer_starts(2) [OF assms(2)] by simp

theorem pb_skip_field_exact_witness:
  "pb_skip_field plain_env 0 (pb_istream_from_buffer ([0xAC, 0x02] @ [9]) (of_nat (length [0xAC, 0x02, 9 :: byte])))
     = (True, pb_istream_from_buffer [9] (of_nat (length [9 :: byte])))"
  using pb_skip_field_exact [of 0 "[0xAC, 0x02]" "[9]" plain_env]
  by (simp add: is_payload_def bit_numeral_rec)

text \<open>C9: \<open>pb_decode_varint\<close> reports an error, and never a value, for a varint of more than ten bytes
  and for one that the end of the buffer cuts off.\<close>

theorem pb_decode_varint_errors:
  assumes "\<forall>x \<in> set xs. bit x 7"
  shows "(length xs = 10 \<longrightarrow> length ys < 2 ^ 63 \<longrightarrow>
       pb_decode_varint e (pb_istream_from_buffer (xs @ ys) (of_nat (length (xs @ ys))))
         = (None, PB_SET_ERROR_is ''varint overflow'' (pb_istream_from_buffer ys (of_nat (length ys)))))
     \<and> (length xs < 10 \<longrightarrow>
       pb_decode_varint e (pb_istream_from_buffer xs (of_nat (length xs)))
         = (None, PB_SET_ERROR_is ''end-of-stream'' (pb_istream_from_buffer [] 0)))"
proof (intro conjI impI)
  assume l: "length xs = 10" "length ys < 2 ^ 63"
  then have len: "length (xs @ ys) < 2 ^ 64" by simp
  show "pb_decode_varint e (pb_istream_from_buffer (xs @ ys) (of_nat (length (xs @ ys))))
      = (None, PB_SET_ERROR_is ''varint overflow'' (pb_istream_from_buffer ys (of_nat (length ys))))"
    using varint_loop_overflow [OF assms from_buffer_starts(1) [OF len], of 0 e 0] l
    unfolding from_buffer_starts(2) [OF len] by (simp add: pb_decode_varint_def)
next
  assume l: "length xs < 10"
  then have len: "length (xs @ []) < 2 ^ 64" by simp
  have "unat (is_bytes_left (pb_istream_from_buffer (xs @ []) (of_nat (length (xs @ []))) :: 'a istream))
      = length xs"
    using l by (simp add: pb_istream_from_buffer_def unat_of_nat take_bit_nat_eq_self)
  from varint_loop_truncated [OF assms from_buffer_starts(1) [OF len] _ this, of 0 e 0]
  have "varint_loop e 0 0 (pb_istream_from_buffer (xs @ []) (of_nat (length (xs @ []))))
      = (None, PB_SET_ERROR_is ''end-of-stream'' (pb_istream_from_buffer [] (of_nat (length ([] :: byte list)))))"
    unfolding from_buffer_starts(2) [OF len] using l by simp
  then show "pb_decode_varint e (pb_istream_from_buffer xs (of_nat (length xs)))
      = (None, PB_SET_ERROR_is ''end-of-stream'' (pb_istream_from_buffer [] 0))"
    by (simp add: pb_decode_varint_def)
qed

theorem pb_decode_varint_errors_witness:
  "pb_decode_varint plain_env (pb_istream_from_buffer [0x80, 0xFF] (of_nat (length [0x80, 0xFF :: byte])))
     = (None, PB_SET_ERROR_is ''end-of-stream'' (pb_istream_from_buffer [] 0))"
  using pb_decode_varint_errors [of "[0x80, 0xFF]" "[]" plain_env] by (simp add: bit_numeral_rec)

text \<open>C10: a length-delimited value is a stream of its own. \<open>pb_make_string_substream\<close> gives a
  substream with exactly the bytes of the value; whatever part of them is read, closing it leaves
  the parent right behind the value.\<close>

theorem pb_substream_exact:
  assumes "length (xs @ ys) < 2 ^ 63" and "unat n = length xs"
  shows "\<exists>sub s1. pb_make_string_substream e
         (pb_istream_from_buffer (varint32_code n @ xs @ ys) (of_nat (length (varint32_code n @ xs @ ys))))
       = (Some sub, s1)
     \<and> is_src sub = Buf_read (xs @ ys) \<and> unat (is_bytes_left sub) = length xs
     \<and> (\<forall>sub'. is_adv sub sub' \<and> is_errmsg sub' = None \<longrightarrow>
          pb_close_string_substream e s1 sub' = (True, pb_istream_from_buffer ys (of_nat (length ys))))"
proof -
  let ?c = "varint32_code n"
  let ?s = "pb_istream_from_buffer (?c @ xs @ ys) (of_nat (length (?c @ xs @ ys))) :: 'a istream"
  let ?rem = "pb_istream_from_buffer (xs @ ys) (of_nat (length (xs @ ys))) :: 'a istream"
  have "length ?c \<le> 5" by (rule varint32_code)
  then have len: "length (?c @ xs @ ys) < 2 ^ 64" using assms(1) by simp
  have len2: "length (xs @ ys) < 2 ^ 64" using assms(1) by simp
  have dec: "pb_decode_varint32 e ?s = (Some n, ?rem)"
    using varint32.dec_enc [OF TrueI from_buffer_starts(1) [OF len], of e]
    unfolding from_buffer_starts(2) [OF len] .
  have left: "unat (is_bytes_left ?rem) = length xs + length ys"
    using len2 by (simp only: pb_istream_from_buffer_def istream.simps unat_of_nat)
      (simp add: take_bit_nat_eq_self)
  then have ge: "\<not> is_bytes_left ?rem < ucast n"
    by (simp add: word_less_nat_alt assms(2))
  define sub where "sub = ?rem\<lparr>is_bytes_left := ucast n\<rparr>"
  define s1 where "s1 = ?rem\<lparr>is_bytes_left := is_bytes_left ?rem - ucast n\<rparr>"
  have make: "pb_make_string_substream e ?s = (Some sub, s1)"
    using ge unfolding pb_make_string_substream_def dec sub_def s1_def
    by (simp only: prod.case option.case if_False)
  have n: "(ucast n :: csize) = of_nat (length xs)" unfolding assms(2) [symmetric] by simp
  have s1: "s1 = pb_istream_from_buffer (xs @ ys) (of_nat (length ys))"
    by (simp add: s1_def n pb_istream_from_buffer_def)
  have "pb_close_string_substream e s1 sub' = (True, pb_istream_from_buffer ys (of_nat (length ys)))"
    if adv: "is_adv sub sub'" and err: "is_errmsg sub' = None" for sub'
  proof -
    let ?m = "unat (is_bytes_left sub')"
    have m: "?m \<le> length xs" "is_src sub' = Buf_read (drop (length xs - ?m) (xs @ ys))"
      using adv by (simp_all add: is_adv_def sub_def assms(2) pb_istream_from_buffer_def)
    have ok: "\<not> is_fault sub'"
      using adv len2 assms(2)
      by (simp add: is_adv_def is_ok_def sub_def pb_istream_from_buffer_def)
    let ?rest = "drop (length xs - ?m) xs"
    have st: "starts sub' ?rest"
      using m by (simp add: starts_Buf)
    have len_rest: "is_bytes_left sub' = of_nat (length ?rest)" using m(1) by simp
    have rd: "pb_read_null e (is_bytes_left sub') sub' = (True, is_skip (length ?rest) sub')"
      by (rule pb_read_null_starts [OF st len_rest])
    have skip: "is_src (is_skip (length ?rest) sub') = Buf_read ys"
      using m by (simp add: is_skip_def)
    have "(if is_bytes_left sub' \<noteq> 0 then pb_read_null e (is_bytes_left sub') sub' else (True, sub'))
        = (True, is_skip (length ?rest) sub')"
    proof (cases "is_bytes_left sub' = 0")
      case True
      then show ?thesis by simp
    next
      case False
      with rd show ?thesis by simp
    qed
    moreover have "is_errmsg (is_skip (length ?rest) sub') = None"
      "is_fault (is_skip (length ?rest) sub') = False"
      using err ok by (simp_all add: is_skip_def)
    ultimately show ?thesis
      using skip by (simp add: pb_close_string_substream_def s1 pb_istream_from_buffer_def)
  qed
  moreover have "is_src sub = Buf_read (xs @ ys)" "unat (is_bytes_left sub) = length xs"
    by (simp_all add: sub_def pb_istream_from_buffer_def assms(2))
  ultimately show ?thesis using make by blast
qed

theorem pb_substream_exact_witness:
  "\<exists>sub s1. pb_make_string_substream plain_env
         (pb_istream_from_buffer (varint32_code 2 @ [65, 66] @ [7])
           (of_nat (length (varint32_code 2 @ [65, 66] @ [7]))))
       = (Some sub, s1)
     \<and> is_src sub = Buf_read ([65, 66] @ [7]) \<and> unat (is_bytes_left sub) = length [65, 66 :: byte]
     \<and> (\<forall>sub'. is_adv sub sub' \<and> is_errmsg sub' = None \<longrightarrow>
          pb_close_string_substream plain_env s1 sub'
            = (True, pb_istream_from_buffer [7] (of_nat (length [7 :: byte]))))"
  by (rule pb_substream_exact) simp_all

end
