(* ===== verification/Pb_Encode.thy ===== *)
theory Pb_Encode imports Pb_Ostream Pb_Common begin

text \<open>
  \<open>nanopb/pb_encode.c\<close> from the field encoders up to \<open>pb_encode\<close>. The message is read from the heap,
  which the encoder never changes. The C functions call each other in a cycle (\<open>pb_encode\<close>, a field,
  a submessage, \<open>pb_encode\<close>): here each takes the inner \<open>pb_encode\<close> as an argument \<open>enc\<close>, and
  \<open>pb_encode\<close> ties the knot with a fuel that bounds the nesting of messages (and the length of the
  extension lists, which the code follows through memory). \<open>None\<close> means that there is no defined result: the
  fuel was too small, or the code called through a NULL entry of \<open>PB_ENCODERS\<close> or read past a
  local variable.
\<close>

type_synonym 'u enc_res = "(bool \<times> 'u ostream) option"
type_synonym 'u msg_encoder = "pb_field list \<Rightarrow> ptr \<Rightarrow> 'u ostream \<Rightarrow> 'u enc_res"

subsection \<open>Encoders of single fields\<close>

definition safe_read_bool :: "heap \<Rightarrow> ptr \<Rightarrow> bool" where
  "safe_read_bool h p \<longleftrightarrow> load8 h p \<noteq> 0"

definition pb_enc_bool :: "'u env \<Rightarrow> heap \<Rightarrow> pb_field \<Rightarrow> ptr \<Rightarrow> 'u ostream \<Rightarrow> bool \<times> 'u ostream" where
  "pb_enc_bool e h field src s = pb_encode_varint e (if safe_read_bool h src then 1 else 0) s"

text \<open>Signed members are sign-extended to 64 bits.\<close>

definition load_signed :: "heap \<Rightarrow> u32 \<Rightarrow> ptr \<Rightarrow> u64 option" where
  "load_signed h sz p =
     (if sz = 1 then Some (scast (load8 h p))
      else if sz = 2 then Some (scast (load16 h p))
      else if sz = 4 then Some (scast (load32 h p))
      else if sz = 8 then Some (load64 h p)
      else None)"

definition load_unsigned :: "heap \<Rightarrow> u32 \<Rightarrow> ptr \<Rightarrow> u64 option" where
  "load_unsigned h sz p =
     (if sz = 1 then Some (ucast (load8 h p))
      else if sz = 2 then Some (ucast (load16 h p))
      else if sz = 4 then Some (ucast (load32 h p))
      else if sz = 8 then Some (load64 h p)
      else None)"

definition pb_enc_varint :: "'u env \<Rightarrow> heap \<Rightarrow> pb_field \<Rightarrow> ptr \<Rightarrow> 'u ostream \<Rightarrow> bool \<times> 'u ostream" where
  "pb_enc_varint e h field src s =
     (case load_signed h (data_size field) src of
        None \<Rightarrow> (False, PB_SET_ERROR_os ''invalid data_size'' s)
      | Some value \<Rightarrow> pb_encode_varint e value s)"

definition pb_enc_uvarint :: "'u env \<Rightarrow> heap \<Rightarrow> pb_field \<Rightarrow> ptr \<Rightarrow> 'u ostream \<Rightarrow> bool \<times> 'u ostream" where
  "pb_enc_uvarint e h field src s =
     (case load_unsigned h (data_size field) src of
        None \<Rightarrow> (False, PB_SET_ERROR_os ''invalid data_size'' s)
      | Some value \<Rightarrow> pb_encode_varint e value s)"

definition pb_enc_svarint :: "'u env \<Rightarrow> heap \<Rightarrow> pb_field \<Rightarrow> ptr \<Rightarrow> 'u ostream \<Rightarrow> bool \<times> 'u ostream" where
  "pb_enc_svarint e h field src s =
     (case load_signed h (data_size field) src of
        None \<Rightarrow> (False, PB_SET_ERROR_os ''invalid data_size'' s)
      | Some value \<Rightarrow> pb_encode_svarint e value s)"

definition pb_enc_fixed64 :: "'u env \<Rightarrow> heap \<Rightarrow> pb_field \<Rightarrow> ptr \<Rightarrow> 'u ostream \<Rightarrow> bool \<times> 'u ostream" where
  "pb_enc_fixed64 e h field src s = pb_encode_fixed64 e (load64 h src) s"

definition pb_enc_fixed32 :: "'u env \<Rightarrow> heap \<Rightarrow> pb_field \<Rightarrow> ptr \<Rightarrow> 'u ostream \<Rightarrow> bool \<times> 'u ostream" where
  "pb_enc_fixed32 e h field src s = pb_encode_fixed32 e (load32 h src) s"

definition pb_enc_bytes :: "'u env \<Rightarrow> heap \<Rightarrow> pb_field \<Rightarrow> ptr \<Rightarrow> 'u ostream \<Rightarrow> bool \<times> 'u ostream" where
  "pb_enc_bytes e h field src s =
     (if src = 0 then pb_encode_string e [] 0 s
      else
        let n = load32 h src;
            allocsize = PB_BYTES_ARRAY_T_ALLOCSIZE (ucast n)
        in if allocsize < ucast n
              \<or> PB_ATYPE (ftype field) = PB_ATYPE_STATIC \<and> ucast (data_size field) < allocsize
           then (False, PB_SET_ERROR_os ''bytes size exceeded'' s)
           else pb_encode_string e (load_bytes h (bytes_array_bytes src) (unat n)) (ucast n) s)"

text \<open>The loop \<open>while (size < max_size && *p != 0) { size++; p++; }\<close>.\<close>

function str_len :: "heap \<Rightarrow> ptr \<Rightarrow> nat \<Rightarrow> nat" where
  "str_len h p max_size =
     (if 0 < max_size \<and> load8 h p \<noteq> 0 then Suc (str_len h (p + 1) (max_size - 1)) else 0)"
  by pat_completeness auto
termination
  by (relation "measure (\<lambda>(h, p, n). n)") auto

declare str_len.simps [simp del]

definition pb_enc_string :: "'u env \<Rightarrow> heap \<Rightarrow> pb_field \<Rightarrow> ptr \<Rightarrow> 'u ostream \<Rightarrow> bool \<times> 'u ostream" where
  "pb_enc_string e h field src s =
     (let max_size = (if PB_ATYPE (ftype field) = PB_ATYPE_POINTER then 2 ^ 64 - 1
                      else unat (data_size field));
          n = (if src = 0 then 0 else str_len h src max_size)
      in pb_encode_string e (load_bytes h src n) (of_nat n) s)"

definition pb_enc_fixed_length_bytes ::
  "'u env \<Rightarrow> heap \<Rightarrow> pb_field \<Rightarrow> ptr \<Rightarrow> 'u ostream \<Rightarrow> bool \<times> 'u ostream" where
  "pb_enc_fixed_length_bytes e h field src s =
     pb_encode_string e (load_bytes h src (unat (data_size field))) (ucast (data_size field)) s"

subsection \<open>Submessages\<close>

text \<open>The part after the size prefix; \<open>msg\<close> encodes the submessage, of which \<open>n\<close> bytes are expected.\<close>

definition submessage_body ::
  "('u ostream \<Rightarrow> 'u enc_res) \<Rightarrow> 'u env \<Rightarrow> csize \<Rightarrow> 'u ostream \<Rightarrow> 'u enc_res" where
  "submessage_body msg e n s =
     (if os_sink s = No_write then Some (pb_write e [] n s)
      else if os_max_size s < os_bytes_written s + n
      then Some (False, PB_SET_ERROR_os ''stream full'' s)
      else
        case msg \<lparr>os_sink = os_sink s, os_max_size = n, os_bytes_written = 0,
                  os_errmsg = None, os_fault = os_fault s\<rparr> of
          None \<Rightarrow> None
        | Some (status, sub) \<Rightarrow>
            let s' = s\<lparr>os_bytes_written := os_bytes_written s + os_bytes_written sub,
                       os_sink := os_sink sub, os_errmsg := os_errmsg sub,
                       os_fault := os_fault sub\<rparr>
            in if os_bytes_written sub \<noteq> n
               then Some (False, PB_SET_ERROR_os ''submsg size changed'' s')
               else Some (status, s'))"

definition pb_encode_submessage ::
  "'u msg_encoder \<Rightarrow> 'u env \<Rightarrow> pb_field list \<Rightarrow> ptr \<Rightarrow> 'u ostream \<Rightarrow> 'u enc_res" where
  "pb_encode_submessage enc e fs src s =
     (case enc fs src PB_OSTREAM_SIZING of
        None \<Rightarrow> None
      | Some (ok, sub) \<Rightarrow>
          if \<not> ok
          then Some (False, s\<lparr>os_errmsg := os_errmsg sub, os_fault := os_fault s \<or> os_fault sub\<rparr>)
          else
            and_then (Some (pb_encode_varint e (os_bytes_written sub) s))
              (submessage_body (enc fs src) e (os_bytes_written sub)))"

definition pb_enc_submessage ::
  "'u msg_encoder \<Rightarrow> 'u env \<Rightarrow> pb_field \<Rightarrow> ptr \<Rightarrow> 'u ostream \<Rightarrow> 'u enc_res" where
  "pb_enc_submessage enc e field src s =
     (if fptr field = 0 then Some (False, PB_SET_ERROR_os ''invalid field descriptor'' s)
      else pb_encode_submessage enc e (e_fields e (fptr field)) src s)"

text \<open>A call through \<open>PB_ENCODERS\<close>. Entry 9 is NULL and the table ends at 10.\<close>

definition PB_ENCODERS ::
  "'u msg_encoder \<Rightarrow> 'u env \<Rightarrow> heap \<Rightarrow> pb_field \<Rightarrow> ptr \<Rightarrow> 'u ostream \<Rightarrow> 'u enc_res" where
  "PB_ENCODERS enc e h field src s =
     (let l = PB_LTYPE (ftype field) in
      if l = PB_LTYPE_BOOL then Some (pb_enc_bool e h field src s)
      else if l = PB_LTYPE_VARINT then Some (pb_enc_varint e h field src s)
      else if l = PB_LTYPE_UVARINT then Some (pb_enc_uvarint e h field src s)
      else if l = PB_LTYPE_SVARINT then Some (pb_enc_svarint e h field src s)
      else if l = PB_LTYPE_FIXED32 then Some (pb_enc_fixed32 e h field src s)
      else if l = PB_LTYPE_FIXED64 then Some (pb_enc_fixed64 e h field src s)
      else if l = PB_LTYPE_BYTES then Some (pb_enc_bytes e h field src s)
      else if l = PB_LTYPE_STRING then Some (pb_enc_string e h field src s)
      else if l = PB_LTYPE_SUBMESSAGE then pb_enc_submessage enc e field src s
      else if l = PB_LTYPE_FIXED_LENGTH_BYTES then Some (pb_enc_fixed_length_bytes e h field src s)
      else None)"

subsection \<open>Arrays\<close>

text \<open>The loop over \<open>n\<close> items of the given size from \<open>p\<close> on.\<close>

primrec enc_items ::
  "(ptr \<Rightarrow> 'u ostream \<Rightarrow> 'u enc_res) \<Rightarrow> csize \<Rightarrow> nat \<Rightarrow> ptr \<Rightarrow> 'u ostream \<Rightarrow> 'u enc_res" where
  "enc_items f sz 0 p s = Some (True, s)"
| "enc_items f sz (Suc n) p s = and_then (f p s) (enc_items f sz n (p + sz))"

definition packed_size ::
  "(ptr \<Rightarrow> 'u ostream \<Rightarrow> 'u enc_res) \<Rightarrow> pb_field \<Rightarrow> ptr \<Rightarrow> u32 \<Rightarrow> csize option option" where
  "packed_size func field p count =
     (if PB_LTYPE (ftype field) = PB_LTYPE_FIXED32 then Some (Some (4 * ucast count))
      else if PB_LTYPE (ftype field) = PB_LTYPE_FIXED64 then Some (Some (8 * ucast count))
      else case enc_items func (ucast (data_size field)) (unat count) p PB_OSTREAM_SIZING of
        None \<Rightarrow> None
      | Some (ok, sizestream) \<Rightarrow> Some (if ok then Some (os_bytes_written sizestream) else None))"

definition encode_array ::
  "'u env \<Rightarrow> heap \<Rightarrow> pb_field \<Rightarrow> ptr \<Rightarrow> u32 \<Rightarrow> (ptr \<Rightarrow> 'u ostream \<Rightarrow> 'u enc_res)
     \<Rightarrow> 'u ostream \<Rightarrow> 'u enc_res" where
  "encode_array e h field p count func s =
     (let t = ftype field; sz = ucast (data_size field) in
      if count = 0 then Some (True, s)
      else if PB_ATYPE t \<noteq> PB_ATYPE_POINTER \<and> array_size field < count
      then Some (False, PB_SET_ERROR_os ''array max size exceeded'' s)
      else if PB_LTYPE t \<le> PB_LTYPE_LAST_PACKABLE then
        and_then (Some (pb_encode_tag e PB_WT_STRING (tag field) s)) (\<lambda>s.
          case packed_size func field p count of
            None \<Rightarrow> None
          | Some None \<Rightarrow> Some (False, s)
          | Some (Some n) \<Rightarrow>
              and_then (Some (pb_encode_varint e n s)) (\<lambda>s.
                if os_sink s = No_write then Some (pb_write e [] n s)
                else enc_items func sz (unat count) p s))
      else
        enc_items (\<lambda>p s.
          and_then (Some (pb_encode_tag_for_field e field s)) (\<lambda>s.
            if PB_ATYPE t = PB_ATYPE_POINTER
               \<and> (PB_LTYPE t = PB_LTYPE_STRING \<or> PB_LTYPE t = PB_LTYPE_BYTES)
            then func (load64 h p) s else func p s)) sz (unat count) p s)"

subsection \<open>Presence of proto3 fields\<close>

text \<open>\<open>chk\<close> is the recursive call on the members of a submessage.\<close>

definition check_proto3_body ::
  "(pb_field \<Rightarrow> ptr \<Rightarrow> bool option) \<Rightarrow> 'u env \<Rightarrow> heap \<Rightarrow> pb_field \<Rightarrow> ptr \<Rightarrow> bool option" where
  "check_proto3_body chk e h field p =
     (let t = ftype field; pSz = p + scast (size_offset field) in
      if PB_HTYPE t = PB_HTYPE_REQUIRED then Some False
      else if PB_HTYPE t = PB_HTYPE_REPEATED \<and> size_offset field \<noteq> 0
      then Some (load32 h pSz = 0)
      else if PB_HTYPE t = PB_HTYPE_REPEATED \<and> PB_ATYPE t = PB_ATYPE_STATIC then Some False
      else if PB_HTYPE t = PB_HTYPE_ONEOF then Some (load32 h pSz = 0)
      else if PB_HTYPE t = PB_HTYPE_OPTIONAL \<and> size_offset field \<noteq> 0
      then Some (\<not> safe_read_bool h pSz)
      else if PB_ATYPE t = PB_ATYPE_STATIC \<and> PB_LTYPE t = PB_LTYPE_BYTES
      then Some (load32 h p = 0)
      else if PB_ATYPE t = PB_ATYPE_STATIC \<and> PB_LTYPE t = PB_LTYPE_STRING
      then Some (load8 h p = 0)
      else if PB_ATYPE t = PB_ATYPE_STATIC \<and> PB_LTYPE t = PB_LTYPE_FIXED_LENGTH_BYTES
      then Some (data_size field = 0)
      else if PB_ATYPE t = PB_ATYPE_STATIC \<and> PB_LTYPE t = PB_LTYPE_SUBMESSAGE
      then
        case pb_field_iter_begin (e_fields e (fptr field)) p of
          (nonempty, it) \<Rightarrow>
            if nonempty
            then map_option fst (iter_loop (\<lambda>it u. map_option (\<lambda>b. (b, u))
                   (chk (it_field it) (pData it))) it ())
            else Some True
      else if PB_ATYPE t = PB_ATYPE_POINTER \<and> PB_LTYPE_LAST_PACKABLE < PB_LTYPE t
      then Some (load64 h p = 0)
      else Some (list_all (\<lambda>b. b = 0) (load_bytes h p (unat (data_size field)))))"

primrec pb_check_proto3_default_value ::
  "nat \<Rightarrow> 'u env \<Rightarrow> heap \<Rightarrow> pb_field \<Rightarrow> ptr \<Rightarrow> bool option" where
  "pb_check_proto3_default_value 0 e h field p = None"
| "pb_check_proto3_default_value (Suc n) e h field p =
     check_proto3_body (pb_check_proto3_default_value n e h) e h field p"

subsection \<open>Fields\<close>

text \<open>
  Without a size offset, \<open>pSize\<close> points to the local \<open>implicit_has\<close>; a oneof without size offset
  would read four bytes from that one-byte variable.
\<close>

definition encode_basic_field ::
  "'u msg_encoder \<Rightarrow> nat \<Rightarrow> 'u env \<Rightarrow> heap \<Rightarrow> pb_field \<Rightarrow> ptr \<Rightarrow> 'u ostream \<Rightarrow> 'u enc_res" where
  "encode_basic_field enc n e h field p0 s =
     (let t = ftype field; func = PB_ENCODERS enc e h field;
          pSz = p0 + scast (size_offset field) in
      case (if size_offset field \<noteq> 0 then Some True
            else if PB_HTYPE t = PB_HTYPE_OPTIONAL
            then map_option Not (pb_check_proto3_default_value n e h field p0)
            else Some True) of
        None \<Rightarrow> None
      | Some has0 \<Rightarrow>
          let p = (if PB_ATYPE t = PB_ATYPE_POINTER then load64 h p0 else p0);
              implicit_has = (if PB_ATYPE t = PB_ATYPE_POINTER then p \<noteq> 0 else has0)
          in
          if PB_HTYPE t = PB_HTYPE_REQUIRED then
            if p = 0 then Some (False, PB_SET_ERROR_os ''missing required field'' s)
            else and_then (Some (pb_encode_tag_for_field e field s)) (func p)
          else if PB_HTYPE t = PB_HTYPE_OPTIONAL then
            if (if size_offset field \<noteq> 0 then safe_read_bool h pSz else implicit_has)
            then and_then (Some (pb_encode_tag_for_field e field s)) (func p)
            else Some (True, s)
          else if PB_HTYPE t = PB_HTYPE_REPEATED then
            encode_array e h field p
              (if size_offset field \<noteq> 0 then load32 h pSz else array_size field) func s
          else if size_offset field = 0 then None
          else if load32 h pSz = tag field
          then and_then (Some (pb_encode_tag_for_field e field s)) (func p)
          else Some (True, s))"

definition encode_callback_field ::
  "'u env \<Rightarrow> heap \<Rightarrow> pb_field \<Rightarrow> ptr \<Rightarrow> 'u ostream \<Rightarrow> 'u enc_res" where
  "encode_callback_field e h field p s =
     (if callback_func h p \<noteq> 0 then
        case e_enc_cb e (callback_func h p) s field (callback_arg p) h of
          (ok, s') \<Rightarrow> Some (if ok then (True, s') else (False, PB_SET_ERROR_os ''callback error'' s'))
      else Some (True, s))"

definition encode_field ::
  "'u msg_encoder \<Rightarrow> nat \<Rightarrow> 'u env \<Rightarrow> heap \<Rightarrow> pb_field \<Rightarrow> ptr \<Rightarrow> 'u ostream \<Rightarrow> 'u enc_res" where
  "encode_field enc n e h field p s =
     (let a = PB_ATYPE (ftype field) in
      if a = PB_ATYPE_STATIC \<or> a = PB_ATYPE_POINTER then encode_basic_field enc n e h field p s
      else if a = PB_ATYPE_CALLBACK then encode_callback_field e h field p s
      else Some (False, PB_SET_ERROR_os ''invalid field type'' s))"

definition default_extension_encoder ::
  "'u msg_encoder \<Rightarrow> nat \<Rightarrow> 'u env \<Rightarrow> heap \<Rightarrow> ptr \<Rightarrow> 'u ostream \<Rightarrow> 'u enc_res" where
  "default_extension_encoder enc n e h ext s =
     (let field = field_at (e_fields e (ext_type_arg h (ext_type h ext))) 0 in
      if PB_ATYPE (ftype field) = PB_ATYPE_POINTER
      then encode_field enc n e h field (ext_dest_addr ext) s
      else encode_field enc n e h field (ext_dest h ext) s)"

text \<open>The loop over the linked list of extensions; \<open>k\<close> bounds its length.\<close>

primrec extension_loop ::
  "nat \<Rightarrow> 'u msg_encoder \<Rightarrow> nat \<Rightarrow> 'u env \<Rightarrow> heap \<Rightarrow> ptr \<Rightarrow> 'u ostream \<Rightarrow> 'u enc_res" where
  "extension_loop 0 enc n e h ext s = None"
| "extension_loop (Suc k) enc n e h ext s =
     (if ext = 0 then Some (True, s)
      else and_then
        (if ext_type_encode h (ext_type h ext) \<noteq> 0
         then Some (e_ext_enc e (ext_type_encode h (ext_type h ext)) s ext h)
         else default_extension_encoder enc n e h ext s)
        (extension_loop k enc n e h (ext_next h ext)))"

definition encode_extension_field ::
  "'u msg_encoder \<Rightarrow> nat \<Rightarrow> 'u env \<Rightarrow> heap \<Rightarrow> pb_field \<Rightarrow> ptr \<Rightarrow> 'u ostream \<Rightarrow> 'u enc_res" where
  "encode_extension_field enc n e h field p s = extension_loop n enc n e h (load64 h p) s"

subsection \<open>Messages\<close>

definition encode_iter ::
  "'u msg_encoder \<Rightarrow> nat \<Rightarrow> 'u env \<Rightarrow> heap \<Rightarrow> iter \<Rightarrow> 'u ostream \<Rightarrow> 'u enc_res" where
  "encode_iter enc n e h it s =
     (if PB_LTYPE (ftype (it_field it)) = PB_LTYPE_EXTENSION
      then encode_extension_field enc n e h (it_field it) (pData it) s
      else encode_field enc n e h (it_field it) (pData it) s)"

primrec pb_encode :: "nat \<Rightarrow> 'u env \<Rightarrow> heap \<Rightarrow> 'u msg_encoder" where
  "pb_encode 0 e h fs src s = None"
| "pb_encode (Suc n) e h fs src s =
     (case pb_field_iter_begin fs src of
        (nonempty, it) \<Rightarrow>
          if nonempty then iter_loop (encode_iter (pb_encode n e h) n e h) it s
          else Some (True, s))"

definition pb_encode_delimited :: "nat \<Rightarrow> 'u env \<Rightarrow> heap \<Rightarrow> 'u msg_encoder" where
  "pb_encode_delimited n e h fs src s = pb_encode_submessage (pb_encode n e h) e fs src s"

definition pb_encode_nullterminated :: "nat \<Rightarrow> 'u env \<Rightarrow> heap \<Rightarrow> 'u msg_encoder" where
  "pb_encode_nullterminated n e h fs src s =
     and_then (pb_encode n e h fs src s) (\<lambda>s. Some (pb_write e [0] 1 s))"

text \<open>\<open>Some None\<close> is the result false.\<close>

definition pb_get_encoded_size ::
  "nat \<Rightarrow> 'u env \<Rightarrow> heap \<Rightarrow> pb_field list \<Rightarrow> ptr \<Rightarrow> csize option option" where
  "pb_get_encoded_size n e h fs src =
     (case pb_encode n e h fs src PB_OSTREAM_SIZING of
        None \<Rightarrow> None
      | Some (ok, s) \<Rightarrow> Some (if ok then Some (os_bytes_written s) else None))"

end
