(* ===== verification/Pb_Encode_Ref.thy ===== *)
theory Pb_Encode_Ref imports Pb_Encode Pb_Wire begin

text \<open>
  What \<open>pb_encode\<close> promises, as a function from the message in memory to bytes, without streams,
  sizing passes or iterators: \<open>message_code\<close>. The result is \<open>Some (True, xs)\<close> for the encoding \<open>xs\<close>,
  \<open>Some (False, xs)\<close> for an error after the bytes \<open>xs\<close>, and \<open>None\<close> where the C code has no defined
  result. \<open>realises st f r\<close> says that the encoder \<open>f\<close> implements the result \<open>r\<close> on sizing streams and
  memory buffers: it puts out exactly these bytes where they fit, and reports an error, leaving the
  buffer bounds intact, where they do not; with \<open>st\<close>, it has then put out a prefix of them.
\<close>

subsection \<open>Bytes or an error\<close>

type_synonym code_res = "(bool \<times> byte list) option"

definition code_ok :: "byte list \<Rightarrow> code_res" where
  "code_ok xs = Some (True, xs)"

definition code_fail :: code_res where
  "code_fail = Some (False, [])"

definition code_seq :: "code_res \<Rightarrow> code_res \<Rightarrow> code_res" where
  "code_seq r q = (case r of None \<Rightarrow> None
     | Some (ok, xs) \<Rightarrow>
         if ok then map_option (\<lambda>(b, ys). (b, xs @ ys)) q else Some (False, xs))"

primrec code_list :: "code_res list \<Rightarrow> code_res" where
  "code_list [] = code_ok []"
| "code_list (r # rs) = code_seq r (code_list rs)"

text \<open>A length-delimited value: an error inside comes before any byte of it goes out.\<close>

definition code_delimited :: "code_res \<Rightarrow> code_res" where
  "code_delimited r = (case r of None \<Rightarrow> None
     | Some (ok, xs) \<Rightarrow> if ok then code_ok (string_code xs) else code_fail)"

subsection \<open>Values\<close>

definition signed_code :: "heap \<Rightarrow> pb_field \<Rightarrow> ptr \<Rightarrow> (u64 \<Rightarrow> u64) \<Rightarrow> code_res" where
  "signed_code h field p f = (case load_signed h (data_size field) p of
     None \<Rightarrow> code_fail | Some v \<Rightarrow> code_ok (varint_code (f v)))"

definition unsigned_code :: "heap \<Rightarrow> pb_field \<Rightarrow> ptr \<Rightarrow> code_res" where
  "unsigned_code h field p = (case load_unsigned h (data_size field) p of
     None \<Rightarrow> code_fail | Some v \<Rightarrow> code_ok (varint_code v))"

definition bytes_code :: "heap \<Rightarrow> pb_field \<Rightarrow> ptr \<Rightarrow> code_res" where
  "bytes_code h field p =
     (if p = 0 then code_ok (string_code [])
      else if PB_ATYPE (ftype field) = PB_ATYPE_STATIC
              \<and> unat (data_size field) < unat (load32 h p) + 4
      then code_fail
      else code_ok (string_code (load_bytes h (p + 4) (unat (load32 h p)))))"

definition string_value :: "heap \<Rightarrow> pb_field \<Rightarrow> ptr \<Rightarrow> byte list" where
  "string_value h field p =
     (if p = 0 then []
      else load_bytes h p (str_len h p
        (if PB_ATYPE (ftype field) = PB_ATYPE_POINTER then 2 ^ 64 - 1
         else unat (data_size field))))"

text \<open>The value of type \<open>LTYPE\<close> at \<open>p\<close>; \<open>sub\<close> is the encoding of a submessage.\<close>

definition value_code ::
  "(pb_field list \<Rightarrow> ptr \<Rightarrow> code_res) \<Rightarrow> 'u env \<Rightarrow> heap \<Rightarrow> pb_field \<Rightarrow> ptr \<Rightarrow> code_res" where
  "value_code sub e h field p =
     (let l = PB_LTYPE (ftype field) in
      if l = PB_LTYPE_BOOL then code_ok (varint_code (if safe_read_bool h p then 1 else 0))
      else if l = PB_LTYPE_VARINT then signed_code h field p (\<lambda>v. v)
      else if l = PB_LTYPE_UVARINT then unsigned_code h field p
      else if l = PB_LTYPE_SVARINT then signed_code h field p zigzag
      else if l = PB_LTYPE_FIXED32 then code_ok (load_bytes h p 4)
      else if l = PB_LTYPE_FIXED64 then code_ok (load_bytes h p 8)
      else if l = PB_LTYPE_BYTES then bytes_code h field p
      else if l = PB_LTYPE_STRING then code_ok (string_code (string_value h field p))
      else if l = PB_LTYPE_SUBMESSAGE
      then if fptr field = 0 then code_fail else code_delimited (sub (e_fields e (fptr field)) p)
      else if l = PB_LTYPE_FIXED_LENGTH_BYTES
      then code_ok (string_code (load_bytes h p (unat (data_size field))))
      else None)"

definition wire_type_of :: "byte \<Rightarrow> u32 option" where
  "wire_type_of l =
     (if l \<in> {PB_LTYPE_BOOL, PB_LTYPE_VARINT, PB_LTYPE_UVARINT, PB_LTYPE_SVARINT}
      then Some PB_WT_VARINT
      else if l = PB_LTYPE_FIXED32 then Some PB_WT_32BIT
      else if l = PB_LTYPE_FIXED64 then Some PB_WT_64BIT
      else if l \<in> {PB_LTYPE_BYTES, PB_LTYPE_STRING, PB_LTYPE_SUBMESSAGE,
                   PB_LTYPE_FIXED_LENGTH_BYTES}
      then Some PB_WT_STRING else None)"

definition tag_code :: "u32 \<Rightarrow> u32 \<Rightarrow> byte list" where
  "tag_code wiretype field_number = varint_code (push_bit 3 (ucast field_number) OR ucast wiretype)"

definition field_tag_code :: "pb_field \<Rightarrow> code_res" where
  "field_tag_code field = (case wire_type_of (PB_LTYPE (ftype field)) of
     None \<Rightarrow> code_fail | Some wt \<Rightarrow> code_ok (tag_code wt (tag field)))"

subsection \<open>Arrays\<close>

definition item_addrs :: "csize \<Rightarrow> nat \<Rightarrow> ptr \<Rightarrow> ptr list" where
  "item_addrs sz n p = map (\<lambda>i. p + of_nat i * sz) [0..<n]"

definition array_code ::
  "heap \<Rightarrow> pb_field \<Rightarrow> ptr \<Rightarrow> u32 \<Rightarrow> (ptr \<Rightarrow> code_res) \<Rightarrow> code_res" where
  "array_code h field p count val =
     (let t = ftype field;
          addrs = item_addrs (ucast (data_size field)) (unat count) p;
          indirect = (PB_ATYPE t = PB_ATYPE_POINTER
                      \<and> (PB_LTYPE t = PB_LTYPE_STRING \<or> PB_LTYPE t = PB_LTYPE_BYTES)) in
      if count = 0 then code_ok []
      else if PB_ATYPE t \<noteq> PB_ATYPE_POINTER \<and> array_size field < count then code_fail
      else if PB_LTYPE t \<le> PB_LTYPE_LAST_PACKABLE
      then code_seq (code_ok (tag_code PB_WT_STRING (tag field)))
             (code_delimited (code_list (map val addrs)))
      else code_list (map (\<lambda>q. code_seq (field_tag_code field)
             (val (if indirect then load64 h q else q))) addrs))"

subsection \<open>Fields and messages\<close>

text \<open>Whether a field without an explicit presence member is encoded.\<close>

definition basic_field_code ::
  "(pb_field list \<Rightarrow> ptr \<Rightarrow> code_res) \<Rightarrow> nat \<Rightarrow> 'u env \<Rightarrow> heap \<Rightarrow> pb_field \<Rightarrow> ptr \<Rightarrow> code_res" where
  "basic_field_code sub n e h field p0 =
     (let t = ftype field; val = value_code sub e h field;
          p = (if PB_ATYPE t = PB_ATYPE_POINTER then load64 h p0 else p0);
          pSz = p0 + scast (size_offset field);
          tagged = code_seq (field_tag_code field) (val p) in
      if PB_HTYPE t = PB_HTYPE_REQUIRED then if p = 0 then code_fail else tagged
      else if PB_HTYPE t = PB_HTYPE_OPTIONAL then
        if size_offset field \<noteq> 0 then if safe_read_bool h pSz then tagged else code_ok []
        else (case pb_check_proto3_default_value n e h field p0 of
                None \<Rightarrow> None
              | Some dflt \<Rightarrow>
                  if PB_ATYPE t = PB_ATYPE_POINTER then if p \<noteq> 0 then tagged else code_ok []
                  else if \<not> dflt then tagged else code_ok [])
      else if PB_HTYPE t = PB_HTYPE_REPEATED then
        array_code h field p
          (if size_offset field \<noteq> 0 then load32 h pSz else array_size field) val
      else if size_offset field = 0 then None
      else if load32 h pSz = tag field then tagged else code_ok [])"

text \<open>\<open>cb\<close> and \<open>xt\<close> are what the application's callbacks and extension encoders put out.\<close>

definition field_code ::
  "(pb_field list \<Rightarrow> ptr \<Rightarrow> code_res) \<Rightarrow> (ptr \<Rightarrow> pb_field \<Rightarrow> ptr \<Rightarrow> code_res) \<Rightarrow> nat \<Rightarrow> 'u env
     \<Rightarrow> heap \<Rightarrow> pb_field \<Rightarrow> ptr \<Rightarrow> code_res" where
  "field_code sub cb n e h field p =
     (let a = PB_ATYPE (ftype field) in
      if a = PB_ATYPE_STATIC \<or> a = PB_ATYPE_POINTER then basic_field_code sub n e h field p
      else if a = PB_ATYPE_CALLBACK
      then if callback_func h p \<noteq> 0 then cb (callback_func h p) field (callback_arg p)
           else code_ok []
      else code_fail)"

primrec extension_code ::
  "nat \<Rightarrow> (ptr \<Rightarrow> ptr \<Rightarrow> code_res) \<Rightarrow> (pb_field \<Rightarrow> ptr \<Rightarrow> code_res) \<Rightarrow> 'u env \<Rightarrow> heap \<Rightarrow> ptr
     \<Rightarrow> code_res" where
  "extension_code 0 xt fld e h ext = None"
| "extension_code (Suc k) xt fld e h ext =
     (if ext = 0 then code_ok []
      else code_seq
        (let ty = ext_type h ext in
         if ext_type_encode h ty \<noteq> 0 then xt (ext_type_encode h ty) ext
         else let field = field_at (e_fields e (ext_type_arg h ty)) 0 in
           fld field (if PB_ATYPE (ftype field) = PB_ATYPE_POINTER then ext_dest_addr ext
                      else ext_dest h ext))
        (extension_code k xt fld e h (ext_next h ext)))"

text \<open>The members of a message with their addresses.\<close>

definition members :: "pb_field list \<Rightarrow> ptr \<Rightarrow> (pb_field \<times> ptr) list" where
  "members fs d = map (\<lambda>k. (field_at fs k, d + struct_offset fs k)) [0..<n_fields fs]"

primrec message_code ::
  "nat \<Rightarrow> (ptr \<Rightarrow> pb_field \<Rightarrow> ptr \<Rightarrow> code_res) \<Rightarrow> (ptr \<Rightarrow> ptr \<Rightarrow> code_res) \<Rightarrow> 'u env \<Rightarrow> heap
     \<Rightarrow> pb_field list \<Rightarrow> ptr \<Rightarrow> code_res" where
  "message_code 0 cb xt e h fs d = None"
| "message_code (Suc n) cb xt e h fs d =
     code_list (map (\<lambda>(field, p).
       let fld = field_code (message_code n cb xt e h) cb n e h in
       if PB_LTYPE (ftype field) = PB_LTYPE_EXTENSION
       then extension_code n xt fld e h (load64 h p)
       else fld field p) (members fs d))"

subsection \<open>Realising a code\<close>

text \<open>The buffer bounds: the sink has room for all that the stream may still take.\<close>

definition os_ok :: "'u ostream \<Rightarrow> bool" where
  "os_ok s \<longleftrightarrow> \<not> os_fault s \<and> (case os_sink s of
     Buf_write w r \<Rightarrow> unat (os_bytes_written s) \<le> unat (os_max_size s)
       \<and> unat (os_max_size s) - unat (os_bytes_written s) \<le> r
   | _ \<Rightarrow> True)"

text \<open>A sizing or buffer stream without an error, whose byte counter can count \<open>n\<close> more bytes.\<close>

definition ready :: "'u ostream \<Rightarrow> nat \<Rightarrow> bool" where
  "ready s n \<longleftrightarrow> os_ok s \<and> os_errmsg s = None \<and> (case os_sink s of
     No_write \<Rightarrow> True
   | Buf_write w r \<Rightarrow> unat (os_bytes_written s) + n < 2 ^ 64
   | User_write u \<Rightarrow> False)"

text \<open>What an encoder that stops with an error has put out: the first \<open>m\<close> of the bytes \<open>xs\<close>.\<close>

definition wrote_prefix :: "byte list \<Rightarrow> 'u ostream \<Rightarrow> 'u ostream \<Rightarrow> bool" where
  "wrote_prefix xs s t \<longleftrightarrow> (\<exists>m \<le> length xs. fits m s \<and> os_sink t = os_sink (writes (take m xs) s))"

text \<open>If \<open>st\<close> is true, the bytes that go out before an error count; it is false for callbacks of which only
  the result is known.\<close>

definition outcome :: "bool \<Rightarrow> bool \<Rightarrow> byte list \<Rightarrow> 'u ostream \<Rightarrow> 'u enc_res \<Rightarrow> bool" where
  "outcome st ok xs s r \<longleftrightarrow>
     (if ok \<and> fits (length xs) s then r = Some (True, writes xs s)
      else (\<exists>t. r = Some (False, t) \<and> os_ok t \<and> (st \<longrightarrow> wrote_prefix xs s t)))"

definition realises :: "bool \<Rightarrow> ('u ostream \<Rightarrow> 'u enc_res) \<Rightarrow> code_res \<Rightarrow> bool" where
  "realises st f r \<longleftrightarrow>
     (\<forall>ok xs s. r = Some (ok, xs) \<longrightarrow> ready s (length xs) \<longrightarrow> outcome st ok xs s (f s))"

lemma realisesI:
  "(\<And>ok xs s. r = Some (ok, xs) \<Longrightarrow> ready s (length xs) \<Longrightarrow> outcome st ok xs s (f s)) \<Longrightarrow> realises st f r"
  by (auto simp: realises_def)

lemma realisesD:
  "realises st f r \<Longrightarrow> r = Some (ok, xs) \<Longrightarrow> ready s (length xs) \<Longrightarrow> outcome st ok xs s (f s)"
  by (auto simp: realises_def)

lemma realises_None [simp]: "realises st f None"
  by (simp add: realises_def)

lemma os_ok_PB_SET_ERROR [simp]: "os_ok (PB_SET_ERROR_os m s) = os_ok s"
  by (simp add: os_ok_def PB_SET_ERROR_os_def split: os_dest.split)

lemma os_ok_errmsg [simp]: "os_ok (s\<lparr>os_errmsg := m\<rparr>) = os_ok s"
  by (simp add: os_ok_def split: os_dest.split)

lemma ready_mono: "ready s n \<Longrightarrow> m \<le> n \<Longrightarrow> ready s m"
  by (auto simp: ready_def split: os_dest.splits)

lemma ready_ok: "ready s n \<Longrightarrow> os_ok s"
  by (simp add: ready_def)

lemma ready_sizing [simp]: "ready PB_OSTREAM_SIZING n"
  by (simp add: ready_def os_ok_def PB_OSTREAM_SIZING_def)

lemma fits_sizing [simp]: "fits n PB_OSTREAM_SIZING"
  by (simp add: fits_def PB_OSTREAM_SIZING_def)

lemma ready_writes:
  assumes "ready s (length xs + n)" and "fits (length xs) s"
  shows "ready (writes xs s) n"
proof (cases "os_sink s")
  case (Buf_write w r)
  with assms have "unat (os_bytes_written s + of_nat (length xs))
      = unat (os_bytes_written s) + length xs"
    by (intro unat_plus_nat) (simp add: ready_def)
  with Buf_write assms show ?thesis
    by (auto simp: ready_def os_ok_def fits_def writes_def)
qed (use assms in \<open>auto simp: ready_def os_ok_def fits_def writes_def\<close>)

lemma fits_0: "os_ok s \<Longrightarrow> ready s n \<Longrightarrow> fits 0 s"
  by (auto simp: fits_def os_ok_def ready_def split: os_dest.splits)

lemma wrote_nothing: "ready s n \<Longrightarrow> os_sink t = os_sink s \<Longrightarrow> wrote_prefix xs s t"
  unfolding wrote_prefix_def by (rule exI [of _ 0]) (simp add: fits_0 ready_ok)

lemma PB_SET_ERROR_sink [simp]: "os_sink (PB_SET_ERROR_os m s) = os_sink s"
  by (simp add: PB_SET_ERROR_os_def)

lemma realises_fail:
  "(\<And>s. os_ok s \<Longrightarrow> \<exists>t. f s = Some (False, t) \<and> os_ok t \<and> os_sink t = os_sink s) \<Longrightarrow> realises st f code_fail"
  by (auto simp: realises_def code_fail_def outcome_def dest: ready_ok intro: wrote_nothing)

lemma realises_error [simp]: "realises st (\<lambda>s. Some (False, PB_SET_ERROR_os m s)) code_fail"
  by (simp add: realises_fail)

lemma realises_skip [simp]: "realises st (\<lambda>s. Some (True, s)) (code_ok [])"
  by (auto simp: realises_def code_ok_def outcome_def fits_def ready_def os_ok_def
      split: os_dest.splits)

lemma fits_append_iff:
  assumes "ready s (length xs + n)" and "fits (length xs) s"
  shows "fits (length xs + n) s \<longleftrightarrow> fits n (writes xs s)"
proof (cases "os_sink s")
  case (Buf_write w r)
  with assms have "unat (os_bytes_written s + of_nat (length xs))
      = unat (os_bytes_written s) + length xs"
    by (intro unat_plus_nat) (simp add: ready_def)
  with Buf_write assms show ?thesis by (auto simp: fits_def writes_def)
qed (use assms in \<open>auto simp: fits_def writes_def\<close>)

lemma wrote_prefix_append1: "wrote_prefix ys s t \<Longrightarrow> wrote_prefix (ys @ zs) s t"
  unfolding wrote_prefix_def by (elim exE conjE, intro exI conjI) auto

lemma wrote_prefix_append2:
  assumes "ready s (length ys + length zs)" "fits (length ys) s" "wrote_prefix zs (writes ys s) t"
  shows "wrote_prefix (ys @ zs) s t"
proof -
  obtain m where m: "m \<le> length zs" "fits m (writes ys s)" "os_sink t = os_sink (writes (take m zs) (writes ys s))"
    using assms(3) unfolding wrote_prefix_def by blast
  have "ready s (length ys + m)" using assms(1) by (rule ready_mono) (simp add: m(1))
  then have "fits (length ys + m) s" using fits_append_iff assms(2) m(2) by blast
  with m show ?thesis unfolding wrote_prefix_def by (intro exI [of _ "length ys + m"]) simp
qed

lemma realises_seq:
  assumes f: "realises st f r" and g: "realises st g q"
  shows "realises st (\<lambda>s. and_then (f s) g) (code_seq r q)"
proof (rule realisesI)
  fix ok xs and s :: "'a ostream"
  assume c: "code_seq r q = Some (ok, xs)" and s: "ready s (length xs)"
  then obtain ok1 ys where r: "r = Some (ok1, ys)"
    by (auto simp: code_seq_def split: option.splits)
  show "outcome st ok xs s (and_then (f s) g)"
  proof (cases ok1)
    case False
    with c r have "xs = ys" "\<not> ok" by (auto simp: code_seq_def)
    with realisesD [OF f r, of s] s False show ?thesis by (auto simp: outcome_def)
  next
    case True
    with c r obtain zs where q: "q = Some (ok, zs)" and xs: "xs = ys @ zs"
      by (auto simp: code_seq_def)
    have s1: "ready s (length ys)" using s by (rule ready_mono) (simp add: xs)
    have fs: "outcome st True ys s (f s)" using realisesD [OF f r s1] True by simp
    show ?thesis
    proof (cases "fits (length ys) s")
      case True
      have "ready (writes ys s) (length zs)" using s True by (simp add: xs ready_writes)
      then have "outcome st ok zs (writes ys s) (g (writes ys s))" by (rule realisesD [OF g q])
      moreover have "wrote_prefix (ys @ zs) s t" if "wrote_prefix zs (writes ys s) t" for t
        by (rule wrote_prefix_append2 [OF _ True that]) (use s in \<open>simp add: xs\<close>)
      ultimately show ?thesis
        using fs True fits_append_iff [of s ys "length zs"] s by (auto simp: outcome_def xs)
    next
      case False
      then have "\<not> fits (length xs) s" using fits_mono [of "length xs" s "length ys"] by (auto simp: xs)
      with fs False show ?thesis by (auto simp: outcome_def xs intro: wrote_prefix_append1)
    qed
  qed
qed

lemma realises_seq_ok:
  "realises st f (code_ok xs) \<Longrightarrow> realises st g (code_ok ys)
   \<Longrightarrow> realises st (\<lambda>s. and_then (f s) g) (code_ok (xs @ ys))"
  using realises_seq [of st f "code_ok xs" g "code_ok ys"] by (simp add: code_seq_def code_ok_def)

lemma code_seq_ok_Nil [simp]: "code_seq (code_ok []) q = q"
  by (cases q) (auto simp: code_seq_def code_ok_def)

lemma code_seq_ok_Nil2 [simp]: "code_seq q (code_ok []) = q"
  by (cases q) (auto simp: code_seq_def code_ok_def)

subsection \<open>Single values\<close>

lemma realises_write:
  assumes "n = of_nat (length xs)"
  shows "realises st (\<lambda>s. Some (pb_write e xs n s)) (code_ok xs)"
proof (rule realisesI)
  fix ok zs and s :: "'a ostream"
  assume "code_ok xs = Some (ok, zs)" and s: "ready s (length zs)"
  then have zs: "ok" "zs = xs" by (auto simp: code_ok_def)
  show "outcome st ok zs s (Some (pb_write e xs n s))"
  proof (cases "os_sink s")
    case No_write
    with assms zs show ?thesis by (simp add: outcome_def fits_def pb_write_def writes_def)
  next
    case (Buf_write w r)
    with s zs have small: "unat (os_bytes_written s) + length xs < 2 ^ 64" by (simp add: ready_def)
    then have len: "length xs < 2 ^ 64" by simp
    show ?thesis
    proof (cases "fits (length xs) s")
      case True
      with zs pb_write_fits [OF True assms len] show ?thesis by (simp add: outcome_def)
    next
      case False
      have sum: "unat (os_bytes_written s + n) = unat (os_bytes_written s) + length xs"
        unfolding assms using small by (rule unat_plus_nat)
      have "os_ok s" using s by (rule ready_ok)
      with False Buf_write have "unat (os_max_size s) < unat (os_bytes_written s) + length xs"
        and "xs \<noteq> []"
        by (auto simp: fits_def os_ok_def)
      moreover have "0 < n"
        using \<open>xs \<noteq> []\<close> len assms by (simp add: word_less_nat_alt unat_of_nat take_bit_nat_eq_self)
      ultimately have "pb_write e xs n s = (False, PB_SET_ERROR_os ''stream full'' s)"
        using Buf_write sum by (simp add: pb_write_def word_less_nat_alt)
      with False zs \<open>os_ok s\<close> show ?thesis by (simp add: outcome_def wrote_nothing [OF s])
    qed
  next
    case (User_write u)
    with s show ?thesis by (simp add: ready_def)
  qed
qed

lemma realises_varint: "realises st (\<lambda>s. Some (pb_encode_varint e v s)) (code_ok (varint_code v))"
  unfolding pb_encode_varint_eq by (rule realises_write) simp

lemma realises_fixed32: "realises st (\<lambda>s. Some (pb_encode_fixed32 e v s)) (code_ok (le_bytes 4 v))"
  unfolding pb_encode_fixed32_eq by (rule realises_write) simp

lemma realises_fixed64: "realises st (\<lambda>s. Some (pb_encode_fixed64 e v s)) (code_ok (le_bytes 8 v))"
  unfolding pb_encode_fixed64_eq by (rule realises_write) simp

lemma realises_string:
  assumes "n = of_nat (length xs)"
  shows "realises st (\<lambda>s. Some (pb_encode_string e xs n s)) (code_ok (string_code xs))"
proof -
  have eq: "Some (pb_encode_string e xs n s)
      = and_then (Some (pb_encode_varint e n s)) (\<lambda>s. Some (pb_write e xs n s))" for s
    by (simp add: pb_encode_string_def split: prod.split)
  show ?thesis
    unfolding eq string_code_def
    using realises_seq_ok [OF realises_varint [of st e n] realises_write [OF assms, of st e]] assms by simp
qed

lemma realises_tag: "realises st (\<lambda>s. Some (pb_encode_tag e wt t s)) (code_ok (tag_code wt t))"
  unfolding pb_encode_tag_def tag_code_def by (rule realises_varint)

lemma realises_field_tag:
  "realises st (\<lambda>s. Some (pb_encode_tag_for_field e field s)) (field_tag_code field)"
  by (auto simp: pb_encode_tag_for_field_def field_tag_code_def wire_type_of_def Let_def realises_tag)

lemma load_bytes_le_bytes:
  "le_bytes 4 (load32 h p) = load_bytes h p 4" "le_bytes 8 (load64 h p) = load_bytes h p 8"
  using le_bytes_le_word [of "load_bytes h p 4", where 'a = 32]
    le_bytes_le_word [of "load_bytes h p 8", where 'a = 64]
  by (simp_all add: load32_def load64_def)

lemma realises_bytes: "realises st (\<lambda>s. Some (pb_enc_bytes e h field p s)) (bytes_code h field p)"
proof (cases "p = 0")
  case True
  then show ?thesis by (simp add: pb_enc_bytes_def bytes_code_def realises_string)
next
  case False
  define n where "n = load32 h p"
  have n: "unat (ucast n + 4 :: csize) = unat n + 4"
    using unat_plus_nat [of "ucast n" 4] unat_lt32 [of n] by simp
  then have "\<not> (ucast n + 4 :: csize) < ucast n"
    and "(ucast (data_size field) :: csize) < ucast n + 4 \<longleftrightarrow> unat (data_size field) < unat n + 4"
    by (simp_all add: word_less_nat_alt)
  with False show ?thesis
    by (auto simp: pb_enc_bytes_def bytes_code_def Let_def PB_BYTES_ARRAY_T_ALLOCSIZE_def
        bytes_array_bytes_def n_def [symmetric] intro!: realises_string)
qed

lemma realises_submessage_body:
  fixes n :: csize and xs :: "byte list"
  assumes msg: "realises st msg (code_ok xs)" and n: "n = of_nat (length xs)"
  shows "realises st (submessage_body msg e n) (code_ok xs)"
proof (rule realisesI)
  fix ok zs and s :: "'a ostream"
  assume c: "code_ok xs = Some (ok, zs)" and s: "ready s (length zs)"
  then have zs: "ok" "zs = xs" by (auto simp: code_ok_def)
  show "outcome st ok zs s (submessage_body msg e n s)"
  proof (cases "os_sink s")
    case No_write
    with n zs show ?thesis
      by (simp add: submessage_body_def outcome_def fits_def pb_write_def writes_def)
  next
    case (Buf_write w r)
    with s zs have "unat (os_bytes_written s) + length xs < 2 ^ 64" by (simp add: ready_def)
    then have sum: "unat (os_bytes_written s + n) = unat (os_bytes_written s) + length xs"
      and len: "unat n = length xs"
      unfolding n by (simp_all add: unat_plus_nat unat_of_nat take_bit_nat_eq_self)
    have os: "os_ok s" using s by (rule ready_ok)
    show ?thesis
    proof (cases "fits (length xs) s")
      case False
      with Buf_write os have "os_max_size s < os_bytes_written s + n"
        by (auto simp: fits_def os_ok_def word_less_nat_alt sum)
      with False zs os Buf_write show ?thesis
        by (simp add: submessage_body_def outcome_def wrote_nothing [OF s])
    next
      case True
      let ?sub = "\<lparr>os_sink = os_sink s, os_max_size = n, os_bytes_written = 0,
        os_errmsg = None, os_fault = os_fault s\<rparr>"
      from True Buf_write have "\<not> os_max_size s < os_bytes_written s + n" "length xs \<le> r"
        by (simp_all add: fits_def word_less_nat_alt sum)
      moreover have "ready ?sub (length xs)" "fits (length xs) ?sub"
        using True Buf_write os len unat_lt64 [of n] by (auto simp: ready_def os_ok_def fits_def)
      with realisesD [OF msg, of True xs ?sub]
      have "msg ?sub = Some (True, writes xs ?sub)" by (simp add: code_ok_def outcome_def)
      moreover have "os_errmsg s = None" using s by (simp add: ready_def)
      ultimately show ?thesis
        using True zs Buf_write n
        by (cases s) (simp add: submessage_body_def outcome_def writes_def Let_def)
    qed
  next
    case (User_write u)
    with s show ?thesis by (simp add: ready_def)
  qed
qed

lemma realises_submessage:
  assumes "realises st (enc fs p) r"
  shows "realises st (pb_encode_submessage enc e fs p) (code_delimited r)"
proof (rule realisesI)
  fix ok xs and s :: "'a ostream"
  assume c: "code_delimited r = Some (ok, xs)" and s: "ready s (length xs)"
  then obtain ok1 ys where r: "r = Some (ok1, ys)"
    by (auto simp: code_delimited_def split: option.splits)
  have sz: "outcome st ok1 ys PB_OSTREAM_SIZING (enc fs p PB_OSTREAM_SIZING)"
    by (rule realisesD [OF assms r]) simp
  show "outcome st ok xs s (pb_encode_submessage enc e fs p s)"
  proof (cases ok1)
    case False
    with c r have "\<not> ok" by (auto simp: code_delimited_def code_fail_def)
    moreover obtain sub where "enc fs p PB_OSTREAM_SIZING = Some (False, sub)" "os_ok sub"
      using sz False by (auto simp: outcome_def)
    ultimately show ?thesis
      using ready_ok [OF s]
      by (auto simp: pb_encode_submessage_def outcome_def os_ok_def split: os_dest.splits intro!: wrote_nothing [OF s])
  next
    case True
    define n :: csize where "n = of_nat (length ys)"
    have ok: "ok" and xs: "xs = varint_code n @ ys"
      using c r True by (auto simp: code_delimited_def code_ok_def string_code_def n_def)
    have "enc fs p PB_OSTREAM_SIZING = Some (True, writes ys PB_OSTREAM_SIZING)"
      using sz True by (simp add: outcome_def)
    moreover have "os_bytes_written (writes ys (PB_OSTREAM_SIZING :: 'a ostream)) = n"
      by (simp add: writes_def PB_OSTREAM_SIZING_def n_def)
    ultimately have eq: "pb_encode_submessage enc e fs p s
        = and_then (Some (pb_encode_varint e n s)) (submessage_body (enc fs p) e n)"
      by (simp add: pb_encode_submessage_def)
    have "realises st (enc fs p) (code_ok ys)" using assms r True by (simp add: code_ok_def)
    from realises_seq_ok [OF realises_varint [of st e n]
        realises_submessage_body [OF this n_def, of e]]
    have "realises st (\<lambda>s. and_then (Some (pb_encode_varint e n s)) (submessage_body (enc fs p) e n))
        (code_ok xs)"
      unfolding xs .
    from realisesD [OF this, of ok xs s] s ok show ?thesis by (simp add: code_ok_def eq)
  qed
qed

lemma realises_varint_fields:
  "realises st (\<lambda>s. Some (pb_enc_varint e h field p s)) (signed_code h field p (\<lambda>v. v))"
  "realises st (\<lambda>s. Some (pb_enc_svarint e h field p s)) (signed_code h field p zigzag)"
  "realises st (\<lambda>s. Some (pb_enc_uvarint e h field p s)) (unsigned_code h field p)"
  unfolding pb_enc_varint_def pb_enc_svarint_def pb_enc_uvarint_def signed_code_def unsigned_code_def
  by (auto simp: pb_encode_svarint_def realises_varint split: option.split)

lemma realises_fixed_fields:
  "realises st (\<lambda>s. Some (pb_enc_fixed32 e h field p s)) (code_ok (load_bytes h p 4))"
  "realises st (\<lambda>s. Some (pb_enc_fixed64 e h field p s)) (code_ok (load_bytes h p 8))"
  unfolding pb_enc_fixed32_def pb_enc_fixed64_def load_bytes_le_bytes [symmetric]
  by (rule realises_fixed32 realises_fixed64)+

lemma realises_string_field:
  "realises st (\<lambda>s. Some (pb_enc_string e h field p s)) (code_ok (string_code (string_value h field p)))"
proof -
  have "load_bytes h p 0 = []" by (simp add: load_bytes_def mem_read_def)
  then have "load_bytes h p (if p = 0 then 0 else k) = (if p = 0 then [] else load_bytes h p k)" for k
    by auto
  then show ?thesis
    unfolding pb_enc_string_def string_value_def Let_def by (simp add: realises_string)
qed

lemma realises_value:
  assumes sub: "\<And>fs p. realises st (enc fs p) (sub fs p)"
  shows "realises st (PB_ENCODERS enc e h field p) (value_code sub e h field p)"
  unfolding PB_ENCODERS_def value_code_def Let_def pb_enc_bool_def pb_enc_submessage_def
    pb_enc_fixed_length_bytes_def
  by (auto simp: realises_varint_fields realises_varint realises_fixed_fields
      realises_bytes realises_string_field intro!: realises_string realises_submessage sub)

subsection \<open>Arrays\<close>

lemma item_addrs_0 [simp]: "item_addrs sz 0 p = []"
  by (simp add: item_addrs_def)

lemma item_addrs_Suc: "item_addrs sz (Suc n) p = p # item_addrs sz n (p + sz)"
  by (simp add: item_addrs_def upt_conv_Cons map_Suc_upt [symmetric] algebra_simps del: upt_Suc)

lemma realises_items:
  assumes "\<And>p. realises st (f p) (r p)"
  shows "realises st (enc_items f sz n p) (code_list (map r (item_addrs sz n p)))"
proof (induction n arbitrary: p)
  case (Suc n)
  have "enc_items f sz (Suc n) p = (\<lambda>s. and_then (f p s) (enc_items f sz n (p + sz)))"
    by (rule ext) simp
  with realises_seq [OF assms [of p] Suc.IH [of "p + sz"]] show ?case
    by (simp add: item_addrs_Suc)
next
  case 0
  have "enc_items f sz 0 p = (\<lambda>s. Some (True, s))" by (rule ext) simp
  then show ?case by simp
qed

lemma code_list_ok:
  "(\<And>r. r \<in> set rs \<Longrightarrow> \<exists>xs. r = code_ok xs \<and> length xs = k) \<Longrightarrow>
   \<exists>ys. code_list rs = code_ok ys \<and> length ys = length rs * k"
proof (induction rs)
  case (Cons r rs)
  then obtain xs ys where "r = code_ok xs" "length xs = k" "code_list rs = code_ok ys"
    "length ys = length rs * k"
    by (metis list.set_intros)
  then show ?case by (intro exI [of _ "xs @ ys"]) (simp add: code_seq_def code_ok_def)
qed (simp add: code_ok_def)

lemma length_item_addrs [simp]: "length (item_addrs sz n p) = n"
  by (simp add: item_addrs_def)

definition fixed_width :: "pb_field \<Rightarrow> nat option" where
  "fixed_width field =
     (if PB_LTYPE (ftype field) = PB_LTYPE_FIXED32 then Some 4
      else if PB_LTYPE (ftype field) = PB_LTYPE_FIXED64 then Some 8 else None)"

lemma packed_size_code:
  fixes func :: "ptr \<Rightarrow> 'u ostream \<Rightarrow> 'u enc_res"
  assumes f: "\<And>p. realises st (func p) (val p)"
    and w: "\<And>k p. fixed_width field = Some k \<Longrightarrow> \<exists>xs. val p = code_ok xs \<and> length xs = k"
    and c: "code_list (map val (item_addrs (ucast (data_size field)) (unat count) p))
              = Some (ok, ys)"
  shows "packed_size func field p count = Some (if ok then Some (of_nat (length ys)) else None)"
proof (cases "fixed_width field")
  case (Some k)
  have "\<exists>zs. code_list (map val (item_addrs (ucast (data_size field)) (unat count) p)) = code_ok zs
      \<and> length zs = length (map val (item_addrs (ucast (data_size field)) (unat count) p)) * k"
    using w [OF Some] by (intro code_list_ok) auto
  then have "ok" "length ys = unat count * k" using c by (auto simp: code_ok_def)
  moreover have "(of_nat (unat count * k) :: csize) = of_nat k * ucast count"
    by (simp add: of_nat_mult of_nat_unat mult.commute)
  ultimately show ?thesis
    using Some by (auto simp: packed_size_def fixed_width_def split: if_splits)
next
  case None
  have "outcome st ok ys PB_OSTREAM_SIZING
      (enc_items func (ucast (data_size field)) (unat count) p PB_OSTREAM_SIZING)"
    by (rule realisesD [OF realises_items [where r = val, OF f] c]) simp
  moreover have "os_bytes_written (writes ys (PB_OSTREAM_SIZING :: 'u ostream)) = of_nat (length ys)"
    by (simp add: writes_def PB_OSTREAM_SIZING_def)
  ultimately show ?thesis
    using None by (auto simp: packed_size_def fixed_width_def outcome_def split: if_splits)
qed

lemma realises_unless_sizing:
  assumes f: "realises st f (code_ok xs)" and n: "n = of_nat (length xs)"
  shows "realises st (\<lambda>s. if os_sink s = No_write then Some (pb_write e [] n s) else f s) (code_ok xs)"
proof (rule realisesI)
  fix ok ys and s :: "'a ostream"
  assume c: "code_ok xs = Some (ok, ys)" and s: "ready s (length ys)"
  from realisesD [OF f c s] c n
  show "outcome st ok ys s (if os_sink s = No_write then Some (pb_write e [] n s) else f s)"
    by (auto simp: outcome_def fits_def pb_write_def writes_def code_ok_def)
qed

lemma realises_packed:
  fixes func :: "ptr \<Rightarrow> 'u ostream \<Rightarrow> 'u enc_res"
  assumes f: "\<And>p. realises st (func p) (val p)"
    and w: "\<And>k p. fixed_width field = Some k \<Longrightarrow> \<exists>xs. val p = code_ok xs \<and> length xs = k"
  shows "realises st (\<lambda>s. case packed_size func field p count of
            None \<Rightarrow> None
          | Some None \<Rightarrow> Some (False, s)
          | Some (Some n) \<Rightarrow>
              and_then (Some (pb_encode_varint e n s)) (\<lambda>s.
                if os_sink s = No_write then Some (pb_write e [] n s)
                else enc_items func (ucast (data_size field)) (unat count) p s))
     (code_delimited (code_list (map val (item_addrs (ucast (data_size field)) (unat count) p))))"
    (is "realises st ?f (code_delimited ?c)")
proof (cases ?c)
  case None
  then show ?thesis by (simp add: code_delimited_def)
next
  case (Some r)
  then obtain ok ys where c: "?c = Some (ok, ys)" by (cases r) auto
  note size = packed_size_code [where func = func, OF f w c]
  show ?thesis
  proof (cases ok)
    case False
    with size c show ?thesis by (simp add: code_delimited_def realises_fail)
  next
    case True
    have "realises st (enc_items func (ucast (data_size field)) (unat count) p) (code_ok ys)"
      using realises_items [where f = func and r = val, OF f] c True by (metis code_ok_def)
    from realises_seq_ok [OF realises_varint [of st e "of_nat (length ys)"]
        realises_unless_sizing [OF this refl, of e]]
    show ?thesis using size c True by (simp add: code_delimited_def string_code_def)
  qed
qed

lemma realises_array:
  fixes func :: "ptr \<Rightarrow> 'u ostream \<Rightarrow> 'u enc_res"
  assumes f: "\<And>p. realises st (func p) (val p)"
    and w: "\<And>k p. fixed_width field = Some k \<Longrightarrow> \<exists>xs. val p = code_ok xs \<and> length xs = k"
  shows "realises st (encode_array e h field p count func) (array_code h field p count val)"
proof -
  note seqs = realises_seq [OF realises_tag realises_packed [where func = func, OF f w]]
    realises_items realises_seq [OF realises_field_tag]
  show ?thesis
    unfolding encode_array_def array_code_def Let_def
    by (auto intro!: seqs f)
qed

subsection \<open>Fields\<close>

lemma value_code_fixed_width:
  "fixed_width field = Some k \<Longrightarrow> \<exists>xs. value_code sub e h field p = code_ok xs \<and> length xs = k"
  by (auto simp: fixed_width_def value_code_def Let_def split: if_splits)

lemma realises_basic_field:
  assumes sub: "\<And>fs p. realises st (enc fs p) (sub fs p)"
  shows "realises st (encode_basic_field enc n e h field p) (basic_field_code sub n e h field p)"
proof -
  note val = realises_value [where enc = enc and sub = sub, OF sub]
  have arr: "realises st (encode_array e h field q c (PB_ENCODERS enc e h field))
      (array_code h field q c (value_code sub e h field))" for q c
    by (rule realises_array [OF val value_code_fixed_width])
  have tagged: "realises st
      (\<lambda>s. and_then (Some (pb_encode_tag_for_field e field s)) (PB_ENCODERS enc e h field q))
      (code_seq (field_tag_code field) (value_code sub e h field q))" for q
    by (rule realises_seq [OF realises_field_tag val])
  show ?thesis
    unfolding encode_basic_field_def basic_field_code_def Let_def
    by (cases "size_offset field = 0"; cases "pb_check_proto3_default_value n e h field p")
      (simp_all add: tagged arr)
qed

text \<open>What the documentation asks of an encoder callback: it puts out the same bytes each time it
  is called for a field, and returns false when \<open>pb_write\<close> does. With \<open>st\<close>, one that fails has put out
  some of these bytes and nothing else.\<close>

definition callbacks_put ::
  "bool \<Rightarrow> 'u env \<Rightarrow> heap \<Rightarrow> (ptr \<Rightarrow> pb_field \<Rightarrow> ptr \<Rightarrow> code_res) \<Rightarrow> (ptr \<Rightarrow> ptr \<Rightarrow> code_res) \<Rightarrow> bool" where
  "callbacks_put st e h cb xt \<longleftrightarrow>
     (\<forall>f field p. realises st (\<lambda>s. Some (e_enc_cb e f s field p h)) (cb f field p))
     \<and> (\<forall>f ext. realises st (\<lambda>s. Some (e_ext_enc e f s ext h)) (xt f ext))"

abbreviation callbacks_realise ::
  "'u env \<Rightarrow> heap \<Rightarrow> (ptr \<Rightarrow> pb_field \<Rightarrow> ptr \<Rightarrow> code_res) \<Rightarrow> (ptr \<Rightarrow> ptr \<Rightarrow> code_res) \<Rightarrow> bool" where
  "callbacks_realise \<equiv> callbacks_put False"

lemma wrote_prefix_error [simp]: "wrote_prefix xs s (PB_SET_ERROR_os m t) = wrote_prefix xs s t"
  by (simp add: wrote_prefix_def)

lemma realises_error_message:
  assumes "realises st (\<lambda>s. Some (f s)) r"
  shows "realises st (\<lambda>s. case f s of (ok, s') \<Rightarrow>
    Some (if ok then (True, s') else (False, PB_SET_ERROR_os m s'))) r"
proof (rule realisesI)
  fix ok xs and s :: "'a ostream"
  assume "r = Some (ok, xs)" and "ready s (length xs)"
  from realisesD [OF assms this]
  show "outcome st ok xs s (case f s of (ok, s') \<Rightarrow>
      Some (if ok then (True, s') else (False, PB_SET_ERROR_os m s')))"
    by (cases "f s") (auto simp: outcome_def split: if_splits)
qed

lemma realises_field:
  assumes sub: "\<And>fs p. realises st (enc fs p) (sub fs p)" and cb: "callbacks_put st e h cb xt"
  shows "realises st (encode_field enc n e h field p) (field_code sub cb n e h field p)"
proof -
  note basic = realises_basic_field [where enc = enc and sub = sub, OF sub]
  have "realises st (encode_callback_field e h field p)
      (if callback_func h p \<noteq> 0 then cb (callback_func h p) field (callback_arg p) else code_ok [])"
  proof (cases "callback_func h p = 0")
    case False
    let ?f = "callback_func h p" let ?a = "callback_arg p"
    have "realises st (\<lambda>s. Some (e_enc_cb e ?f s field ?a h)) (cb ?f field ?a)"
      using cb by (simp add: callbacks_put_def)
    from realises_error_message [OF this, of "''callback error''"] False
    show ?thesis by (simp add: encode_callback_field_def [abs_def])
  qed (simp add: encode_callback_field_def [abs_def])
  with basic show ?thesis
    unfolding encode_field_def field_code_def Let_def by auto
qed

lemma realises_extensions:
  assumes cb: "callbacks_put st e h cb xt"
    and fld: "\<And>field p. realises st (encode_field enc n e h field p) (fld field p)"
  shows "realises st (extension_loop k enc n e h ext) (extension_code k xt fld e h ext)"
proof (induction k arbitrary: ext)
  case (Suc k)
  let ?ty = "ext_type h ext"
  have def: "default_extension_encoder enc n e h ext = encode_field enc n e h field
      (if PB_ATYPE (ftype field) = PB_ATYPE_POINTER then ext_dest_addr ext else ext_dest h ext)"
    if "field = field_at (e_fields e (ext_type_arg h ?ty)) 0" for field
    by (rule ext) (simp add: default_extension_encoder_def that Let_def)
  have "realises st (\<lambda>s. Some (e_ext_enc e (ext_type_encode h ?ty) s ext h)) (xt (ext_type_encode h ?ty) ext)"
    using cb by (simp add: callbacks_put_def)
  then show ?case
    using realises_seq [OF _ Suc.IH [of "ext_next h ext"]] fld
    by (auto simp: Let_def def [OF refl])
qed simp

subsection \<open>Messages\<close>

text \<open>The do-while loop over the fields, from field \<open>k\<close> on.\<close>

lemma realises_iter_loop:
  assumes body: "\<And>k. k < n_fields fs \<Longrightarrow> realises st (body (iter_nth fs d k)) (r k)"
    and "k < n_fields fs"
  shows "realises st (iter_loop body (iter_nth fs d k)) (code_list (map r [k..<n_fields fs]))"
  using assms(2)
proof (induction "n_fields fs - k" arbitrary: k)
  case (Suc m)
  have k: "k < n_fields fs" by fact
  have "realises st (\<lambda>s. case pb_field_iter_next (iter_nth fs d k) of (again, it') \<Rightarrow>
      if again then iter_loop body it' s else Some (True, s))
      (code_list (map r [Suc k..<n_fields fs]))"
  proof (cases "Suc k < n_fields fs")
    case True
    with Suc have "realises st (iter_loop body (iter_nth fs d (Suc k)))
        (code_list (map r [Suc k..<n_fields fs]))" by simp
    with True show ?thesis by (simp add: pb_field_iter_next_iter_nth [OF k])
  next
    case False
    then show ?thesis by (simp add: pb_field_iter_next_iter_nth [OF k])
  qed
  from realises_seq [OF body [OF k] this]
  show ?case
    unfolding iter_loop.simps [of body "iter_nth fs d k", abs_def]
    using k by (simp add: upt_conv_Cons)
qed simp

lemma encode_begin:
  "pb_encode (Suc n) e h fs d =
     (if n_fields fs = 0 then (\<lambda>s. Some (True, s))
      else iter_loop (encode_iter (pb_encode n e h) n e h) (iter_nth fs d 0))"
proof -
  show ?thesis
    using pb_field_iter_begin_nonempty [of fs d]
    by (auto simp: iter_nth.simps fun_eq_iff split: prod.split)
qed

theorem realises_message:
  assumes cb: "callbacks_put st e h cb xt"
  shows "realises st (pb_encode n e h fs d) (message_code n cb xt e h fs d)"
proof (induction n arbitrary: fs d)
  case (Suc n)
  let ?fld = "field_code (message_code n cb xt e h) cb n e h"
  let ?r = "\<lambda>(field, p). if PB_LTYPE (ftype field) = PB_LTYPE_EXTENSION
    then extension_code n xt ?fld e h (load64 h p) else ?fld field p"
  have fld: "realises st (encode_field (pb_encode n e h) n e h field p) (?fld field p)" for field p
    by (rule realises_field [OF Suc.IH cb])
  have iter: "realises st (encode_iter (pb_encode n e h) n e h (iter_nth fs d k))
      (?r (field_at fs k, d + struct_offset fs k))" if k: "k < n_fields fs" for k
    using fld realises_extensions [OF cb fld]
    by (auto simp: encode_iter_def [abs_def] encode_extension_field_def k
        conjunct1 [OF iter_nth_pointers [OF k]])
  have eq: "message_code (Suc n) cb xt e h fs d
      = code_list (map (\<lambda>k. ?r (field_at fs k, d + struct_offset fs k)) [0..<n_fields fs])"
    by (simp add: members_def comp_def Let_def)
  show ?case
    unfolding eq encode_begin
    using realises_iter_loop [where fs = fs and d = d and k = 0
        and r = "\<lambda>k. ?r (field_at fs k, d + struct_offset fs k)"
        and body = "encode_iter (pb_encode n e h) n e h", OF iter]
    by auto
qed simp

subsection \<open>Properties\<close>

lemma ready_from_buffer: "n < 2 ^ 64 \<Longrightarrow> ready (pb_ostream_from_buffer b) n"
  by (simp add: ready_def os_ok_def pb_ostream_from_buffer_def)

lemma callbacks_realise_plain:
  "callbacks_put st plain_env h (\<lambda>_ _ _. code_fail) (\<lambda>_ _. code_fail)"
  by (simp add: callbacks_put_def plain_env_def realises_fail)

lemma demo_message_code:
  "message_code 1 (\<lambda>_ _ _. code_fail) (\<lambda>_ _. code_fail) plain_env demo_heap demo_fields 0x1000
     = Some (True, [0x08, 0x96, 0x01, 0x12, 0x01, 0x05])"
  by code_simp

text \<open>C1: refinement. Where the reference encoding of a message is defined, \<open>pb_encode\<close> into a memory
  buffer returns true and writes exactly the reference bytes if they fit the buffer. If the message
  cannot be encoded or does not fit, it returns false and has written nothing past the end of the
  buffer; and if the callbacks put out no other bytes when they fail, what it has written to the buffer
  is a prefix of the reference bytes.\<close>

theorem pb_encode_refines:
  assumes "callbacks_put st e h cb xt"
    and "message_code n cb xt e h fs d = Some (ok, xs)" and "length xs < 2 ^ 64"
  shows "if ok \<and> length xs \<le> unat bufsize
     then \<exists>t. pb_encode n e h fs d (pb_ostream_from_buffer bufsize) = Some (True, t)
        \<and> os_sink t = Buf_write xs (unat bufsize - length xs)
        \<and> os_bytes_written t = of_nat (length xs) \<and> \<not> os_fault t
     else \<exists>t. pb_encode n e h fs d (pb_ostream_from_buffer bufsize) = Some (False, t) \<and> os_ok t
        \<and> (st \<longrightarrow> (\<exists>m \<le> length xs. m \<le> unat bufsize \<and> os_sink t = Buf_write (take m xs) (unat bufsize - m)))"
proof -
  let ?s = "pb_ostream_from_buffer bufsize :: 'a ostream"
  have sink: "\<exists>m \<le> length xs. m \<le> unat bufsize \<and> os_sink t = Buf_write (take m xs) (unat bufsize - m)"
    if pre: "wrote_prefix xs ?s t" for t
  proof -
    obtain m where m: "m \<le> length xs" "fits m ?s" "os_sink t = os_sink (writes (take m xs) ?s)"
      using pre unfolding wrote_prefix_def by blast
    have "m \<le> unat bufsize" using m(2) by simp
    moreover have "os_sink t = Buf_write (take m xs) (unat bufsize - m)" using m(1,3) by (simp add: writes_from_buffer)
    ultimately show ?thesis using m(1) by blast
  qed
  have fault: "\<not> os_fault (writes xs ?s)" by (simp add: writes_def pb_ostream_from_buffer_def)
  have out: "outcome st ok xs ?s (pb_encode n e h fs d ?s)"
    by (rule realisesD [OF realises_message [OF assms(1)] assms(2) ready_from_buffer [OF assms(3)]])
  show ?thesis
  proof (cases "ok \<and> length xs \<le> unat bufsize")
    case True
    with out fault
    show ?thesis by (simp add: outcome_def writes_from_buffer)
  next
    case False
    with out obtain t where t: "pb_encode n e h fs d ?s = Some (False, t)" "os_ok t" "st \<longrightarrow> wrote_prefix xs ?s t"
      unfolding outcome_def by auto
    with sink [of t] show ?thesis unfolding if_not_P [OF False] by (intro exI [of _ t]) blast
  qed
qed

text \<open>The demonstration message in a buffer of four bytes: the encoder fails, with the first tag and value in it.\<close>

theorem pb_encode_refines_witness:
  "\<exists>t m. pb_encode 1 plain_env demo_heap demo_fields 0x1000 (pb_ostream_from_buffer 4) = Some (False, t)
     \<and> os_ok t \<and> m \<le> 4 \<and> os_sink t = Buf_write (take m [0x08, 0x96, 0x01, 0x12, 0x01, 0x05]) (4 - m)"
proof -
  have "length [0x08, 0x96, 0x01, 0x12, 0x01, 0x05 :: byte] < 2 ^ 64" by simp
  from pb_encode_refines [OF callbacks_realise_plain [of True] demo_message_code this, of 4]
  show ?thesis by auto
qed

text \<open>C4: \<open>pb_get_encoded_size\<close> is exact. It succeeds just when the message can be encoded; a buffer
  of the size it returns is filled to the last byte by \<open>pb_encode\<close>, and with every smaller buffer
  \<open>pb_encode\<close> fails.\<close>

theorem pb_get_encoded_size_exact:
  assumes "callbacks_realise e h cb xt"
    and "message_code n cb xt e h fs d = Some (ok, xs)" and "length xs < 2 ^ 64"
  shows "(\<not> ok \<longrightarrow> pb_get_encoded_size n e h fs d = Some None)
     \<and> (ok \<longrightarrow> (\<exists>size t. pb_get_encoded_size n e h fs d = Some (Some size)
          \<and> unat size = length xs
          \<and> pb_encode n e h fs d (pb_ostream_from_buffer size) = Some (True, t)
          \<and> os_sink t = Buf_write xs 0
          \<and> (\<forall>b < size. \<exists>u. pb_encode n e h fs d (pb_ostream_from_buffer b) = Some (False, u))))"
proof -
  note msg = realisesD [OF realises_message [OF assms(1)] assms(2)]
  have sz: "outcome False ok xs PB_OSTREAM_SIZING (pb_encode n e h fs d PB_OSTREAM_SIZING)"
    by (rule msg) simp
  have buf: "outcome False ok xs (pb_ostream_from_buffer b) (pb_encode n e h fs d (pb_ostream_from_buffer b))"
    for b by (rule msg [OF ready_from_buffer [OF assms(3)]])
  show ?thesis
  proof (cases ok)
    case False
    with sz show ?thesis by (auto simp: outcome_def pb_get_encoded_size_def)
  next
    case True
    let ?n = "of_nat (length xs) :: csize"
    have n: "unat ?n = length xs" using assms(3) by (simp add: unat_of_nat take_bit_nat_eq_self)
    have "pb_get_encoded_size n e h fs d = Some (Some ?n)"
      using sz True by (auto simp: outcome_def pb_get_encoded_size_def writes_def PB_OSTREAM_SIZING_def
          fits_def)
    moreover have "pb_encode n e h fs d (pb_ostream_from_buffer ?n)
        = Some (True, writes xs (pb_ostream_from_buffer ?n))"
      using buf [of ?n] True n by (simp add: outcome_def)
    moreover have "\<exists>u. pb_encode n e h fs d (pb_ostream_from_buffer b) = Some (False, u)" if "b < ?n" for b
    proof -
      from that have "unat b < length xs" unfolding word_less_nat_alt n .
      with buf [of b] show ?thesis by (auto simp: outcome_def)
    qed
    ultimately show ?thesis using True n by (auto simp: writes_from_buffer)
  qed
qed

theorem pb_get_encoded_size_exact_witness:
  "\<exists>size t. pb_get_encoded_size 1 plain_env demo_heap demo_fields 0x1000 = Some (Some size)
     \<and> unat size = 6
     \<and> pb_encode 1 plain_env demo_heap demo_fields 0x1000 (pb_ostream_from_buffer size) = Some (True, t)
     \<and> os_sink t = Buf_write [0x08, 0x96, 0x01, 0x12, 0x01, 0x05] 0
     \<and> (\<forall>b < size. \<exists>u. pb_encode 1 plain_env demo_heap demo_fields 0x1000
          (pb_ostream_from_buffer b) = Some (False, u))"
proof -
  have n: "length [0x08, 0x96, 0x01, 0x12, 0x01, 0x05 :: byte] = 6" by simp
  then have "length [0x08, 0x96, 0x01, 0x12, 0x01, 0x05 :: byte] < 2 ^ 64" by simp
  from pb_get_encoded_size_exact [OF callbacks_realise_plain demo_message_code this]
  show ?thesis unfolding n by (simp only: simp_thms)
qed

text \<open>C6: \<open>pb_encode_delimited\<close> puts out the length of the message as a varint and then the message,
  and \<open>pb_encode_nullterminated\<close> the message and then a zero byte, on every stream with enough room.\<close>

theorem pb_encode_framed:
  assumes "callbacks_realise e h cb xt" and "message_code n cb xt e h fs d = Some (True, xs)"
    and "ready s (length xs + 10)" and "fits (length xs + 10) s"
  shows "pb_encode_delimited n e h fs d s
       = Some (True, writes (varint_code (of_nat (length xs)) @ xs) s)
     \<and> pb_encode_nullterminated n e h fs d s = Some (True, writes (xs @ [0]) s)"
proof
  have msg: "realises False (pb_encode n e h fs d) (code_ok xs)"
    using realises_message [OF assms(1), of n fs d] assms(2) by (simp add: code_ok_def)
  let ?ys = "string_code xs"
  have "length ?ys \<le> length xs + 10"
    using length_varint_code [of "of_nat (length xs)"] by (simp add: string_code_def)
  then have s: "ready s (length ?ys)" "fits (length ?ys) s"
    using assms(3,4) by (auto intro: ready_mono fits_mono)
  have "realises False (pb_encode_submessage (pb_encode n e h) e fs d) (code_ok ?ys)"
    using realises_submessage [where enc = "pb_encode n e h", OF msg]
    by (simp add: code_delimited_def code_ok_def)
  from realisesD [OF this, of True ?ys, OF _ s(1)] s(2)
  show "pb_encode_delimited n e h fs d s
      = Some (True, writes (varint_code (of_nat (length xs)) @ xs) s)"
    by (simp add: code_ok_def outcome_def pb_encode_delimited_def string_code_def)
  have z: "ready s (length (xs @ [0]))" "fits (length (xs @ [0])) s"
    using assms(3,4) by (auto intro: ready_mono fits_mono)
  have w: "realises False (\<lambda>s. Some (pb_write e [0] 1 s)) (code_ok [0])"
    by (rule realises_write) simp
  from realisesD [OF realises_seq_ok [OF msg w], of True "xs @ [0]", OF _ z(1)] z(2)
  show "pb_encode_nullterminated n e h fs d s = Some (True, writes (xs @ [0]) s)"
    by (simp add: code_ok_def outcome_def pb_encode_nullterminated_def)
qed

theorem pb_encode_framed_witness:
  "pb_encode_delimited 1 plain_env demo_heap demo_fields 0x1000 (pb_ostream_from_buffer 16)
       = Some (True, writes (varint_code (of_nat (length [0x08, 0x96, 0x01, 0x12, 0x01, 0x05 :: byte]))
           @ [0x08, 0x96, 0x01, 0x12, 0x01, 0x05]) (pb_ostream_from_buffer 16))
     \<and> pb_encode_nullterminated 1 plain_env demo_heap demo_fields 0x1000 (pb_ostream_from_buffer 16)
       = Some (True, writes ([0x08, 0x96, 0x01, 0x12, 0x01, 0x05] @ [0]) (pb_ostream_from_buffer 16))"
  by (rule pb_encode_framed [OF callbacks_realise_plain demo_message_code])
    (simp_all add: ready_from_buffer)

end
