(* ===== verification/Pb_Encode_Total.thy ===== *)
theory Pb_Encode_Total imports Pb_Encode_Ref begin

text \<open>
  \<open>pb_encode\<close> returns. \<open>nested_within\<close> bounds the nesting of submessages in a descriptor; a fuel
  above that bound is enough, whatever the message in memory, the stream and the callbacks do.
\<close>

text \<open>Field types the encoder has a function for; a oneof has a member that tells its case.\<close>

definition encodable :: "pb_field \<Rightarrow> bool" where
  "encodable f \<longleftrightarrow> PB_LTYPE (ftype f) \<le> PB_LTYPE_FIXED_LENGTH_BYTES
     \<and> PB_LTYPE (ftype f) \<noteq> PB_LTYPE_EXTENSION
     \<and> (PB_HTYPE (ftype f) = PB_HTYPE_ONEOF \<longrightarrow> size_offset f \<noteq> 0)"

primrec nested_within :: "nat \<Rightarrow> 'u env \<Rightarrow> pb_field list \<Rightarrow> bool" where
  "nested_within 0 e fs = False"
| "nested_within (Suc l) e fs =
     list_all (\<lambda>k. let f = field_at fs k in encodable f
        \<and> (PB_LTYPE (ftype f) = PB_LTYPE_SUBMESSAGE \<longrightarrow> nested_within l e (e_fields e (fptr f))))
       [0..<n_fields fs]"

lemma nested_field:
  assumes "nested_within (Suc l) e fs" and "k < n_fields fs"
  shows "encodable (field_at fs k)"
    and "PB_LTYPE (ftype (field_at fs k)) = PB_LTYPE_SUBMESSAGE \<Longrightarrow>
      nested_within l e (e_fields e (fptr (field_at fs k)))"
  using assms by (auto simp: list_all_iff Let_def)

lemma total_submessage:
  assumes "\<And>s. returns (enc fs p s)"
  shows "returns (pb_encode_submessage enc e fs p s)"
proof -
  have "returns (submessage_body (enc fs p) e n t)" for n t
    unfolding submessage_body_def Let_def by (auto intro!: returns_case_pair assms)
  then have body: "returns (and_then (Some r) (submessage_body (enc fs p) e n))" for r n
    by (intro returns_and_then) simp_all
  obtain ok sub where "enc fs p PB_OSTREAM_SIZING = Some (ok, sub)"
    using assms [of PB_OSTREAM_SIZING] by (auto simp: returns_iff)
  with body show ?thesis by (simp add: pb_encode_submessage_def)
qed

lemma total_value:
  assumes "encodable f" and sub: "\<And>s p. PB_LTYPE (ftype f) = PB_LTYPE_SUBMESSAGE \<Longrightarrow>
      returns (enc (e_fields e (fptr f)) p s)"
  shows "returns (PB_ENCODERS enc e h f p s)"
proof -
  have "returns (pb_enc_submessage enc e f p s)" if "PB_LTYPE (ftype f) = PB_LTYPE_SUBMESSAGE"
    using total_submessage [of enc "e_fields e (fptr f)" p e s] sub [OF that]
    by (simp add: pb_enc_submessage_def)
  with byte_le_10 [of "PB_LTYPE (ftype f)"] assms(1) show ?thesis
    unfolding encodable_def PB_ENCODERS_def Let_def by auto
qed

lemma total_items:
  assumes "\<And>p s. returns (f p s)"
  shows "returns (enc_items f w n p s)"
proof (induction n arbitrary: p s)
  case (Suc n)
  then show ?case by (simp only: enc_items.simps) (intro returns_and_then assms)
qed simp

lemma total_array:
  assumes "\<And>p s. returns (func p s)"
  shows "returns (encode_array e h field p c func s)"
proof -
  note items = total_items [where f = func, OF assms]
  have "returns (packed_size func field p c)"
    unfolding packed_size_def by (auto intro!: returns_case_pair items)
  then obtain sz where "packed_size func field p c = Some sz" by (auto simp: returns_iff)
  then show ?thesis
    unfolding encode_array_def Let_def
    by (auto intro!: returns_and_then total_items assms split: option.split)
qed

lemma total_check_proto3:
  assumes "PB_LTYPE (ftype f) = PB_LTYPE_SUBMESSAGE \<Longrightarrow> nested_within l e (e_fields e (fptr f))"
    and "l < n"
  shows "returns (pb_check_proto3_default_value n e h f p)"
  using assms
proof (induction l arbitrary: n f p)
  case 0
  then obtain m where n: "n = Suc m" by (cases n) auto
  from 0 show ?case unfolding n by (auto simp: check_proto3_body_def Let_def)
next
  case (Suc l)
  then obtain m where n: "n = Suc m" by (cases n) auto
  show ?case
  proof (cases "PB_LTYPE (ftype f) = PB_LTYPE_SUBMESSAGE")
    case False
    then show ?thesis unfolding n by (auto simp: check_proto3_body_def Let_def)
  next
    case True
    let ?fs = "e_fields e (fptr f)"
    have nest: "nested_within (Suc l) e ?fs" by (rule Suc.prems(1) [OF True])
    have "returns (iter_loop (\<lambda>it u. map_option (\<lambda>b. (b, u))
        (pb_check_proto3_default_value m e h (it_field it) (pData it))) (iter_nth ?fs p 0) ())"
      if "n_fields ?fs \<noteq> 0"
    proof (rule iter_loop_total)
      fix j and u :: unit
      assume j: "j < n_fields ?fs"
      have "returns (pb_check_proto3_default_value m e h (field_at ?fs j) q)" for q
        using nested_field(2) [OF nest j] Suc.prems(2) by (intro Suc.IH) (simp_all add: n)
      with j show "returns (map_option (\<lambda>b. (b, u)) (pb_check_proto3_default_value m e h
          (it_field (iter_nth ?fs p j)) (pData (iter_nth ?fs p j))))"
        by simp
    qed (use that in simp)
    with pb_field_iter_begin_nonempty [of ?fs p] True show ?thesis
      unfolding n by (auto simp: check_proto3_body_def Let_def iter_nth.simps split: prod.split)
  qed
qed

lemma total_field:
  assumes "encodable f"
    and nest: "PB_LTYPE (ftype f) = PB_LTYPE_SUBMESSAGE \<Longrightarrow> nested_within l e (e_fields e (fptr f))"
    and sub: "\<And>s p. PB_LTYPE (ftype f) = PB_LTYPE_SUBMESSAGE \<Longrightarrow>
      returns (enc (e_fields e (fptr f)) p s)"
    and "l < n"
  shows "returns (encode_field enc n e h f p s)"
proof -
  note val = total_value [where enc = enc, OF assms(1) sub]
  have "returns (pb_check_proto3_default_value n e h f p)"
    using nest \<open>l < n\<close> by (rule total_check_proto3)
  then obtain b where b: "pb_check_proto3_default_value n e h f p = Some b"
    by (auto simp: returns_iff)
  have arr: "returns (encode_array e h f q c (PB_ENCODERS enc e h f) t)" for q c t
    by (rule total_array [OF val])
  have tagged: "returns (and_then (Some (pb_encode_tag_for_field e f t)) (PB_ENCODERS enc e h f q))"
    for q t
    by (rule returns_and_then [OF _ val]) simp
  have "returns (encode_basic_field enc n e h f p s)"
    using assms(1) PB_HTYPE_cases [of "ftype f"]
    unfolding encode_basic_field_def Let_def encodable_def b
    by (cases "size_offset f = 0") (auto simp add: arr tagged)
  then show ?thesis
    by (auto simp: encode_field_def Let_def encode_callback_field_def split: prod.split)
qed

lemma total_message:
  assumes "nested_within l e fs" and "l < n"
  shows "returns (pb_encode n e h fs d s)"
  using assms
proof (induction n arbitrary: l fs d s)
  case (Suc n)
  then obtain l' where l: "l = Suc l'" "l' < n" by (cases l) auto
  note nest = nested_field [OF Suc.prems(1) [unfolded l(1)]]
  have "returns (encode_iter (pb_encode n e h) n e h (iter_nth fs d k) t)" if k: "k < n_fields fs" for k t
  proof -
    have "returns (encode_field (pb_encode n e h) n e h (field_at fs k) p t)" for p t
      using nest [OF k] Suc.IH l(2) by (intro total_field) blast+
    with nest(1) [OF k] k show ?thesis by (simp add: encode_iter_def encodable_def)
  qed
  then have "n_fields fs \<noteq> 0 \<Longrightarrow>
      returns (iter_loop (encode_iter (pb_encode n e h) n e h) (iter_nth fs d 0) s)"
    by (intro iter_loop_total) simp_all
  then show ?case unfolding encode_begin by auto
qed simp

text \<open>C5: termination. For a descriptor whose messages nest at most \<open>l\<close> deep and that has no
  extension field, \<open>pb_encode\<close> returns true or false on every message, stream and environment.\<close>

theorem pb_encode_returns:
  assumes "nested_within l e fs" and "l < n"
  shows "\<exists>ok t. pb_encode n e h fs d s = Some (ok, t)"
  using total_message [OF assms] by (auto simp: returns_iff)

theorem pb_encode_returns_witness:
  "\<exists>ok t. pb_encode 2 plain_env demo_heap demo_fields 0x1000 (pb_ostream_from_buffer 16) = Some (ok, t)"
proof (rule pb_encode_returns)
  show "nested_within 1 plain_env demo_fields" by code_simp
qed simp

end
