(* ===== verification/Pb_Release.thy ===== *)
theory Pb_Release imports Pb_Istream begin

text \<open>
  The parts of \<open>nanopb/pb_decode.c\<close> that walk over a message in memory without a stream: setting the
  fields to their defaults (\<open>pb_message_set_to_defaults\<close>) and releasing what they own
  (\<open>pb_release\<close>). Both recurse through submessages and extension lists; the fuel bounds the depth
  and the length of a list, and \<open>None\<close> means that it was too small.
\<close>

subsection \<open>Counts and extensions\<close>

text \<open>\<open>*(pb_size_t*)iter->pSize\<close>.\<close>

definition load_size :: "heap \<Rightarrow> slot \<Rightarrow> u32" where
  "load_size h sl = (case sl of Slot p \<Rightarrow> load32 h p | Local_slot \<Rightarrow> hfixed h)"

definition store_size :: "slot \<Rightarrow> u32 \<Rightarrow> heap \<Rightarrow> heap" where
  "store_size sl v h = (case sl of Slot p \<Rightarrow> store32 p v h | Local_slot \<Rightarrow> h\<lparr>hfixed := v\<rparr>)"

text \<open>\<open>*(bool*)iter->pSize = b\<close>: one byte, the lowest of the local counter.\<close>

definition store_has :: "slot \<Rightarrow> bool \<Rightarrow> heap \<Rightarrow> heap" where
  "store_has sl b h = (case sl of
     Slot p \<Rightarrow> store_bool p b h
   | Local_slot \<Rightarrow> h\<lparr>hfixed := (hfixed h AND 0xFFFFFF00) OR (if b then 1 else 0)\<rparr>)"

definition iter_from_extension :: "'u env \<Rightarrow> heap \<Rightarrow> ptr \<Rightarrow> iter" where
  "iter_from_extension e h extension =
     (let fs = e_fields e (ext_type_arg h (ext_type h extension));
          it = snd (pb_field_iter_begin fs (ext_dest h extension))
      in it\<lparr>pData := (if PB_ATYPE (ftype (field_at fs 0)) = PB_ATYPE_POINTER
                       then ext_dest_addr extension else ext_dest h extension),
            pSize := Slot (ext_found_addr extension)\<rparr>)"

text \<open>The loop \<open>while (ext != NULL) { ...; ext = ext->next; }\<close> over at most \<open>k\<close> extensions, and the
  loop over the fields of a message.\<close>

primrec each_extension ::
  "nat \<Rightarrow> (ptr \<Rightarrow> heap \<Rightarrow> heap option) \<Rightarrow> ptr \<Rightarrow> heap \<Rightarrow> heap option" where
  "each_extension 0 f ext h = None"
| "each_extension (Suc k) f ext h =
     (if ext = 0 then Some h
      else Option.bind (f ext h) (\<lambda>h'. each_extension k f (ext_next h' ext) h'))"

definition each_field ::
  "(iter \<Rightarrow> heap \<Rightarrow> heap option) \<Rightarrow> pb_field list \<Rightarrow> ptr \<Rightarrow> heap \<Rightarrow> heap option" where
  "each_field f fs d h =
     (case pb_field_iter_begin fs d of
        (nonempty, it) \<Rightarrow>
          if nonempty
          then map_option snd (iter_loop (\<lambda>it h. map_option (Pair True) (f it h)) it h)
          else Some h)"

subsection \<open>Default values\<close>

text \<open>\<open>msg\<close> and \<open>fld\<close> are the recursive calls for a message and for a field.\<close>

definition set_default_body ::
  "(pb_field list \<Rightarrow> ptr \<Rightarrow> heap \<Rightarrow> heap option) \<Rightarrow> (iter \<Rightarrow> heap \<Rightarrow> heap option) \<Rightarrow> nat
     \<Rightarrow> 'u env \<Rightarrow> iter \<Rightarrow> heap \<Rightarrow> heap option" where
  "set_default_body msg fld n e it h =
     (let field = it_field it; t = ftype field in
      if PB_LTYPE t = PB_LTYPE_EXTENSION then
        each_extension n (\<lambda>ext h.
          let h' = store_bool (ext_found_addr ext) False h
          in fld (iter_from_extension e h' ext) h') (load64 h (pData it)) h
      else if PB_ATYPE t = PB_ATYPE_STATIC then
        let opt = (PB_HTYPE t = PB_HTYPE_OPTIONAL \<and> pSize it \<noteq> Slot (pData it));
            counted = (PB_HTYPE t = PB_HTYPE_REPEATED \<or> PB_HTYPE t = PB_HTYPE_ONEOF);
            h' = (if opt then store_has (pSize it) False h
                  else if counted then store_size (pSize it) 0 h else h)
        in if \<not> opt \<and> counted then Some h'
           else if PB_LTYPE t = PB_LTYPE_SUBMESSAGE
           then msg (e_fields e (fptr field)) (pData it) h'
           else if fptr field \<noteq> 0
           then Some (mem_copy (pData it) (fptr field) (unat (data_size field)) h')
           else Some (mem_zero (pData it) (unat (data_size field)) h')
      else if PB_ATYPE t = PB_ATYPE_POINTER then
        let h' = store64 (pData it) 0 h
        in Some (if PB_HTYPE t = PB_HTYPE_REPEATED \<or> PB_HTYPE t = PB_HTYPE_ONEOF
                 then store_size (pSize it) 0 h' else h')
      else Some h)"

primrec pb_field_set_to_default :: "nat \<Rightarrow> 'u env \<Rightarrow> iter \<Rightarrow> heap \<Rightarrow> heap option" where
  "pb_field_set_to_default 0 e it h = None"
| "pb_field_set_to_default (Suc n) e it h =
     set_default_body (each_field (pb_field_set_to_default n e)) (pb_field_set_to_default n e) n e it h"

definition pb_message_set_to_defaults ::
  "nat \<Rightarrow> 'u env \<Rightarrow> pb_field list \<Rightarrow> ptr \<Rightarrow> heap \<Rightarrow> heap option" where
  "pb_message_set_to_defaults n e fs d h = each_field (pb_field_set_to_default n e) fs d h"

subsection \<open>Releasing\<close>

text \<open>The loops \<open>while (count--)\<close> over submessages and over an array of pointers.\<close>

primrec release_items ::
  "(ptr \<Rightarrow> heap \<Rightarrow> heap option) \<Rightarrow> csize \<Rightarrow> nat \<Rightarrow> ptr \<Rightarrow> heap \<Rightarrow> heap option" where
  "release_items msg sz 0 p h = Some h"
| "release_items msg sz (Suc n) p h = Option.bind (msg p h) (release_items msg sz n (p + sz))"

primrec free_items :: "nat \<Rightarrow> ptr \<Rightarrow> heap \<Rightarrow> heap" where
  "free_items 0 p h = h"
| "free_items (Suc n) p h = free_items n (p + 8) (store64 p 0 (c_free (load64 h p) h))"

definition item_count :: "iter \<Rightarrow> heap \<Rightarrow> u32" where
  "item_count it h =
     (let field = it_field it; t = ftype field in
      if PB_HTYPE t = PB_HTYPE_REPEATED then
        let count = (if PB_ATYPE t = PB_ATYPE_STATIC \<and> pSize it = Slot (pData it)
                     then array_size field else load_size h (pSize it))
        in if PB_ATYPE t = PB_ATYPE_STATIC \<and> array_size field < count
           then array_size field else count
      else 1)"

text \<open>The last part: the memory of a pointer field itself.\<close>

definition release_pointer :: "iter \<Rightarrow> heap \<Rightarrow> heap" where
  "release_pointer it h =
     (let t = ftype (it_field it);
          h1 = (if PB_HTYPE t = PB_HTYPE_REPEATED
                   \<and> (PB_LTYPE t = PB_LTYPE_STRING \<or> PB_LTYPE t = PB_LTYPE_BYTES)
                then free_items (unat (load_size h (pSize it))) (load64 h (pData it)) h else h);
          h2 = (if PB_HTYPE t = PB_HTYPE_REPEATED then store_size (pSize it) 0 h1 else h1)
      in store64 (pData it) 0 (c_free (load64 h2 (pData it)) h2))"

definition release_body ::
  "(pb_field list \<Rightarrow> ptr \<Rightarrow> heap \<Rightarrow> heap option) \<Rightarrow> (iter \<Rightarrow> heap \<Rightarrow> heap option) \<Rightarrow> nat
     \<Rightarrow> 'u env \<Rightarrow> iter \<Rightarrow> heap \<Rightarrow> heap option" where
  "release_body msg fld n e it h =
     (let field = it_field it; t = ftype field in
      if PB_HTYPE t = PB_HTYPE_ONEOF \<and> load_size h (pSize it) \<noteq> tag field then Some h
      else
        Option.bind
          (if PB_LTYPE t = PB_LTYPE_EXTENSION
           then each_extension n (\<lambda>ext h. fld (iter_from_extension e h ext) h)
                  (load64 h (pData it)) h
           else if PB_LTYPE t = PB_LTYPE_SUBMESSAGE \<and> PB_ATYPE t \<noteq> PB_ATYPE_CALLBACK then
             let pItem = (if PB_ATYPE t = PB_ATYPE_POINTER then load64 h (pData it) else pData it)
             in if pItem \<noteq> 0
                then release_items (msg (e_fields e (fptr field))) (ucast (data_size field))
                       (unat (item_count it h)) pItem h
                else Some h
           else Some h)
          (\<lambda>h. Some (if PB_ATYPE t = PB_ATYPE_POINTER then release_pointer it h else h)))"

definition release_message ::
  "(iter \<Rightarrow> heap \<Rightarrow> heap option) \<Rightarrow> pb_field list \<Rightarrow> ptr \<Rightarrow> heap \<Rightarrow> heap option" where
  "release_message fld fs d h = (if d = 0 then Some h else each_field fld fs d h)"

primrec pb_release_single_field :: "nat \<Rightarrow> 'u env \<Rightarrow> iter \<Rightarrow> heap \<Rightarrow> heap option" where
  "pb_release_single_field 0 e it h = None"
| "pb_release_single_field (Suc n) e it h =
     release_body (release_message (pb_release_single_field n e)) (pb_release_single_field n e) n e it h"

definition pb_release :: "nat \<Rightarrow> 'u env \<Rightarrow> pb_field list \<Rightarrow> ptr \<Rightarrow> heap \<Rightarrow> heap option" where
  "pb_release n e fs d h = release_message (pb_release_single_field n e) fs d h"

subsection \<open>The loop over the fields\<close>

lemma each_field_rel:
  assumes refl: "\<And>h. Q h h" and trans: "\<And>h h1 h2. Q h h1 \<Longrightarrow> Q h1 h2 \<Longrightarrow> Q h h2"
    and body: "\<And>j h h'. j < n_fields fs \<Longrightarrow> f (iter_nth fs d j) h = Some h' \<Longrightarrow> Q h h'"
    and r: "each_field f fs d h = Some h'"
  shows "Q h h'"
proof (cases "n_fields fs = 0")
  case True
  with r pb_field_iter_begin_nonempty [of fs d] refl show ?thesis
    by (auto simp: each_field_def split: prod.splits if_splits)
next
  case False
  then obtain b where "iter_loop (\<lambda>it h. map_option (Pair True) (f it h)) (iter_nth fs d 0) h = Some (b, h')"
    using r pb_field_iter_begin_nonempty [of fs d]
    by (auto simp: each_field_def iter_nth.simps split: prod.splits)
  from iter_loop_rel [where Q = "\<lambda>_. Q" and k = 0, OF refl _ _ _ this] False trans body
  show ?thesis by blast
qed

end
