(* ===== verification/Pb_Decode.thy ===== *)
theory Pb_Decode imports Pb_Release begin

text \<open>
  \<open>nanopb/pb_decode.c\<close> from the field decoders up to \<open>pb_decode\<close>. The state is the input stream and
  the heap. As in the encoder, the recursive call is an argument, \<open>dec init fields dest\<close>, where
  \<open>init\<close> distinguishes \<open>pb_decode\<close> from \<open>pb_decode_noinit\<close>; \<open>pb_decode_noinit\<close> ties the knot with a
  fuel. \<open>None\<close> means that there is no defined result: the fuel was too small, or the code called
  through a NULL entry of \<open>PB_DECODERS\<close> or divided by an item size of zero. \<open>Pb_Decode_Total\<close> gives a
  fuel and the descriptors for which none of this happens.
\<close>

type_synonym 'u dec_state = "'u istream \<times> heap"
type_synonym 'u dec_res = "(bool \<times> 'u dec_state) option"
type_synonym 'u msg_decoder = "bool \<Rightarrow> pb_field list \<Rightarrow> ptr \<Rightarrow> 'u dec_state \<Rightarrow> 'u dec_res"

definition dec_error :: "string \<Rightarrow> 'u dec_state \<Rightarrow> 'u dec_res" where
  "dec_error msg sh = (case sh of (s, h) \<Rightarrow> Some (False, (PB_SET_ERROR_is msg s, h)))"

text \<open>\<open>pb_read(stream, p, n)\<close> into memory.\<close>

definition pb_read_mem :: "'u env \<Rightarrow> ptr \<Rightarrow> csize \<Rightarrow> 'u dec_state \<Rightarrow> 'u dec_res" where
  "pb_read_mem e p n sh = (case sh of (s, h) \<Rightarrow>
     case pb_read e n s of
       (None, s') \<Rightarrow> Some (False, (s', h))
     | (Some bs, s') \<Rightarrow> Some (True, (s', store_bytes p (take (unat n) bs) h)))"

subsection \<open>Allocation\<close>

definition allocate_field :: "'u env \<Rightarrow> ptr \<Rightarrow> csize \<Rightarrow> csize \<Rightarrow> 'u dec_state \<Rightarrow> 'u dec_res" where
  "allocate_field e p data_sz array_sz sh = (case sh of (s, h) \<Rightarrow>
     if data_sz = 0 \<or> array_sz = 0 then dec_error ''invalid size'' (s, h)
     else if (2 ^ 32 \<le> data_sz \<or> 2 ^ 32 \<le> array_sz) \<and> (- 1) div array_sz < data_sz
     then dec_error ''size too large'' (s, h)
     else case c_realloc (e_alloc e) (load64 h p) (array_sz * data_sz) h of (q, h') \<Rightarrow>
       if q = 0 then dec_error ''realloc failed'' (s, h')
       else Some (True, (s, store64 p q h')))"

definition initialize_pointer_field ::
  "nat \<Rightarrow> 'u env \<Rightarrow> ptr \<Rightarrow> pb_field \<Rightarrow> heap \<Rightarrow> heap option" where
  "initialize_pointer_field n e pItem field h =
     (let l = PB_LTYPE (ftype field) in
      if l = PB_LTYPE_STRING \<or> l = PB_LTYPE_BYTES then Some (store64 pItem 0 h)
      else if l = PB_LTYPE_SUBMESSAGE
      then pb_message_set_to_defaults n e (e_fields e (fptr field)) pItem
             (mem_zero pItem (unat (data_size field)) h)
      else Some h)"

subsection \<open>Decoders of single fields\<close>

definition pb_dec_bool :: "'u env \<Rightarrow> pb_field \<Rightarrow> ptr \<Rightarrow> 'u dec_state \<Rightarrow> 'u dec_res" where
  "pb_dec_bool e field dest sh = (case sh of (s, h) \<Rightarrow>
     case pb_decode_varint32 e s of
       (None, s') \<Rightarrow> Some (False, (s', h))
     | (Some value, s') \<Rightarrow> Some (True, (s', store_bool dest (value \<noteq> 0) h)))"

text \<open>The cascade of casts: the stored member, read back at 64 bits, and the heap.\<close>

definition store_signed :: "u32 \<Rightarrow> ptr \<Rightarrow> u64 \<Rightarrow> heap \<Rightarrow> (u64 \<times> heap) option" where
  "store_signed sz p v h =
     (if sz = 8 then Some (v, store64 p v h)
      else if sz = 4 then Some (scast (ucast v :: u32), store32 p (ucast v) h)
      else if sz = 2 then Some (scast (ucast v :: u16), store16 p (ucast v) h)
      else if sz = 1 then Some (scast (ucast v :: byte), store8 p (ucast v) h)
      else None)"

definition store_unsigned :: "u32 \<Rightarrow> ptr \<Rightarrow> u64 \<Rightarrow> heap \<Rightarrow> (u64 \<times> heap) option" where
  "store_unsigned sz p v h =
     (if sz = 8 then Some (v, store64 p v h)
      else if sz = 4 then Some (ucast (ucast v :: u32), store32 p (ucast v) h)
      else if sz = 2 then Some (ucast (ucast v :: u16), store16 p (ucast v) h)
      else if sz = 1 then Some (ucast (ucast v :: byte), store8 p (ucast v) h)
      else None)"

definition store_checked ::
  "(u32 \<Rightarrow> ptr \<Rightarrow> u64 \<Rightarrow> heap \<Rightarrow> (u64 \<times> heap) option) \<Rightarrow> pb_field \<Rightarrow> ptr \<Rightarrow> u64
     \<Rightarrow> 'u dec_state \<Rightarrow> 'u dec_res" where
  "store_checked store field dest value sh = (case sh of (s, h) \<Rightarrow>
     case store (data_size field) dest value h of
       None \<Rightarrow> dec_error ''invalid data_size'' (s, h)
     | Some (clamped, h') \<Rightarrow>
         if clamped \<noteq> value then dec_error ''integer too large'' (s, h')
         else Some (True, (s, h')))"

definition pb_dec_varint :: "'u env \<Rightarrow> pb_field \<Rightarrow> ptr \<Rightarrow> 'u dec_state \<Rightarrow> 'u dec_res" where
  "pb_dec_varint e field dest sh = (case sh of (s, h) \<Rightarrow>
     case pb_decode_varint e s of
       (None, s') \<Rightarrow> Some (False, (s', h))
     | (Some value, s') \<Rightarrow>
         let svalue = (if data_size field = 8 then value else scast (ucast value :: u32))
         in store_checked store_signed field dest svalue (s', h))"

definition pb_dec_uvarint :: "'u env \<Rightarrow> pb_field \<Rightarrow> ptr \<Rightarrow> 'u dec_state \<Rightarrow> 'u dec_res" where
  "pb_dec_uvarint e field dest sh = (case sh of (s, h) \<Rightarrow>
     case pb_decode_varint e s of
       (None, s') \<Rightarrow> Some (False, (s', h))
     | (Some value, s') \<Rightarrow> store_checked store_unsigned field dest value (s', h))"

definition pb_dec_svarint :: "'u env \<Rightarrow> pb_field \<Rightarrow> ptr \<Rightarrow> 'u dec_state \<Rightarrow> 'u dec_res" where
  "pb_dec_svarint e field dest sh = (case sh of (s, h) \<Rightarrow>
     case pb_decode_svarint e s of
       (None, s') \<Rightarrow> Some (False, (s', h))
     | (Some value, s') \<Rightarrow> store_checked store_signed field dest value (s', h))"

definition pb_dec_fixed32 :: "'u env \<Rightarrow> pb_field \<Rightarrow> ptr \<Rightarrow> 'u dec_state \<Rightarrow> 'u dec_res" where
  "pb_dec_fixed32 e field dest sh = (case sh of (s, h) \<Rightarrow>
     case pb_decode_fixed32 e s of
       (None, s') \<Rightarrow> Some (False, (s', h))
     | (Some value, s') \<Rightarrow> Some (True, (s', store32 dest value h)))"

definition pb_dec_fixed64 :: "'u env \<Rightarrow> pb_field \<Rightarrow> ptr \<Rightarrow> 'u dec_state \<Rightarrow> 'u dec_res" where
  "pb_dec_fixed64 e field dest sh = (case sh of (s, h) \<Rightarrow>
     case pb_decode_fixed64 e s of
       (None, s') \<Rightarrow> Some (False, (s', h))
     | (Some value, s') \<Rightarrow> Some (True, (s', store64 dest value h)))"

definition pb_dec_bytes :: "'u env \<Rightarrow> pb_field \<Rightarrow> ptr \<Rightarrow> 'u dec_state \<Rightarrow> 'u dec_res" where
  "pb_dec_bytes e field dest sh = (case sh of (s, h) \<Rightarrow>
     case pb_decode_varint32 e s of
       (None, s') \<Rightarrow> Some (False, (s', h))
     | (Some sz, s') \<Rightarrow>
         let alloc_size = PB_BYTES_ARRAY_T_ALLOCSIZE (ucast sz);
             body = (\<lambda>bdest (s, h). pb_read_mem e (bytes_array_bytes bdest) (ucast sz)
                                      (s, store32 bdest sz h))
         in if PB_SIZE_MAX < sz then dec_error ''bytes overflow'' (s', h)
            else if alloc_size < ucast sz then dec_error ''size too large'' (s', h)
            else if PB_ATYPE (ftype field) = PB_ATYPE_POINTER then
              if is_bytes_left s' < ucast sz then dec_error ''end-of-stream'' (s', h)
              else and_then (allocate_field e dest alloc_size 1 (s', h))
                     (\<lambda>(s, h). body (load64 h dest) (s, h))
            else if ucast (data_size field) < alloc_size then dec_error ''bytes overflow'' (s', h)
            else body dest (s', h))"

text \<open>\<open>size + 1\<close> is computed at 32 bits. The terminator is written whether or not the read succeeds.\<close>

definition pb_dec_string :: "'u env \<Rightarrow> pb_field \<Rightarrow> ptr \<Rightarrow> 'u dec_state \<Rightarrow> 'u dec_res" where
  "pb_dec_string e field dest sh = (case sh of (s, h) \<Rightarrow>
     case pb_decode_varint32 e s of
       (None, s') \<Rightarrow> Some (False, (s', h))
     | (Some sz, s') \<Rightarrow>
         let alloc_size = ucast (sz + 1) :: csize;
             body = (\<lambda>dest sh. map_option
               (\<lambda>(status, s, h). (status, (s, store8 (dest + ucast sz) 0 h)))
               (pb_read_mem e dest (ucast sz) sh))
         in if alloc_size < ucast sz then dec_error ''size too large'' (s', h)
            else if PB_ATYPE (ftype field) = PB_ATYPE_POINTER then
              if is_bytes_left s' < ucast sz then dec_error ''end-of-stream'' (s', h)
              else and_then (allocate_field e dest alloc_size 1 (s', h))
                     (\<lambda>(s, h). body (load64 h dest) (s, h))
            else if ucast (data_size field) < alloc_size then dec_error ''string overflow'' (s', h)
            else body dest (s', h))"

text \<open>A fault on a substream that is dropped without being closed is a fault of the run.\<close>

definition inherit_fault :: "'u istream \<Rightarrow> 'u istream \<Rightarrow> 'u istream" where
  "inherit_fault sub s = s\<lparr>is_fault := is_fault s \<or> is_fault sub\<rparr>"

text \<open>Work on a length-delimited part of the stream, then close it; the result is that of the work.\<close>

definition in_substream ::
  "'u env \<Rightarrow> ('u dec_state \<Rightarrow> 'u dec_res) \<Rightarrow> 'u dec_state \<Rightarrow> 'u dec_res" where
  "in_substream e f sh = (case sh of (s, h) \<Rightarrow>
     case pb_make_string_substream e s of
       (None, s') \<Rightarrow> Some (False, (s', h))
     | (Some sub, s') \<Rightarrow>
         (case f (sub, h) of
            None \<Rightarrow> None
          | Some (status, sub', h') \<Rightarrow>
              (case pb_close_string_substream e s' sub' of
                 (ok, s'') \<Rightarrow> Some (ok \<and> status, (s'', h')))))"

definition pb_dec_submessage ::
  "'u msg_decoder \<Rightarrow> 'u env \<Rightarrow> pb_field \<Rightarrow> ptr \<Rightarrow> 'u dec_state \<Rightarrow> 'u dec_res" where
  "pb_dec_submessage dec e field dest sh =
     (if fptr field = 0
      then (case sh of (s, h) \<Rightarrow> case pb_make_string_substream e s of
              (None, s') \<Rightarrow> Some (False, (s', h))
            | (Some _, s') \<Rightarrow> dec_error ''invalid field descriptor'' (s', h))
      else in_substream e
             (dec (PB_HTYPE (ftype field) = PB_HTYPE_REPEATED) (e_fields e (fptr field)) dest) sh)"

definition pb_dec_fixed_length_bytes ::
  "'u env \<Rightarrow> pb_field \<Rightarrow> ptr \<Rightarrow> 'u dec_state \<Rightarrow> 'u dec_res" where
  "pb_dec_fixed_length_bytes e field dest sh = (case sh of (s, h) \<Rightarrow>
     case pb_decode_varint32 e s of
       (None, s') \<Rightarrow> Some (False, (s', h))
     | (Some sz, s') \<Rightarrow>
         if PB_SIZE_MAX < sz then dec_error ''bytes overflow'' (s', h)
         else if sz = 0 then Some (True, (s', mem_zero dest (unat (data_size field)) h))
         else if sz \<noteq> data_size field
         then dec_error ''incorrect fixed length bytes size'' (s', h)
         else pb_read_mem e dest (ucast (data_size field)) (s', h))"

definition PB_DECODERS ::
  "'u msg_decoder \<Rightarrow> 'u env \<Rightarrow> pb_field \<Rightarrow> ptr \<Rightarrow> 'u dec_state \<Rightarrow> 'u dec_res" where
  "PB_DECODERS dec e field dest sh =
     (let l = PB_LTYPE (ftype field) in
      if l = PB_LTYPE_BOOL then pb_dec_bool e field dest sh
      else if l = PB_LTYPE_VARINT then pb_dec_varint e field dest sh
      else if l = PB_LTYPE_UVARINT then pb_dec_uvarint e field dest sh
      else if l = PB_LTYPE_SVARINT then pb_dec_svarint e field dest sh
      else if l = PB_LTYPE_FIXED32 then pb_dec_fixed32 e field dest sh
      else if l = PB_LTYPE_FIXED64 then pb_dec_fixed64 e field dest sh
      else if l = PB_LTYPE_BYTES then pb_dec_bytes e field dest sh
      else if l = PB_LTYPE_STRING then pb_dec_string e field dest sh
      else if l = PB_LTYPE_SUBMESSAGE then pb_dec_submessage dec e field dest sh
      else if l = PB_LTYPE_FIXED_LENGTH_BYTES then pb_dec_fixed_length_bytes e field dest sh
      else None)"

subsection \<open>Statically allocated fields\<close>

text \<open>\<open>(char* )base + field->data_size * n\<close>: the product is computed at 32 bits.\<close>

definition item_addr :: "ptr \<Rightarrow> pb_field \<Rightarrow> u32 \<Rightarrow> ptr" where
  "item_addr base field n = base + ucast (data_size field * n)"

text \<open>The loop over a packed array: the substream and the heap. The fuel is one more than the bytes
  left; each item takes at least one.\<close>

primrec packed_static_loop ::
  "nat \<Rightarrow> (ptr \<Rightarrow> 'u dec_state \<Rightarrow> 'u dec_res) \<Rightarrow> iter \<Rightarrow> 'u dec_state \<Rightarrow> 'u dec_res" where
  "packed_static_loop 0 func it sh = None"
| "packed_static_loop (Suc k) func it sh = (case sh of (sub, h) \<Rightarrow>
     let n = load_size h (pSize it) in
     if is_bytes_left sub \<noteq> 0 \<and> n < array_size (it_field it)
     then and_then (func (item_addr (pData it) (it_field it) n) (sub, h))
            (\<lambda>(sub, h). packed_static_loop k func it
               (sub, store_size (pSize it) (load_size h (pSize it) + 1) h))
     else Some (True, (sub, h)))"

definition decode_packed_static ::
  "'u env \<Rightarrow> (ptr \<Rightarrow> 'u dec_state \<Rightarrow> 'u dec_res) \<Rightarrow> iter \<Rightarrow> 'u dec_state \<Rightarrow> 'u dec_res" where
  "decode_packed_static e func it sh = (case sh of (s, h) \<Rightarrow>
     case pb_make_string_substream e s of
       (None, s') \<Rightarrow> Some (False, (s', h))
     | (Some sub, s') \<Rightarrow>
         (case packed_static_loop (Suc (unat (is_bytes_left sub))) func it (sub, h) of
            None \<Rightarrow> None
          | Some (status, sub', h') \<Rightarrow>
              if is_bytes_left sub' \<noteq> 0
              then dec_error ''array overflow'' (inherit_fault sub' s', h')
              else (case pb_close_string_substream e s' sub' of
                      (ok, s'') \<Rightarrow> Some (ok \<and> status, (s'', h')))))"

text \<open>Switching a oneof to a submessage clears the union and sets the defaults.\<close>

definition switch_oneof :: "nat \<Rightarrow> 'u env \<Rightarrow> iter \<Rightarrow> heap \<Rightarrow> heap option" where
  "switch_oneof n e it h =
     (let field = it_field it in
      if PB_LTYPE (ftype field) = PB_LTYPE_SUBMESSAGE \<and> load_size h (pSize it) \<noteq> tag field
      then pb_message_set_to_defaults n e (e_fields e (fptr field)) (pData it)
             (mem_zero (pData it) (unat (data_size field)) h)
      else Some h)"

definition decode_static_field ::
  "'u msg_decoder \<Rightarrow> nat \<Rightarrow> 'u env \<Rightarrow> u32 \<Rightarrow> iter \<Rightarrow> 'u dec_state \<Rightarrow> 'u dec_res" where
  "decode_static_field dec n e wire_type it sh = (case sh of (s, h) \<Rightarrow>
     let field = it_field it; t = ftype field; func = PB_DECODERS dec e field in
     if PB_HTYPE t = PB_HTYPE_REQUIRED then func (pData it) (s, h)
     else if PB_HTYPE t = PB_HTYPE_OPTIONAL
     then func (pData it)
            (s, if pSize it \<noteq> Slot (pData it) then store_has (pSize it) True h else h)
     else if PB_HTYPE t = PB_HTYPE_REPEATED then
       if wire_type = PB_WT_STRING \<and> PB_LTYPE t \<le> PB_LTYPE_LAST_PACKABLE
       then decode_packed_static e func it (s, h)
       else
         let n = load_size h (pSize it); h' = store_size (pSize it) (n + 1) h
         in if array_size field \<le> n then dec_error ''array overflow'' (s, h')
            else func (item_addr (pData it) field n) (s, h')
     else if PB_HTYPE t = PB_HTYPE_ONEOF then
       case switch_oneof n e it h of
         None \<Rightarrow> None
       | Some h' \<Rightarrow> func (pData it) (s, store_size (pSize it) (tag field) h')
     else dec_error ''invalid field type'' (s, h))"

subsection \<open>Dynamically allocated fields\<close>

text \<open>One item of an array or a single item: prepare it, then decode it.\<close>

definition decode_new_item ::
  "nat \<Rightarrow> 'u env \<Rightarrow> (ptr \<Rightarrow> 'u dec_state \<Rightarrow> 'u dec_res) \<Rightarrow> pb_field \<Rightarrow> ptr
     \<Rightarrow> 'u dec_state \<Rightarrow> 'u dec_res" where
  "decode_new_item n e func field pItem sh = (case sh of (s, h) \<Rightarrow>
     case initialize_pointer_field n e pItem field h of
       None \<Rightarrow> None
     | Some h' \<Rightarrow> func pItem (s, h'))"

text \<open>The storage to have after guessing the number of items still to come.\<close>

definition grow_alloc :: "pb_field \<Rightarrow> csize \<Rightarrow> csize \<Rightarrow> csize" where
  "grow_alloc field left allocated =
     (let remain = (left - 1) div ucast (data_size field) + 1
      in if remain < ucast PB_SIZE_MAX - allocated then allocated + remain else allocated + 1)"

text \<open>
  The loop over a packed array of a pointer field. The first stream is the parent, of which only
  the error message can change (and is overwritten when the substream is closed).
\<close>

primrec packed_pointer_loop ::
  "nat \<Rightarrow> nat \<Rightarrow> 'u env \<Rightarrow> (ptr \<Rightarrow> 'u dec_state \<Rightarrow> 'u dec_res) \<Rightarrow> iter \<Rightarrow> csize
     \<Rightarrow> 'u istream \<Rightarrow> 'u dec_state \<Rightarrow> ('u istream \<times> bool \<times> 'u dec_state) option" where
  "packed_pointer_loop 0 n e func it allocated s sh = None"
| "packed_pointer_loop (Suc k) n e func it allocated s sh = (case sh of (sub, h) \<Rightarrow>
     let field = it_field it; count = load_size h (pSize it) in
     if is_bytes_left sub = 0 then Some (s, True, (sub, h))
     else if count = PB_SIZE_MAX
     then Some (s\<lparr>is_errmsg := Some ''too many array entries''\<rparr>, False, (sub, h))
     else if data_size field = 0 \<and> allocated < ucast count + 1 then None
     else
       let grow = (allocated < ucast count + 1);
           allocated' = (if grow then grow_alloc field (is_bytes_left sub) allocated else allocated)
       in case and_then
             (if grow then allocate_field e (pData it) (ucast (data_size field)) allocated' (sub, h)
              else Some (True, (sub, h)))
             (\<lambda>(sub, h). decode_new_item n e func field
                (item_addr (load64 h (pData it)) field (load_size h (pSize it))) (sub, h)) of
           None \<Rightarrow> None
         | Some (ok, sub, h) \<Rightarrow>
             if ok
             then packed_pointer_loop k n e func it allocated' s
                    (sub, store_size (pSize it) (load_size h (pSize it) + 1) h)
             else Some (s, False, (sub, h)))"

definition decode_packed_pointer ::
  "nat \<Rightarrow> 'u env \<Rightarrow> (ptr \<Rightarrow> 'u dec_state \<Rightarrow> 'u dec_res) \<Rightarrow> iter \<Rightarrow> 'u dec_state \<Rightarrow> 'u dec_res" where
  "decode_packed_pointer n e func it sh = (case sh of (s, h) \<Rightarrow>
     case pb_make_string_substream e s of
       (None, s') \<Rightarrow> Some (False, (s', h))
     | (Some sub, s') \<Rightarrow>
         (case packed_pointer_loop (Suc (unat (is_bytes_left sub))) n e func it
                 (ucast (load_size h (pSize it))) s' (sub, h) of
            None \<Rightarrow> None
          | Some (s', status, sub', h') \<Rightarrow>
              (case pb_close_string_substream e s' sub' of
                 (ok, s'') \<Rightarrow> Some (ok \<and> status, (s'', h')))))"

definition decode_pointer_field ::
  "'u msg_decoder \<Rightarrow> nat \<Rightarrow> 'u env \<Rightarrow> u32 \<Rightarrow> iter \<Rightarrow> 'u dec_state \<Rightarrow> 'u dec_res" where
  "decode_pointer_field dec n e wire_type it sh = (case sh of (s, h) \<Rightarrow>
     let field = it_field it; t = ftype field; func = PB_DECODERS dec e field in
     if PB_HTYPE t = PB_HTYPE_REQUIRED \<or> PB_HTYPE t = PB_HTYPE_OPTIONAL
        \<or> PB_HTYPE t = PB_HTYPE_ONEOF
     then
       case (if PB_LTYPE t = PB_LTYPE_SUBMESSAGE \<and> load64 h (pData it) \<noteq> 0
             then pb_release_single_field n e it h else Some h) of
         None \<Rightarrow> None
       | Some h1 \<Rightarrow>
           let h2 = (if PB_HTYPE t = PB_HTYPE_ONEOF then store_size (pSize it) (tag field) h1 else h1)
           in if PB_LTYPE t = PB_LTYPE_STRING \<or> PB_LTYPE t = PB_LTYPE_BYTES
              then func (pData it) (s, h2)
              else and_then (allocate_field e (pData it) (ucast (data_size field)) 1 (s, h2))
                     (\<lambda>(s, h). decode_new_item n e func field (load64 h (pData it)) (s, h))
     else if PB_HTYPE t = PB_HTYPE_REPEATED then
       if wire_type = PB_WT_STRING \<and> PB_LTYPE t \<le> PB_LTYPE_LAST_PACKABLE
       then decode_packed_pointer n e func it (s, h)
       else
         let count = load_size h (pSize it) in
         if count = PB_SIZE_MAX then dec_error ''too many array entries'' (s, h)
         else and_then
           (allocate_field e (pData it) (ucast (data_size field)) (ucast (count + 1)) (s, h))
           (\<lambda>(s, h). let c = load_size h (pSize it) in
              decode_new_item n e func field (item_addr (load64 h (pData it)) field c)
                (s, store_size (pSize it) (c + 1) h))
     else dec_error ''invalid field type'' (s, h))"

subsection \<open>Callback fields\<close>

text \<open>A call of the application's field decoder. The library's local counter is out of its reach.\<close>

definition call_decoder ::
  "'u env \<Rightarrow> ptr \<Rightarrow> pb_field \<Rightarrow> ptr \<Rightarrow> 'u dec_state \<Rightarrow> bool \<times> 'u dec_state" where
  "call_decoder e func field arg sh = (case sh of (s, h) \<Rightarrow>
     case e_dec_cb e func s field arg h of
       (ok, s', h') \<Rightarrow> (ok, (s', h'\<lparr>hfixed := hfixed h\<rparr>)))"

text \<open>The loop \<open>do { call } while (substream.bytes_left)\<close>. Nothing makes the callback read, so only the
  fuel bounds it.\<close>

primrec callback_loop :: "nat \<Rightarrow> 'u env \<Rightarrow> iter \<Rightarrow> 'u dec_state \<Rightarrow> 'u dec_res" where
  "callback_loop 0 e it sh = None"
| "callback_loop (Suc k) e it sh = (case sh of (sub, h) \<Rightarrow>
     and_then (Some (call_decoder e (callback_func h (pData it)) (it_field it)
                       (callback_arg (pData it)) (sub, h)))
       (\<lambda>(sub, h). if is_bytes_left sub \<noteq> 0 then callback_loop k e it (sub, h)
                   else Some (True, (sub, h))))"

text \<open>The raw bytes of a scalar are copied to a local buffer, which becomes the callback's stream.\<close>

definition decode_callback_field ::
  "nat \<Rightarrow> 'u env \<Rightarrow> u32 \<Rightarrow> iter \<Rightarrow> 'u dec_state \<Rightarrow> 'u dec_res" where
  "decode_callback_field n e wire_type it sh = (case sh of (s, h) \<Rightarrow>
     if pData it = 0 \<or> callback_func h (pData it) = 0
     then (case pb_skip_field e wire_type s of (ok, s') \<Rightarrow> Some (ok, (s', h)))
     else if wire_type = PB_WT_STRING then
       case pb_make_string_substream e s of
         (None, s') \<Rightarrow> Some (False, (s', h))
       | (Some sub, s') \<Rightarrow>
           (case callback_loop n e it (sub, h) of
              None \<Rightarrow> None
            | Some (ok, sub', h') \<Rightarrow>
                if ok then (case pb_close_string_substream e s' sub' of
                              (ok', s'') \<Rightarrow> Some (ok', (s'', h')))
                else dec_error ''callback failed'' (inherit_fault sub' s', h'))
     else
       case read_raw_value e wire_type 10 s of
         (None, s') \<Rightarrow> Some (False, (s', h))
       | (Some buf, s') \<Rightarrow>
           (case call_decoder e (callback_func h (pData it)) (it_field it)
                   (callback_arg (pData it))
                   (pb_istream_from_buffer buf (of_nat (length buf)), h) of
              (ok, sub, h') \<Rightarrow>
                Some (ok, (inherit_fault sub s', h'))))"

subsection \<open>Any field\<close>

text \<open>Before a member of a oneof is decoded, the member that was there is released. The iterator
  goes to the old member and back.\<close>

definition pb_release_union_field ::
  "nat \<Rightarrow> 'u env \<Rightarrow> iter \<Rightarrow> 'u dec_state \<Rightarrow> (bool \<times> iter \<times> 'u dec_state) option" where
  "pb_release_union_field n e it sh = (case sh of (s, h) \<Rightarrow>
     let old_tag = load_size h (pSize it); new_tag = tag (it_field it) in
     if old_tag = 0 \<or> old_tag = new_tag then Some (True, it, (s, h))
     else case pb_field_iter_find it old_tag of
       None \<Rightarrow> None
     | Some (found, it1) \<Rightarrow>
         if \<not> found then Some (False, it1, (PB_SET_ERROR_is ''invalid union tag'' s, h))
         else case pb_release_single_field n e it1 h of
           None \<Rightarrow> None
         | Some h' \<Rightarrow>
             (case pb_field_iter_find it1 new_tag of
                None \<Rightarrow> None
              | Some (found', it2) \<Rightarrow>
                  if \<not> found' then Some (False, it2, (PB_SET_ERROR_is ''iterator error'' s, h'))
                  else Some (True, it2,
                    (s, if PB_ATYPE (ftype (it_field it2)) = PB_ATYPE_POINTER
                        then store64 (pData it2) 0 h' else h'))))"

definition decode_field ::
  "'u msg_decoder \<Rightarrow> nat \<Rightarrow> 'u env \<Rightarrow> u32 \<Rightarrow> iter \<Rightarrow> 'u dec_state
     \<Rightarrow> (bool \<times> iter \<times> 'u dec_state) option" where
  "decode_field dec n e wire_type it sh =
     (case (if PB_HTYPE (ftype (it_field it)) = PB_HTYPE_ONEOF
            then pb_release_union_field n e it sh else Some (True, it, sh)) of
        None \<Rightarrow> None
      | Some (ok, it', sh') \<Rightarrow>
          if \<not> ok then Some (False, it', sh')
          else
            let a = PB_ATYPE (ftype (it_field it')) in
            map_option (\<lambda>(ok, sh). (ok, it', sh))
              (if a = PB_ATYPE_STATIC then decode_static_field dec n e wire_type it' sh'
               else if a = PB_ATYPE_POINTER then decode_pointer_field dec n e wire_type it' sh'
               else if a = PB_ATYPE_CALLBACK then decode_callback_field n e wire_type it' sh'
               else dec_error ''invalid field type'' sh'))"

subsection \<open>Extensions\<close>

definition default_extension_decoder ::
  "'u msg_decoder \<Rightarrow> nat \<Rightarrow> 'u env \<Rightarrow> ptr \<Rightarrow> u32 \<Rightarrow> u32 \<Rightarrow> 'u dec_state \<Rightarrow> 'u dec_res" where
  "default_extension_decoder dec n e ext t wire_type sh = (case sh of (s, h) \<Rightarrow>
     if tag (field_at (e_fields e (ext_type_arg h (ext_type h ext))) 0) \<noteq> t
     then Some (True, (s, h))
     else map_option (\<lambda>(ok, it, sh). (ok, sh))
            (decode_field dec n e wire_type (iter_from_extension e h ext)
               (s, store_bool (ext_found_addr ext) True h)))"

definition call_ext_decoder ::
  "'u env \<Rightarrow> ptr \<Rightarrow> ptr \<Rightarrow> u32 \<Rightarrow> u32 \<Rightarrow> 'u dec_state \<Rightarrow> bool \<times> 'u dec_state" where
  "call_ext_decoder e func ext t wire_type sh = (case sh of (s, h) \<Rightarrow>
     case e_ext_dec e func s ext t wire_type h of
       (ok, s', h') \<Rightarrow> (ok, (s', h'\<lparr>hfixed := hfixed h\<rparr>)))"

primrec extension_dec_loop ::
  "nat \<Rightarrow> 'u msg_decoder \<Rightarrow> nat \<Rightarrow> 'u env \<Rightarrow> u32 \<Rightarrow> u32 \<Rightarrow> csize \<Rightarrow> ptr
     \<Rightarrow> 'u dec_state \<Rightarrow> 'u dec_res" where
  "extension_dec_loop 0 dec n e t wire_type pos ext sh = None"
| "extension_dec_loop (Suc k) dec n e t wire_type pos ext sh = (case sh of (s, h) \<Rightarrow>
     if ext \<noteq> 0 \<and> pos = is_bytes_left s then
       and_then
         (if ext_type_decode h (ext_type h ext) \<noteq> 0
          then Some (call_ext_decoder e (ext_type_decode h (ext_type h ext)) ext t wire_type (s, h))
          else default_extension_decoder dec n e ext t wire_type (s, h))
         (\<lambda>(s, h). extension_dec_loop k dec n e t wire_type pos (ext_next h ext) (s, h))
     else Some (True, (s, h)))"

definition decode_extension ::
  "'u msg_decoder \<Rightarrow> nat \<Rightarrow> 'u env \<Rightarrow> u32 \<Rightarrow> u32 \<Rightarrow> iter \<Rightarrow> 'u dec_state \<Rightarrow> 'u dec_res" where
  "decode_extension dec n e t wire_type it sh = (case sh of (s, h) \<Rightarrow>
     extension_dec_loop n dec n e t wire_type (is_bytes_left s) (load64 h (pData it)) (s, h))"

subsection \<open>The loop over the input\<close>

text \<open>
  The local variables of \<open>pb_decode_noinit\<close>: the iterator, \<open>fields_seen\<close> (two words),
  \<open>extension_range_start\<close>, and \<open>fixed_count_field\<close> as an index into the descriptor. The remaining
  one, \<open>fixed_count_size\<close>, is \<open>hfixed\<close> of the heap, because the iterator can point to it.
\<close>

record dec_vars =
  dv_iter :: iter
  dv_seen :: "u32 list"
  dv_ext_start :: u32
  dv_fixed :: "nat option"

text \<open>How a round of the loop ends: \<open>continue\<close>, \<open>break\<close>, or \<open>return false\<close>.\<close>

datatype dec_flow = Go dec_vars | Break dec_vars | Fail

definition skip_unknown ::
  "'u env \<Rightarrow> u32 \<Rightarrow> dec_vars \<Rightarrow> 'u dec_state \<Rightarrow> dec_flow \<times> 'u dec_state" where
  "skip_unknown e wire_type v sh = (case sh of (s, h) \<Rightarrow>
     case pb_skip_field e wire_type s of
       (ok, s') \<Rightarrow> (if ok then Go v else Fail, (s', h)))"

definition unknown_field ::
  "'u msg_decoder \<Rightarrow> nat \<Rightarrow> 'u env \<Rightarrow> u32 \<Rightarrow> u32 \<Rightarrow> dec_vars \<Rightarrow> 'u dec_state
     \<Rightarrow> (dec_flow \<times> 'u dec_state) option" where
  "unknown_field dec n e t wire_type v sh =
     (if dv_ext_start v \<le> t then
        case find_extension_field (dv_iter v) of
          None \<Rightarrow> None
        | Some (found, it) \<Rightarrow>
            let start = (if found then tag (it_field it) else - 1);
                v' = v\<lparr>dv_iter := it, dv_ext_start := start\<rparr>
            in if start \<le> t then
                 case decode_extension dec n e t wire_type it sh of
                   None \<Rightarrow> None
                 | Some (ok, sh') \<Rightarrow>
                     if \<not> ok then Some (Fail, sh')
                     else if is_bytes_left (fst sh) \<noteq> is_bytes_left (fst sh') then Some (Go v', sh')
                     else Some (skip_unknown e wire_type v' sh')
               else Some (skip_unknown e wire_type v' sh)
      else Some (skip_unknown e wire_type v sh))"

definition mark_seen :: "iter \<Rightarrow> u32 list \<Rightarrow> u32 list" where
  "mark_seen it seen =
     (let i = required_field_index it in
      if PB_HTYPE (ftype (it_field it)) = PB_HTYPE_REQUIRED \<and> i < PB_MAX_REQUIRED_FIELDS
      then seen[i div 32 := seen ! (i div 32) OR push_bit (i mod 32) 1] else seen)"

text \<open>A fixed-length array keeps its count in the local variable; turning to another one checks that
  the previous one is complete. \<open>None\<close> is the error.\<close>

definition track_fixed :: "dec_vars \<Rightarrow> heap \<Rightarrow> (dec_vars \<times> heap) option" where
  "track_fixed v h =
     (let it = dv_iter v; f = it_field it in
      if PB_HTYPE (ftype f) = PB_HTYPE_REPEATED \<and> pSize it = Slot (pData it) then
        let v' = v\<lparr>dv_iter := it\<lparr>pSize := Local_slot\<rparr>, dv_fixed := Some (it_pos it)\<rparr> in
        if dv_fixed v \<noteq> Some (it_pos it)
        then case dv_fixed v of
            Some k \<Rightarrow>
              if hfixed h \<noteq> array_size (field_at (it_start it) k) then None
              else Some (v', h\<lparr>hfixed := 0\<rparr>)
          | None \<Rightarrow> Some (v', h\<lparr>hfixed := 0\<rparr>)
        else Some (v', h)
      else Some (v, h))"

definition known_field ::
  "'u msg_decoder \<Rightarrow> nat \<Rightarrow> 'u env \<Rightarrow> u32 \<Rightarrow> dec_vars \<Rightarrow> 'u dec_state
     \<Rightarrow> (dec_flow \<times> 'u dec_state) option" where
  "known_field dec n e wire_type v sh = (case sh of (s, h) \<Rightarrow>
     case track_fixed v h of
       None \<Rightarrow> Some (Fail, (PB_SET_ERROR_is ''wrong size for fixed count field'' s, h))
     | Some (v1, h1) \<Rightarrow>
         let v2 = v1\<lparr>dv_seen := mark_seen (dv_iter v1) (dv_seen v1)\<rparr> in
         map_option (\<lambda>(ok, it, sh). (if ok then Go (v2\<lparr>dv_iter := it\<rparr>) else Fail, sh))
           (decode_field dec n e wire_type (dv_iter v2) (s, h1)))"

definition decode_step ::
  "'u msg_decoder \<Rightarrow> nat \<Rightarrow> 'u env \<Rightarrow> dec_vars \<Rightarrow> 'u dec_state
     \<Rightarrow> (dec_flow \<times> 'u dec_state) option" where
  "decode_step dec n e v sh = (case sh of (s, h) \<Rightarrow>
     case pb_decode_tag e s of
       (None, eof, s') \<Rightarrow> Some (if eof then Break v else Fail, (s', h))
     | (Some (wire_type, t), eof, s') \<Rightarrow>
         (case pb_field_iter_find (dv_iter v) t of
            None \<Rightarrow> None
          | Some (found, it) \<Rightarrow>
              if found then known_field dec n e wire_type (v\<lparr>dv_iter := it\<rparr>) (s', h)
              else unknown_field dec n e t wire_type (v\<lparr>dv_iter := it\<rparr>) (s', h)))"

primrec decode_loop ::
  "nat \<Rightarrow> 'u msg_decoder \<Rightarrow> nat \<Rightarrow> 'u env \<Rightarrow> dec_vars \<Rightarrow> 'u dec_state
     \<Rightarrow> (dec_vars option \<times> 'u dec_state) option" where
  "decode_loop 0 dec n e v sh = None"
| "decode_loop (Suc k) dec n e v sh =
     (if is_bytes_left (fst sh) = 0 then Some (Some v, sh)
      else case decode_step dec n e v sh of
        None \<Rightarrow> None
      | Some (Fail, sh') \<Rightarrow> Some (None, sh')
      | Some (Break v', sh') \<Rightarrow> Some (Some v', sh')
      | Some (Go v', sh') \<Rightarrow> decode_loop k dec n e v' sh')"

subsection \<open>Messages\<close>

text \<open>The number of required fields, found by walking the iterator to the end.\<close>

definition last_iter :: "iter \<Rightarrow> iter" where
  "last_iter it = snd (the (iter_loop (\<lambda>it _. Some (True, it)) it it))"

definition required_count :: "iter \<Rightarrow> nat" where
  "required_count it =
     (let l = last_iter it; n = required_field_index l in
      min PB_MAX_REQUIRED_FIELDS
        (if PB_HTYPE (ftype (it_field l)) = PB_HTYPE_REQUIRED
            \<and> tag (it_field (snd (pb_field_iter_next l))) \<noteq> 0
         then n + 1 else n))"

definition all_seen :: "nat \<Rightarrow> u32 list \<Rightarrow> bool" where
  "all_seen count seen \<longleftrightarrow>
     (\<forall>i \<in> set [0..<count div 32]. seen ! i = - 1)
     \<and> (count mod 32 \<noteq> 0 \<longrightarrow> seen ! (count div 32) = drop_bit (32 - count mod 32) (- 1))"

definition final_checks :: "dec_vars \<Rightarrow> 'u dec_state \<Rightarrow> 'u dec_res" where
  "final_checks v sh =
     (if (case dv_fixed v of
            None \<Rightarrow> False
          | Some k \<Rightarrow> hfixed (snd sh) \<noteq> array_size (field_at (it_start (dv_iter v)) k))
      then dec_error ''wrong size for fixed count field'' sh
      else if \<not> all_seen (required_count (dv_iter v)) (dv_seen v)
      then dec_error ''missing required field'' sh
      else Some (True, sh))"

definition init_vars :: "pb_field list \<Rightarrow> ptr \<Rightarrow> dec_vars" where
  "init_vars fs d = \<lparr>dv_iter = snd (pb_field_iter_begin fs d), dv_seen = [0, 0],
     dv_ext_start = 0, dv_fixed = None\<rparr>"

text \<open>\<open>fixed_count_size\<close> lives from the call to the return.\<close>

definition decode_body ::
  "'u msg_decoder \<Rightarrow> nat \<Rightarrow> 'u env \<Rightarrow> pb_field list \<Rightarrow> ptr \<Rightarrow> 'u dec_state \<Rightarrow> 'u dec_res" where
  "decode_body dec n e fs d sh = (case sh of (s, h) \<Rightarrow>
     map_option (\<lambda>(ok, s', h'). (ok, (s', h'\<lparr>hfixed := hfixed h\<rparr>)))
       (case decode_loop n dec n e (init_vars fs d) (s, h\<lparr>hfixed := 0\<rparr>) of
          None \<Rightarrow> None
        | Some (None, sh') \<Rightarrow> Some (False, sh')
        | Some (Some v, sh') \<Rightarrow> final_checks v sh'))"

definition decode_with_init ::
  "('u dec_state \<Rightarrow> 'u dec_res) \<Rightarrow> nat \<Rightarrow> 'u env \<Rightarrow> pb_field list \<Rightarrow> ptr \<Rightarrow> 'u dec_state
     \<Rightarrow> 'u dec_res" where
  "decode_with_init noinit n e fs d sh = (case sh of (s, h) \<Rightarrow>
     case pb_message_set_to_defaults n e fs d h of
       None \<Rightarrow> None
     | Some h1 \<Rightarrow>
         (case noinit (s, h1) of
            None \<Rightarrow> None
          | Some (status, s', h2) \<Rightarrow>
              if status then Some (True, (s', h2))
              else map_option (\<lambda>h3. (False, (s', h3))) (pb_release n e fs d h2)))"

primrec pb_decode_noinit ::
  "nat \<Rightarrow> 'u env \<Rightarrow> pb_field list \<Rightarrow> ptr \<Rightarrow> 'u dec_state \<Rightarrow> 'u dec_res" where
  "pb_decode_noinit 0 e fs d sh = None"
| "pb_decode_noinit (Suc n) e fs d sh =
     decode_body (\<lambda>init fs d sh.
       if init then decode_with_init (pb_decode_noinit n e fs d) n e fs d sh
       else pb_decode_noinit n e fs d sh) n e fs d sh"

definition pb_decode ::
  "nat \<Rightarrow> 'u env \<Rightarrow> pb_field list \<Rightarrow> ptr \<Rightarrow> 'u dec_state \<Rightarrow> 'u dec_res" where
  "pb_decode n e fs d sh = decode_with_init (pb_decode_noinit n e fs d) n e fs d sh"

definition pb_decode_delimited_noinit ::
  "nat \<Rightarrow> 'u env \<Rightarrow> pb_field list \<Rightarrow> ptr \<Rightarrow> 'u dec_state \<Rightarrow> 'u dec_res" where
  "pb_decode_delimited_noinit n e fs d sh = in_substream e (pb_decode_noinit n e fs d) sh"

definition pb_decode_delimited ::
  "nat \<Rightarrow> 'u env \<Rightarrow> pb_field list \<Rightarrow> ptr \<Rightarrow> 'u dec_state \<Rightarrow> 'u dec_res" where
  "pb_decode_delimited n e fs d sh = in_substream e (pb_decode n e fs d) sh"

definition pb_decode_nullterminated ::
  "nat \<Rightarrow> 'u env \<Rightarrow> pb_field list \<Rightarrow> ptr \<Rightarrow> 'u dec_state \<Rightarrow> 'u dec_res" where
  "pb_decode_nullterminated n e fs d sh = pb_decode n e fs d sh"

subsection \<open>A concrete run\<close>

text \<open>The six bytes of the message of \<open>demo_heap\<close>, decoded into another place.\<close>

definition demo_bytes :: "byte list" where
  "demo_bytes = [0x08, 0x96, 0x01, 0x12, 0x01, 0x05]"

lemma demo_decode:
  obtains s h where "pb_decode 8 plain_env demo_fields 0x2000
      (pb_istream_from_buffer demo_bytes 6, demo_heap) = Some (True, s, h)"
    and "load32 h 0x2000 = 150" and "load32 h 0x2004 = 1" and "load32 h 0x2008 = 5"
proof -
  have "(case pb_decode 8 plain_env demo_fields 0x2000
        (pb_istream_from_buffer demo_bytes 6, demo_heap) of
      None \<Rightarrow> False
    | Some (ok, s, h) \<Rightarrow> ok \<and> load32 h 0x2000 = 150 \<and> load32 h 0x2004 = 1 \<and> load32 h 0x2008 = 5)"
    by code_simp
  with that show ?thesis by (auto split: option.splits)
qed

end
