(* ===== verification/Pb_Dec_Rel.thy ===== *)
theory Pb_Dec_Rel imports Pb_Decode begin

text \<open>
  How properties are proved of the whole decoder. The locale \<open>dec_rel\<close> states what a relation between
  the states before and after must satisfy so that every step of the decoder stays in it; the
  lemmas in it go through the code once. It is interpreted twice: for the stream (nothing is read
  past the end of the buffer, whatever the descriptor) and for memory (nothing is written outside
  the message structure).
\<close>

subsection \<open>Moving within the buffer\<close>

text \<open>
  \<open>is_mov s s'\<close> is weaker than \<open>is_adv\<close>: the buffer pointer moved up by at most as much as
  \<open>bytes_left\<close> went down. It is what holds of a stream after an error inside a substream.
\<close>

definition is_mov :: "'u istream \<Rightarrow> 'u istream \<Rightarrow> bool" where
  "is_mov s s' \<longleftrightarrow> unat (is_bytes_left s') \<le> unat (is_bytes_left s)
     \<and> (case is_src s of
          Buf_read b \<Rightarrow> (\<exists>k \<le> unat (is_bytes_left s) - unat (is_bytes_left s').
            is_src s' = Buf_read (drop k b))
        | User_read u \<Rightarrow> (\<exists>u'. is_src s' = User_read u'))
     \<and> (is_ok s \<longrightarrow> \<not> is_fault s')"

lemma is_adv_mov: "is_adv s s' \<Longrightarrow> is_mov s s'"
  by (auto simp: is_adv_def is_mov_def is_ok_def split: is_source.splits)

lemma is_mov_ok:
  assumes "is_mov s s'" and "is_ok s"
  shows "is_ok s'"
proof (cases "is_src s")
  case (Buf_read b)
  with assms(1) obtain k where "k \<le> unat (is_bytes_left s) - unat (is_bytes_left s')"
    "is_src s' = Buf_read (drop k b)"
    by (auto simp: is_mov_def)
  with assms Buf_read show ?thesis by (auto simp: is_mov_def is_ok_def)
next
  case (User_read u)
  with assms show ?thesis by (auto simp: is_mov_def is_ok_def)
qed

lemma is_mov_trans:
  assumes st: "is_mov s t" and tu: "is_mov t u"
  shows "is_mov s u"
proof (cases "is_src s")
  case (Buf_read b)
  with st obtain k where k: "k \<le> unat (is_bytes_left s) - unat (is_bytes_left t)"
    "is_src t = Buf_read (drop k b)"
    by (auto simp: is_mov_def)
  with tu obtain l where l: "l \<le> unat (is_bytes_left t) - unat (is_bytes_left u)"
    "is_src u = Buf_read (drop (l + k) b)"
    by (auto simp: is_mov_def)
  have "unat (is_bytes_left t) \<le> unat (is_bytes_left s)"
    "unat (is_bytes_left u) \<le> unat (is_bytes_left t)"
    using st tu by (simp_all add: is_mov_def)
  moreover have "is_ok s \<longrightarrow> \<not> is_fault u" using tu is_mov_ok [OF st] by (auto simp: is_mov_def)
  ultimately show ?thesis
    using k l Buf_read by (auto simp: is_mov_def intro!: exI [of _ "l + k"])
next
  case (User_read v)
  with st tu is_mov_ok [OF st] show ?thesis by (auto simp: is_mov_def)
qed

lemma is_mov_PB_SET_ERROR [simp]: "is_mov s (PB_SET_ERROR_is m t) = is_mov s t"
  by (simp add: is_mov_def split: is_source.split)

definition moves :: "bool \<Rightarrow> 'u istream \<Rightarrow> 'u istream \<Rightarrow> bool" where
  "moves ok s s' \<longleftrightarrow> is_mov s s' \<and> (ok \<longrightarrow> is_adv s s')"

lemma moves_adv: "is_adv s s' \<Longrightarrow> moves ok s s'"
  by (simp add: moves_def is_adv_mov)

lemma make_substream_None:
  "pb_make_string_substream e s = (None, s') \<Longrightarrow> is_adv s s'"
  by (auto simp: pb_make_string_substream_def dest: pb_decode_varint32_adv
      split: prod.splits option.splits if_splits)

lemma make_substream_Some:
  assumes "pb_make_string_substream e s = (Some sub, s1)"
  obtains t n where "is_adv s t" "n \<le> is_bytes_left t" "sub = t\<lparr>is_bytes_left := n\<rparr>"
    "s1 = t\<lparr>is_bytes_left := is_bytes_left t - n\<rparr>"
  using assms that
  by (auto simp: pb_make_string_substream_def not_less dest: pb_decode_varint32_adv
      split: prod.splits option.splits if_splits)

lemma inherit_fault_simps [simp]:
  "is_src (inherit_fault sub s) = is_src s" "is_bytes_left (inherit_fault sub s) = is_bytes_left s"
  "is_fault (inherit_fault sub s) \<longleftrightarrow> is_fault s \<or> is_fault sub"
  by (simp_all add: inherit_fault_def)

text \<open>The stream while a substream of it is open, and after it has been closed.\<close>

lemma substream_dropped:
  assumes make: "pb_make_string_substream e s = (Some sub, s1)" and sub: "is_mov sub sub'"
  shows "is_mov s (inherit_fault sub' s1)"
proof -
  obtain t n where t: "is_adv s t" and n: "n \<le> is_bytes_left t"
    and eq: "sub = t\<lparr>is_bytes_left := n\<rparr>" "s1 = t\<lparr>is_bytes_left := is_bytes_left t - n\<rparr>"
    using make by (rule make_substream_Some)
  have un: "unat n \<le> unat (is_bytes_left t)" "unat (is_bytes_left t - n) = unat (is_bytes_left t) - unat n"
    using n by (simp_all add: word_le_nat_alt unat_sub)
  have "is_ok t \<Longrightarrow> is_ok sub" using un by (auto simp: is_ok_def eq split: is_source.splits)
  then have "is_ok t \<Longrightarrow> \<not> is_fault sub'" using sub by (simp add: is_mov_def)
  then have fault: "is_ok t \<longrightarrow> \<not> is_fault (inherit_fault sub' s1)"
    by (auto simp: eq is_ok_def)
  have "is_mov t (inherit_fault sub' s1)"
  proof (cases "is_src t")
    case (Buf_read b)
    with un fault show ?thesis unfolding is_mov_def by (auto simp: eq intro: exI [of _ 0])
  next
    case (User_read u)
    with un fault show ?thesis unfolding is_mov_def by (simp add: eq)
  qed
  with t show ?thesis by (metis is_adv_mov is_mov_trans)
qed

lemma pb_read_pieces_True:
  "pb_read_pieces e n s = (True, s') \<Longrightarrow> is_bytes_left s' = is_bytes_left s - n"
proof (induction "unat n" arbitrary: n s rule: less_induct)
  case less
  show ?case
  proof (cases "16 < n")
    case True
    then obtain bs t where r: "pb_read e 16 s = (Some bs, t)" "pb_read_pieces e (n - 16) t = (True, s')"
      using less.prems by (subst (asm) pb_read_pieces.simps) (auto split: prod.splits option.splits)
    have "unat (n - 16) < unat n"
      using True by (simp add: word_less_nat_alt unat_sub word_le_nat_alt)
    from less.hyps [OF this r(2)] pb_read_Some(1) [OF r(1)] show ?thesis by simp
  next
    case False
    with less.prems show ?thesis
      by (subst (asm) pb_read_pieces.simps) (auto dest: pb_read_Some(1) split: prod.splits)
  qed
qed

lemma pb_read_null_True:
  "pb_read_null e n s = (True, s') \<Longrightarrow> is_bytes_left s' = is_bytes_left s - n"
  by (auto simp: pb_read_null_def dest: pb_read_Some(1) pb_read_pieces_True
      split: if_splits is_source.splits prod.splits)

lemma close_substream:
  assumes close: "pb_close_string_substream e s1 sub = (ok, s2)"
  obtains sub2 where "is_adv sub sub2" "is_fault s2 = is_fault sub2"
    "is_bytes_left s2 = is_bytes_left s1"
    "ok \<Longrightarrow> is_src s2 = is_src sub2 \<and> is_bytes_left sub2 = 0"
    "\<not> ok \<Longrightarrow> is_src s2 = is_src s1"
proof (cases "is_bytes_left sub = 0")
  case True
  with close that [of sub] show ?thesis
    by (auto simp: pb_close_string_substream_def split: if_splits)
next
  case False
  obtain b sub2 where r: "pb_read_null e (is_bytes_left sub) sub = (b, sub2)" by fastforce
  then have "is_adv sub sub2" by (rule pb_read_null_adv)
  moreover have "b \<Longrightarrow> is_bytes_left sub2 = 0"
    using r pb_read_null_True [of e "is_bytes_left sub" sub sub2] by simp
  ultimately show ?thesis
    using close False r that [of sub2] by (auto simp: pb_close_string_substream_def split: if_splits)
qed

lemma substream_closed:
  assumes make: "pb_make_string_substream e s = (Some sub, s1)" and sub: "moves status sub sub'"
    and close: "pb_close_string_substream e s1 sub' = (ok, s2)"
  shows "moves (ok \<and> status) s s2"
proof -
  obtain t n where t: "is_adv s t" and n: "n \<le> is_bytes_left t"
    and eq: "sub = t\<lparr>is_bytes_left := n\<rparr>" "s1 = t\<lparr>is_bytes_left := is_bytes_left t - n\<rparr>"
    using make by (rule make_substream_Some)
  have un: "unat n \<le> unat (is_bytes_left t)" "unat (is_bytes_left t - n) = unat (is_bytes_left t) - unat n"
    using n by (simp_all add: word_le_nat_alt unat_sub)
  obtain sub2 where c: "is_adv sub' sub2" "is_fault s2 = is_fault sub2"
    "is_bytes_left s2 = is_bytes_left s1"
    "ok \<Longrightarrow> is_src s2 = is_src sub2 \<and> is_bytes_left sub2 = 0"
    "\<not> ok \<Longrightarrow> is_src s2 = is_src s1"
    using close_substream [OF close] by blast
  have mov: "is_mov sub sub2"
    using sub is_adv_mov [OF c(1)] by (auto simp: moves_def intro: is_mov_trans)
  have "is_ok t \<Longrightarrow> is_ok sub" using un by (auto simp: is_ok_def eq split: is_source.splits)
  then have fault: "is_ok t \<Longrightarrow> \<not> is_fault s2" using mov by (simp add: is_mov_def c(2))
  have left: "unat (is_bytes_left t) - unat (is_bytes_left s2) = unat n"
    "unat (is_bytes_left s2) \<le> unat (is_bytes_left t)"
    using un c(3) by (simp_all add: eq)
  have "is_mov t s2"
  proof (cases "is_src t")
    case (Buf_read b)
    with mov obtain k where "k \<le> unat n - unat (is_bytes_left sub2)"
      "is_src sub2 = Buf_read (drop k b)"
      unfolding is_mov_def by (auto simp: eq)
    moreover from this have "k \<le> unat n" by simp
    ultimately have "\<exists>k \<le> unat n. is_src sub2 = Buf_read (drop k b)" by blast
    with Buf_read c(4,5) have "\<exists>k \<le> unat n. is_src s2 = Buf_read (drop k b)"
      by (cases ok) (auto simp: eq intro: exI [of _ 0])
    with Buf_read left fault show ?thesis by (simp add: is_mov_def)
  next
    case (User_read u)
    with mov have "\<exists>u'. is_src sub2 = User_read u'" by (simp add: is_mov_def eq)
    with User_read c(4,5) have "\<exists>u'. is_src s2 = User_read u'" by (cases ok) (auto simp: eq)
    with User_read left fault show ?thesis by (simp add: is_mov_def)
  qed
  moreover have "is_adv t s2" if "ok" "status"
  proof -
    have "is_adv sub sub2" using sub c(1) that by (auto simp: moves_def intro: is_adv_trans)
    moreover have "is_src s2 = is_src sub2" "is_bytes_left sub2 = 0" using c(4) that by simp_all
    ultimately show ?thesis
      using left is_mov_ok [OF \<open>is_mov t s2\<close>] by (auto simp: is_adv_def eq split: is_source.splits)
  qed
  ultimately show ?thesis
    using t by (auto simp: moves_def intro: is_mov_trans is_adv_mov is_adv_trans)
qed

subsection \<open>Relations the decoder stays in\<close>

text \<open>The bytes that the decoder of a static value writes at its destination, at most.\<close>

definition value_bytes :: "pb_field \<Rightarrow> nat" where
  "value_bytes f =
     (let l = PB_LTYPE (ftype f) in
      if l = PB_LTYPE_BOOL then 1 else if l = PB_LTYPE_FIXED32 then 4
      else if l = PB_LTYPE_FIXED64 then 8 else unat (data_size f))"

locale dec_rel =
  fixes R :: "bool \<Rightarrow> 'u dec_state \<Rightarrow> 'u dec_state \<Rightarrow> bool"
    and writable :: "ptr \<Rightarrow> nat \<Rightarrow> bool"
  assumes R_refl: "R True x x"
    and R_trans: "R True x y \<Longrightarrow> R ok y z \<Longrightarrow> R ok x z"
    and R_fail: "R True x y \<Longrightarrow> R False x y"
    and R_error: "R False x (s, h) \<Longrightarrow> R False x (PB_SET_ERROR_is msg s, h)"
    and R_read: "is_adv s s' \<Longrightarrow> R True (s, h) (s', h)"
    and R_write: "R ok x (s, h) \<Longrightarrow> writable p n \<Longrightarrow> length bs \<le> n
      \<Longrightarrow> R ok x (s, store_bytes p bs h)"
    and R_local: "R ok x (s, h) \<Longrightarrow> R ok x (s, h\<lparr>hfixed := v\<rparr>)"
    and R_close: "pb_make_string_substream e s = (Some sub, s1) \<Longrightarrow> R status (sub, h) (sub', h')
      \<Longrightarrow> pb_close_string_substream e s1 sub' = (ok, s2) \<Longrightarrow> R (ok \<and> status) (s, h) (s2, h')"
    and R_drop: "pb_make_string_substream e s = (Some sub, s1) \<Longrightarrow> R status (sub, h) (sub', h')
      \<Longrightarrow> R False (s, h) (inherit_fault sub' s1, h')"
    and writable_part: "writable p n \<Longrightarrow> k + m \<le> n \<Longrightarrow> n \<le> 2 ^ 64 \<Longrightarrow> writable (p + of_nat k) m"
begin

definition obeys :: "('u dec_state \<Rightarrow> 'u dec_res) \<Rightarrow> bool" where
  "obeys f \<longleftrightarrow> (\<forall>x ok y. f x = Some (ok, y) \<longrightarrow> R ok x y)"

lemma obeysI: "(\<And>s h ok s' h'. f (s, h) = Some (ok, s', h') \<Longrightarrow> R ok (s, h) (s', h')) \<Longrightarrow> obeys f"
  by (auto simp: obeys_def)

lemma obeysD: "obeys f \<Longrightarrow> f x = Some (ok, y) \<Longrightarrow> R ok x y"
  unfolding obeys_def by blast

lemma R_weak: "R True x y \<Longrightarrow> R ok x y"
  using R_fail by (cases ok) auto

lemma R_reads: "is_adv s s' \<Longrightarrow> R ok (s, h) (s', h)"
  by (rule R_weak) (rule R_read)

lemma R_seq: "R True x y \<Longrightarrow> f y = Some (ok, z) \<Longrightarrow> obeys f \<Longrightarrow> R ok x z"
  by (blast intro: R_trans obeysD)

lemma writable_prefix: "writable p n \<Longrightarrow> m \<le> n \<Longrightarrow> n \<le> 2 ^ 64 \<Longrightarrow> writable p m"
  using writable_part [of p n 0 m] by simp

lemma R_and_then:
  "and_then m g = Some (ok, y) \<Longrightarrow> (\<And>ok' y'. m = Some (ok', y') \<Longrightarrow> R ok' x y') \<Longrightarrow> obeys g \<Longrightarrow> R ok x y"
  by (erule and_then_SomeE) (auto intro: R_seq)

lemma obeys_and_then: "obeys f \<Longrightarrow> obeys g \<Longrightarrow> obeys (\<lambda>x. and_then (f x) g)"
  by (rule obeysI) (erule R_and_then, auto dest: obeysD)

lemma R_dec_error: "R True x (s, h) \<Longrightarrow> dec_error m (s, h) = Some (ok, y) \<Longrightarrow> R ok x y"
  by (auto simp: dec_error_def intro: R_error R_fail)

lemma obeys_error: "obeys (dec_error m)"
  by (rule obeysI) (auto intro: R_dec_error R_refl)

lemma obeys_read_mem:
  assumes "writable p k" and "unat n \<le> k"
  shows "obeys (pb_read_mem e p n)"
proof (rule obeysI)
  fix s h ok s' h'
  assume r: "pb_read_mem e p n (s, h) = Some (ok, s', h')"
  obtain v t where v: "pb_read e n s = (v, t)" by fastforce
  then have "is_adv s t" by (rule pb_read_adv)
  then have "R ok (s, h) (t, h)" by (rule R_reads)
  with r v assms show "R ok (s, h) (s', h')"
    by (auto simp: pb_read_mem_def split: option.splits intro: R_write)
qed

lemma R_stores:
  assumes "R ok x (s, h)"
  shows "writable p 1 \<Longrightarrow> R ok x (s, store8 p v8 h)" "writable p 2 \<Longrightarrow> R ok x (s, store16 p v16 h)"
    "writable p 4 \<Longrightarrow> R ok x (s, store32 p v32 h)" "writable p 8 \<Longrightarrow> R ok x (s, store64 p v64 h)"
    "writable p 1 \<Longrightarrow> R ok x (s, store_bool p b h)" "writable p k \<Longrightarrow> R ok x (s, mem_zero p k h)"
    "writable p k \<Longrightarrow> R ok x (s, mem_copy p q k h)"
  unfolding store_defs mem_copy_def by (rule R_write [OF assms], assumption, simp)+

lemma R_store_checked:
  assumes r: "store_checked store field dest v (s, h) = Some (ok, y)"
    and x: "R True x (s, h)" and w: "writable dest (unat (data_size field))"
    and store: "store = store_signed \<or> store = store_unsigned"
  shows "R ok x y"
proof (cases "store (data_size field) dest v h")
  case None
  with r x show ?thesis by (auto simp: store_checked_def intro: R_dec_error)
next
  case (Some p)
  then obtain c h' where p: "store (data_size field) dest v h = Some (c, h')" by (cases p) simp
  then have "R True x (s, h')"
    using store x w
    by (auto simp: store_signed_def store_unsigned_def split: if_splits intro!: R_stores)
  with r p show ?thesis by (auto simp: store_checked_def split: if_splits intro: R_dec_error)
qed

lemma obeys_int_decoders:
  assumes "writable dest (unat (data_size field))"
  shows "obeys (pb_dec_varint e field dest)" "obeys (pb_dec_uvarint e field dest)"
    "obeys (pb_dec_svarint e field dest)"
proof -
  note st = R_store_checked [OF _ R_read assms]
  show "obeys (pb_dec_varint e field dest)"
    by (rule obeysI) (auto simp: pb_dec_varint_def Let_def split: prod.splits option.splits
        dest!: pb_decode_varint_adv intro: st R_reads)
  show "obeys (pb_dec_uvarint e field dest)"
    by (rule obeysI) (auto simp: pb_dec_uvarint_def split: prod.splits option.splits
        dest!: pb_decode_varint_adv intro: st R_reads)
  show "obeys (pb_dec_svarint e field dest)"
    by (rule obeysI) (auto simp: pb_dec_svarint_def split: prod.splits option.splits
        dest!: pb_decode_svarint_adv intro: st R_reads)
qed

lemma obeys_pb_dec_bool: "writable dest 1 \<Longrightarrow> obeys (pb_dec_bool e field dest)"
  by (rule obeysI) (auto simp: pb_dec_bool_def split: prod.splits option.splits
      dest!: pb_decode_varint32_adv intro: R_reads R_stores)

lemma obeys_pb_dec_fixed:
  "writable dest 4 \<Longrightarrow> obeys (pb_dec_fixed32 e field dest)"
  "writable dest 8 \<Longrightarrow> obeys (pb_dec_fixed64 e field dest)"
  by (rule obeysI, auto simp: pb_dec_fixed32_def pb_dec_fixed64_def split: prod.splits option.splits
      dest!: pb_decode_fixed32_adv pb_decode_fixed64_adv intro: R_reads R_stores)+

lemma obeys_pb_dec_bytes:
  assumes t: "PB_ATYPE (ftype field) \<noteq> PB_ATYPE_POINTER"
    and w: "writable dest (unat (data_size field))"
  shows "obeys (pb_dec_bytes e field dest)"
proof (rule obeysI)
  fix s h ok s' h'
  assume r: "pb_dec_bytes e field dest (s, h) = Some (ok, s', h')"
  obtain v t where v: "pb_decode_varint32 e s = (v, t)" by fastforce
  then have adv: "is_adv s t" by (rule pb_decode_varint32_adv)
  show "R ok (s, h) (s', h')"
  proof (cases v)
    case None
    with r v adv show ?thesis by (auto simp: pb_dec_bytes_def intro: R_reads)
  next
    case (Some sz)
    define n where "n = unat (data_size field)"
    have sum: "unat (ucast sz + 4 :: csize) = unat sz + 4"
      using unat_plus_nat [of "ucast sz" 4] unat_lt32 [of sz] by simp
    show ?thesis
    proof (cases "ucast (data_size field) < (ucast sz + 4 :: csize)")
      case True
      with r v Some t adv show ?thesis
        by (auto simp: pb_dec_bytes_def PB_BYTES_ARRAY_T_ALLOCSIZE_def Let_def
            split: if_splits intro: R_dec_error R_read)
    next
      case False
      then have fits: "unat sz + 4 \<le> n" "n \<le> 2 ^ 64"
        using unat_lt32 [of "data_size field"] by (simp_all add: word_less_nat_alt sum n_def)
      have "writable dest 4" using w fits by (intro writable_prefix [of dest n 4]) (simp_all add: n_def)
      then have "R True (s, h) (t, store32 dest sz h)" by (rule R_stores(3) [OF R_read [OF adv]])
      moreover have "writable (dest + 4) (unat sz)"
        using writable_part [of dest n 4 "unat sz"] w fits by (simp add: n_def)
      then have "obeys (pb_read_mem e (dest + 4) (ucast sz))" by (rule obeys_read_mem) simp
      ultimately show ?thesis
        using r v Some t False
        by (auto simp: pb_dec_bytes_def PB_BYTES_ARRAY_T_ALLOCSIZE_def bytes_array_bytes_def Let_def
            split: if_splits intro: R_dec_error R_read [OF adv] R_seq)
    qed
  qed
qed

lemma R_string_body:
  assumes r: "map_option (\<lambda>(status, s, h). (status, (s, store8 (dest + ucast sz) 0 h)))
      (pb_read_mem e dest (ucast (sz :: u32)) x) = Some (ok, s', h')"
    and x: "R True y x" and w: "writable dest (unat sz + 1)"
  shows "R ok y (s', h')"
proof -
  have n: "unat sz + 1 \<le> 2 ^ 64" using unat_lt32 [of sz] by simp
  obtain h1 where r1: "pb_read_mem e dest (ucast sz) x = Some (ok, s', h1)"
    and h': "h' = store8 (dest + ucast sz) 0 h1"
    using r by auto
  have "writable dest (unat sz)" using n by (intro writable_prefix [OF w]) simp_all
  then have "obeys (pb_read_mem e dest (ucast sz))" by (rule obeys_read_mem) simp
  with x r1 have "R ok y (s', h1)" by (rule R_seq)
  moreover have "writable (dest + ucast sz) 1"
    using writable_part [of dest "unat sz + 1" "unat sz" 1] w n by simp
  ultimately show ?thesis unfolding h' by (rule R_stores(1))
qed

lemma obeys_pb_dec_string:
  assumes t: "PB_ATYPE (ftype field) \<noteq> PB_ATYPE_POINTER"
    and w: "writable dest (unat (data_size field))"
  shows "obeys (pb_dec_string e field dest)"
proof (rule obeysI)
  fix s h ok s' h'
  assume r: "pb_dec_string e field dest (s, h) = Some (ok, s', h')"
  obtain v t where v: "pb_decode_varint32 e s = (v, t)" by fastforce
  then have adv: "is_adv s t" by (rule pb_decode_varint32_adv)
  show "R ok (s, h) (s', h')"
  proof (cases v)
    case None
    with r v adv show ?thesis by (auto simp: pb_dec_string_def intro: R_reads)
  next
    case (Some sz)
    let ?alloc = "ucast (sz + 1) :: csize"
    show ?thesis
    proof (cases "?alloc < ucast sz \<or> ucast (data_size field) < ?alloc")
      case True
      with r v Some t adv show ?thesis
        by (auto simp: pb_dec_string_def Let_def split: if_splits intro: R_dec_error R_read)
    next
      case False
      then have "sz + 1 = 0 \<Longrightarrow> sz = 0" by (simp add: word_less_nat_alt unat_eq_0)
      then have "sz + 1 \<noteq> 0" by auto
      then have "unat (sz + 1) = unat sz + 1" using unatSuc [of sz] by (simp add: add.commute)
      then have "unat sz + 1 \<le> unat (data_size field)"
        using False by (simp add: word_less_nat_alt)
      then have "writable dest (unat sz + 1)"
        using w unat_lt32 [of "data_size field"] by (intro writable_prefix [OF w]) simp_all
      with R_string_body [OF _ R_read [OF adv]] r v Some t False show ?thesis
        by (auto simp: pb_dec_string_def Let_def split: if_splits)
    qed
  qed
qed

lemma obeys_pb_dec_fixed_length_bytes:
  assumes w: "writable dest (unat (data_size field))"
  shows "obeys (pb_dec_fixed_length_bytes e field dest)"
proof (rule obeysI)
  fix s h ok s' h'
  assume r: "pb_dec_fixed_length_bytes e field dest (s, h) = Some (ok, s', h')"
  obtain v t where v: "pb_decode_varint32 e s = (v, t)" by fastforce
  then have adv: "R ok' (s, h) (t, h)" for ok'
    by (intro R_reads) (rule pb_decode_varint32_adv)
  have "obeys (pb_read_mem e dest (ucast (data_size field)))"
    using w by (rule obeys_read_mem) simp
  with r v adv w show "R ok (s, h) (s', h')"
    by (auto simp: pb_dec_fixed_length_bytes_def split: option.splits if_splits
        intro: R_dec_error R_seq R_stores)
qed

lemma obeys_in_substream:
  assumes "obeys f"
  shows "obeys (in_substream e f)"
proof (rule obeysI)
  fix s h ok s' h'
  assume r: "in_substream e f (s, h) = Some (ok, s', h')"
  obtain v s1 where m: "pb_make_string_substream e s = (v, s1)" by fastforce
  show "R ok (s, h) (s', h')"
  proof (cases v)
    case None
    with r m show ?thesis by (auto simp: in_substream_def dest!: make_substream_None intro: R_reads)
  next
    case (Some sub)
    with r m obtain status sub' h1 c s2 where f: "f (sub, h) = Some (status, sub', h1)"
      and c: "pb_close_string_substream e s1 sub' = (c, s2)"
      and eq: "ok \<longleftrightarrow> c \<and> status" "s' = s2" "h' = h1"
      by (auto simp: in_substream_def split: option.splits prod.splits)
    show ?thesis
      using R_close [OF m [unfolded Some] obeysD [OF assms f] c] by (simp add: eq)
  qed
qed

lemma obeys_pb_dec_submessage:
  assumes "\<And>init. obeys (dec init (e_fields e (fptr field)) dest)"
  shows "obeys (pb_dec_submessage dec e field dest)"
proof (cases "fptr field = 0")
  case True
  show ?thesis
  proof (rule obeysI)
    fix s h ok s' h'
    assume r: "pb_dec_submessage dec e field dest (s, h) = Some (ok, s', h')"
    obtain v s1 where m: "pb_make_string_substream e s = (v, s1)" by fastforce
    show "R ok (s, h) (s', h')"
    proof (cases v)
      case None
      with True r m show ?thesis
        by (auto simp: pb_dec_submessage_def dest!: make_substream_None intro: R_reads)
    next
      case (Some sub)
      have "is_fault sub = is_fault s1" using m [unfolded Some] by (auto elim: make_substream_Some)
      then have "inherit_fault sub s1 = s1" by (simp add: inherit_fault_def)
      then have "R False (s, h) (s1, h)" using R_drop [OF m [unfolded Some] R_refl] by simp
      with True r m Some show ?thesis
        by (auto simp: pb_dec_submessage_def dec_error_def intro: R_error)
    qed
  qed
next
  case False
  then have "pb_dec_submessage dec e field dest = in_substream e
      (dec (PB_HTYPE (ftype field) = PB_HTYPE_REPEATED) (e_fields e (fptr field)) dest)"
    by (rule_tac ext) (simp add: pb_dec_submessage_def)
  with assms show ?thesis by (simp add: obeys_in_substream)
qed

lemma obeys_if:
  "(P \<Longrightarrow> obeys f) \<Longrightarrow> (\<not> P \<Longrightarrow> obeys g) \<Longrightarrow> obeys (\<lambda>x. if P then f x else g x)"
  by (cases P) simp_all

lemma obeys_PB_DECODERS:
  assumes t: "PB_ATYPE (ftype field) \<noteq> PB_ATYPE_POINTER"
    and w: "writable dest (value_bytes field)"
    and sub: "\<And>init. PB_LTYPE (ftype field) = PB_LTYPE_SUBMESSAGE \<Longrightarrow>
      obeys (dec init (e_fields e (fptr field)) dest)"
  shows "obeys (PB_DECODERS dec e field dest)"
proof -
  note decs = obeys_pb_dec_bool obeys_int_decoders obeys_pb_dec_fixed obeys_pb_dec_bytes [OF t]
    obeys_pb_dec_string [OF t] obeys_pb_dec_fixed_length_bytes obeys_pb_dec_submessage [where dec = dec and e = e and field = field and dest = dest, OF sub]
  have "obeys (\<lambda>x. PB_DECODERS dec e field dest x)"
    using w unfolding PB_DECODERS_def value_bytes_def Let_def
    by (intro obeys_if) (auto intro: decs simp: obeys_def [of "\<lambda>x. None"])
  then show ?thesis by simp
qed

subsubsection \<open>Static fields\<close>

definition slot_writable :: "slot \<Rightarrow> nat \<Rightarrow> bool" where
  "slot_writable sl n \<longleftrightarrow> (case sl of Slot p \<Rightarrow> writable p n | Local_slot \<Rightarrow> True)"

lemma R_store_size: "R ok x (s, h) \<Longrightarrow> slot_writable sl 4 \<Longrightarrow> R ok x (s, store_size sl v h)"
  by (auto simp: store_size_def slot_writable_def split: slot.splits intro: R_stores R_local)

lemma R_store_has: "R ok x (s, h) \<Longrightarrow> slot_writable sl 1 \<Longrightarrow> R ok x (s, store_has sl b h)"
  by (auto simp: store_has_def slot_writable_def split: slot.splits intro: R_stores R_local)

lemma obeys_packed_static_loop:
  assumes f: "\<And>n. n < array_size (it_field it) \<Longrightarrow> obeys (func (item_addr (pData it) (it_field it) n))"
    and w: "slot_writable (pSize it) 4"
  shows "obeys (packed_static_loop k func it)"
proof (induction k)
  case 0
  show ?case by (simp add: obeys_def)
next
  case (Suc k)
  have step: "obeys (\<lambda>(sub, h). packed_static_loop k func it
      (sub, store_size (pSize it) (load_size h (pSize it) + 1) h))"
    by (rule obeysI) (auto intro: R_seq [OF _ _ Suc.IH] R_store_size [OF R_refl w])
  show ?case
  proof (rule obeysI)
    fix s h ok s' h'
    assume "packed_static_loop (Suc k) func it (s, h) = Some (ok, s', h')"
    then show "R ok (s, h) (s', h')"
      by (auto simp: Let_def split: if_splits elim!: R_and_then intro: step obeysD [OF f] R_refl)
  qed
qed

lemma obeys_decode_packed_static:
  assumes "\<And>n. n < array_size (it_field it) \<Longrightarrow> obeys (func (item_addr (pData it) (it_field it) n))"
    and "slot_writable (pSize it) 4"
  shows "obeys (decode_packed_static e func it)"
proof (rule obeysI)
  fix s h ok s' h'
  assume r: "decode_packed_static e func it (s, h) = Some (ok, s', h')"
  obtain v s1 where m: "pb_make_string_substream e s = (v, s1)" by fastforce
  show "R ok (s, h) (s', h')"
  proof (cases v)
    case None
    with r m show ?thesis
      by (auto simp: decode_packed_static_def dest!: make_substream_None intro: R_reads)
  next
    case (Some sub)
    let ?loop = "packed_static_loop (Suc (unat (is_bytes_left sub))) func it (sub, h)"
    obtain status sub' h1 where l: "?loop = Some (status, sub', h1)"
      using r m Some by (auto simp: decode_packed_static_def split: option.splits)
    have R: "R status (sub, h) (sub', h1)"
      by (rule obeysD [OF obeys_packed_static_loop l]) (use assms in auto)
    obtain c s2 where c: "pb_close_string_substream e s1 sub' = (c, s2)" by fastforce
    show ?thesis
      using r m Some l c R_close [OF m [unfolded Some] R c] R_drop [OF m [unfolded Some] R]
      by (auto simp: decode_packed_static_def dec_error_def simp del: packed_static_loop.simps
          split: if_splits intro: R_error)
  qed
qed

text \<open>What is asked of a statically allocated field under the iterator.\<close>

definition static_ok :: "'u msg_decoder \<Rightarrow> nat \<Rightarrow> 'u env \<Rightarrow> iter \<Rightarrow> bool" where
  "static_ok dec n e it \<longleftrightarrow>
     (let field = it_field it; t = ftype field; func = PB_DECODERS dec e field in
      (PB_HTYPE t \<noteq> PB_HTYPE_REPEATED \<longrightarrow> obeys (func (pData it)))
      \<and> (PB_HTYPE t = PB_HTYPE_REPEATED \<longrightarrow>
           (\<forall>k < array_size field. obeys (func (item_addr (pData it) field k))))
      \<and> (PB_HTYPE t = PB_HTYPE_OPTIONAL \<and> pSize it \<noteq> Slot (pData it) \<longrightarrow> slot_writable (pSize it) 1)
      \<and> (PB_HTYPE t = PB_HTYPE_REPEATED \<or> PB_HTYPE t = PB_HTYPE_ONEOF \<longrightarrow> slot_writable (pSize it) 4)
      \<and> (PB_HTYPE t = PB_HTYPE_ONEOF \<longrightarrow>
           (\<forall>s h h'. switch_oneof n e it h = Some h' \<longrightarrow> R True (s, h) (s, h'))))"

lemma obeys_decode_static_field:
  assumes "static_ok dec n e it"
  shows "obeys (decode_static_field dec n e wt it)"
proof (rule obeysI)
  fix s h ok s' h'
  let ?t = "ftype (it_field it)" let ?func = "PB_DECODERS dec e (it_field it)"
  assume r: "decode_static_field dec n e wt it (s, h) = Some (ok, s', h')"
  consider (req) "PB_HTYPE ?t = PB_HTYPE_REQUIRED" | (opt) "PB_HTYPE ?t = PB_HTYPE_OPTIONAL"
    | (rep) "PB_HTYPE ?t = PB_HTYPE_REPEATED" | (one) "PB_HTYPE ?t = PB_HTYPE_ONEOF"
    using PB_HTYPE_cases by blast
  then show "R ok (s, h) (s', h')"
  proof cases
    case req
    with r assms show ?thesis by (auto simp: decode_static_field_def static_ok_def Let_def obeys_def)
  next
    case opt
    define h1 where "h1 = (if pSize it \<noteq> Slot (pData it) then store_has (pSize it) True h else h)"
    have "R True (s, h) (s, h1)"
      using opt assms by (auto simp: h1_def static_ok_def Let_def intro: R_store_has R_refl)
    moreover have "?func (pData it) (s, h1) = Some (ok, s', h')" "obeys (?func (pData it))"
      using r opt assms by (auto simp: decode_static_field_def static_ok_def Let_def h1_def)
    ultimately show ?thesis by (rule R_seq)
  next
    case rep
    define c where "c = load_size h (pSize it)"
    have w: "slot_writable (pSize it) 4" and f: "\<And>k. k < array_size (it_field it) \<Longrightarrow>
        obeys (?func (item_addr (pData it) (it_field it) k))"
      using rep assms by (auto simp: static_ok_def Let_def)
    have R: "R True (s, h) (s, store_size (pSize it) (c + 1) h)"
      using R_store_size [OF R_refl w] .
    show ?thesis
    proof (cases "wt = PB_WT_STRING \<and> PB_LTYPE ?t \<le> PB_LTYPE_LAST_PACKABLE")
      case True
      with r rep have "decode_packed_static e ?func it (s, h) = Some (ok, s', h')"
        by (simp add: decode_static_field_def Let_def)
      with obeys_decode_packed_static [where func = ?func, OF f w] show ?thesis by (blast dest: obeysD)
    next
      case False
      with r rep have "(if array_size (it_field it) \<le> c
          then dec_error ''array overflow'' (s, store_size (pSize it) (c + 1) h)
          else ?func (item_addr (pData it) (it_field it) c) (s, store_size (pSize it) (c + 1) h))
          = Some (ok, s', h')"
        by (auto simp: decode_static_field_def Let_def c_def)
      then show ?thesis
      proof (cases "array_size (it_field it) \<le> c")
        case True
        with \<open>(if _ then _ else _) = _\<close>
        have "dec_error ''array overflow'' (s, store_size (pSize it) (c + 1) h) = Some (ok, s', h')"
          by (simp only: if_True)
        with R show ?thesis by (rule R_dec_error)
      next
        case False
        with \<open>(if _ then _ else _) = _\<close>
        have "?func (item_addr (pData it) (it_field it) c)
            (s, store_size (pSize it) (c + 1) h) = Some (ok, s', h')"
          by (simp only: if_False)
        from R_seq [OF R this f] False show ?thesis by simp
      qed
    qed
  next
    case one
    then obtain h1 where h1: "switch_oneof n e it h = Some h1"
      and f: "?func (pData it) (s, store_size (pSize it) (tag (it_field it)) h1) = Some (ok, s', h')"
      using r by (auto simp: decode_static_field_def Let_def split: option.splits)
    have "R True (s, h) (s, h1)" "slot_writable (pSize it) 4" "obeys (?func (pData it))"
      using one assms h1 by (auto simp: static_ok_def Let_def)
    then show ?thesis using f by (blast intro: R_seq R_store_size)
  qed
qed

end

subsection \<open>The loop over the input\<close>

lemma pb_decode_tag_bound:
  assumes "pb_decode_tag e s = (Some (wt, t), eof, s')"
  shows "t \<noteq> - 1"
proof
  assume t: "t = - 1"
  obtain v where "t = drop_bit 3 (v :: u32)"
    using assms by (auto simp: pb_decode_tag_def split: prod.splits option.splits if_splits)
  then have "\<not> bit t 31" by (auto simp: bit_drop_bit_eq dest: bit_imp_le_length)
  then show False by (simp add: t)
qed

text \<open>The iterators that \<open>pb_decode_noinit\<close> sees while it works on \<open>fs\<close> at \<open>d\<close>.\<close>

definition at_field :: "pb_field list \<Rightarrow> ptr \<Rightarrow> iter \<Rightarrow> bool" where
  "at_field fs d it \<longleftrightarrow> (\<exists>k. iter_at fs d k it)
     \<and> (n_fields fs = 0 \<longrightarrow> PB_HTYPE (ftype (field_at fs 0)) \<noteq> PB_HTYPE_REPEATED)"

lemma at_field_search:
  assumes "at_field fs d it" and "iter_search P it = Some (b, it')"
  shows "at_field fs d it'"
proof -
  obtain k where "iter_at fs d k it" using assms(1) by (auto simp: at_field_def)
  from iter_search_total [OF this, of P] assms show ?thesis by (auto simp: at_field_def)
qed

lemma at_field_local:
  assumes "at_field fs d it" and rep: "PB_HTYPE (ftype (it_field it)) = PB_HTYPE_REPEATED"
    and p: "pSize it = Slot (pData it)"
  shows "at_field fs d (it\<lparr>pSize := Local_slot\<rparr>)"
proof -
  obtain k where k: "iter_at fs d k it" using assms(1) by (auto simp: at_field_def)
  with rep have f: "PB_HTYPE (ftype (field_at fs k)) = PB_HTYPE_REPEATED"
    by (simp add: iter_at_fields)
  with assms(1) k have "k < n_fields fs" by (auto simp: at_field_def iter_at_def)
  moreover have "it = iter_nth fs d k" using k p by (auto simp: iter_at_def)
  ultimately show ?thesis using assms(1) f by (auto simp: at_field_def iter_at_def)
qed

text \<open>The rounds of the loop, for iterators that satisfy \<open>good\<close>.\<close>

locale dec_loop_rel = dec_rel R writable
  for R :: "bool \<Rightarrow> 'u dec_state \<Rightarrow> 'u dec_state \<Rightarrow> bool" and writable :: "ptr \<Rightarrow> nat \<Rightarrow> bool" +
  fixes good :: "iter \<Rightarrow> bool"
  assumes good_search: "good it \<Longrightarrow> iter_search P it = Some (b, it') \<Longrightarrow> good it'"
    and good_local: "good it \<Longrightarrow> PB_HTYPE (ftype (it_field it)) = PB_HTYPE_REPEATED
      \<Longrightarrow> pSize it = Slot (pData it) \<Longrightarrow> good (it\<lparr>pSize := Local_slot\<rparr>)"
begin

definition flow_ok :: "'u dec_state \<Rightarrow> dec_flow \<Rightarrow> 'u dec_state \<Rightarrow> bool" where
  "flow_ok x fl y \<longleftrightarrow> (case fl of
     Go v \<Rightarrow> R True x y \<and> good (dv_iter v)
   | Break v \<Rightarrow> R True x y \<and> good (dv_iter v)
   | Fail \<Rightarrow> R False x y)"

lemma flow_ok_trans: "R True x y \<Longrightarrow> flow_ok y fl z \<Longrightarrow> flow_ok x fl z"
  by (auto simp: flow_ok_def split: dec_flow.splits intro: R_trans)

lemma flow_skip_unknown:
  "good (dv_iter v) \<Longrightarrow> flow_ok x (fst (skip_unknown e wt v x)) (snd (skip_unknown e wt v x))"
  by (cases x) (auto simp: skip_unknown_def flow_ok_def split: prod.splits
      dest!: pb_skip_field_adv intro: R_reads)

lemma flow_unknown_field:
  assumes good: "good (dv_iter v)" and t: "t \<noteq> - 1"
    and ext: "\<And>it. good it \<Longrightarrow> PB_LTYPE (ftype (it_field it)) = PB_LTYPE_EXTENSION \<Longrightarrow>
      obeys (decode_extension dec n e t wt it)"
    and r: "unknown_field dec n e t wt v x = Some (fl, y)"
  shows "flow_ok x fl y"
proof (cases "dv_ext_start v \<le> t")
  case False
  with r have "skip_unknown e wt v x = (fl, y)" by (simp add: unknown_field_def)
  with flow_skip_unknown [OF good, of x e wt] show ?thesis by simp
next
  case True
  then obtain found it where find: "find_extension_field (dv_iter v) = Some (found, it)"
    using r by (auto simp: unknown_field_def split: option.splits)
  have it: "good it" using good find by (auto simp: find_extension_field_def intro: good_search)
  let ?start = "if found then tag (it_field it) else - 1"
  let ?v = "v\<lparr>dv_iter := it, dv_ext_start := ?start\<rparr>"
  have skip: "skip_unknown e wt ?v z = (fl, y) \<Longrightarrow> flow_ok z fl y" for z
    using flow_skip_unknown [of ?v z e wt] it by simp
  show ?thesis
  proof (cases "?start \<le> t")
    case False
    with r True find have "skip_unknown e wt ?v x = (fl, y)" by (simp add: unknown_field_def)
    with skip show ?thesis .
  next
    case ge: True
    with t have "found" by (cases found) (simp_all add: word_order.extremum_unique)
    with find have "PB_LTYPE (ftype (it_field it)) = PB_LTYPE_EXTENSION"
      by (auto simp: find_extension_field_def dest: iter_search_True)
    note ob = ext [OF it this]
    obtain ok z where d: "decode_extension dec n e t wt it x = Some (ok, z)"
      using r True find ge by (auto simp: unknown_field_def Let_def split: option.splits)
    then have R: "R ok x z" by (rule obeysD [OF ob])
    have "(if \<not> ok then Some (Fail, z)
        else if is_bytes_left (fst x) \<noteq> is_bytes_left (fst z) then Some (Go ?v, z)
        else Some (skip_unknown e wt ?v z)) = Some (fl, y)"
      using r True find ge d by (auto simp: unknown_field_def Let_def)
    with R it skip [of z] show ?thesis
      by (auto simp: flow_ok_def [of x] split: if_splits intro: flow_ok_trans
          dest: flow_ok_trans [of x z])
  qed
qed

definition obeys_field :: "('u dec_state \<Rightarrow> (bool \<times> iter \<times> 'u dec_state) option) \<Rightarrow> bool" where
  "obeys_field f \<longleftrightarrow> (\<forall>x ok it y. f x = Some (ok, it, y) \<longrightarrow> R ok x y \<and> (ok \<longrightarrow> good it))"

lemma track_fixed_ok:
  assumes "track_fixed v h = Some (v', h')" and "good (dv_iter v)"
  shows "good (dv_iter v')" and "R True x (s, h) \<Longrightarrow> R True x (s, h')"
  using assms
  by (auto simp: track_fixed_def Let_def split: if_splits option.splits intro: good_local R_local)

lemma flow_known_field:
  assumes good: "good (dv_iter v)"
    and fld: "\<And>it. good it \<Longrightarrow> obeys_field (decode_field dec n e wt it)"
    and r: "known_field dec n e wt v x = Some (fl, y)"
  shows "flow_ok x fl y"
proof -
  obtain s h where x: "x = (s, h)" by fastforce
  show ?thesis
  proof (cases "track_fixed v h")
    case None
    with r x show ?thesis by (auto simp: known_field_def flow_ok_def intro: R_error R_fail R_refl)
  next
    case (Some p)
    then obtain v1 h1 where t: "track_fixed v h = Some (v1, h1)" by (cases p) simp
    note t1 = track_fixed_ok [OF t good]
    obtain ok it where d: "decode_field dec n e wt (dv_iter v1) (s, h1) = Some (ok, it, y)"
      and fl: "fl = (if ok then Go (v1\<lparr>dv_seen := mark_seen (dv_iter v1) (dv_seen v1), dv_iter := it\<rparr>)
        else Fail)"
      using r x t by (auto simp: known_field_def)
    have "R ok (s, h1) y" "ok \<longrightarrow> good it"
      using fld [OF t1(1)] d unfolding obeys_field_def by blast+
    moreover have "R True x (s, h1)" using t1(2) [of x s] R_refl by (simp add: x)
    ultimately show ?thesis by (auto simp: flow_ok_def fl intro: R_trans)
  qed
qed

text \<open>What is asked of the two kinds of fields.\<close>

definition fields_ok :: "'u msg_decoder \<Rightarrow> nat \<Rightarrow> 'u env \<Rightarrow> bool" where
  "fields_ok dec n e \<longleftrightarrow>
     (\<forall>it wt. good it \<longrightarrow> obeys_field (decode_field dec n e wt it))
     \<and> (\<forall>it t wt. good it \<longrightarrow> PB_LTYPE (ftype (it_field it)) = PB_LTYPE_EXTENSION
          \<longrightarrow> obeys (decode_extension dec n e t wt it))"

lemma flow_decode_step:
  assumes good: "good (dv_iter v)" and ok: "fields_ok dec n e"
    and r: "decode_step dec n e v x = Some (fl, y)"
  shows "flow_ok x fl y"
proof -
  obtain s h where x: "x = (s, h)" by fastforce
  obtain q eof s1 where tg: "pb_decode_tag e s = (q, eof, s1)" by (cases "pb_decode_tag e s") auto
  then have R: "R b x (s1, h)" for b unfolding x by (intro R_reads) (rule pb_decode_tag_adv)
  show ?thesis
  proof (cases q)
    case None
    with r x tg R good show ?thesis by (auto simp: decode_step_def flow_ok_def)
  next
    case (Some p)
    then obtain wt t where q: "q = Some (wt, t)" by (cases p) simp
    then have t: "t \<noteq> - 1" using tg by (auto dest: pb_decode_tag_bound)
    obtain found it where find: "pb_field_iter_find (dv_iter v) t = Some (found, it)"
      using r x tg q by (auto simp: decode_step_def split: option.splits)
    have it: "good (dv_iter (v\<lparr>dv_iter := it\<rparr>))"
      using good find by (auto simp: pb_field_iter_find_def intro: good_search)
    have "flow_ok (s1, h) fl y"
    proof (cases found)
      case True
      with r x tg q find have "known_field dec n e wt (v\<lparr>dv_iter := it\<rparr>) (s1, h) = Some (fl, y)"
        by (simp add: decode_step_def)
      with ok show ?thesis by (intro flow_known_field [OF it]) (auto simp: fields_ok_def)
    next
      case False
      with r x tg q find have "unknown_field dec n e t wt (v\<lparr>dv_iter := it\<rparr>) (s1, h) = Some (fl, y)"
        by (simp add: decode_step_def)
      with ok show ?thesis by (intro flow_unknown_field [OF it t]) (auto simp: fields_ok_def)
    qed
    with R show ?thesis by (rule flow_ok_trans)
  qed
qed

lemma R_decode_loop:
  assumes ok: "fields_ok dec n e"
  shows "good (dv_iter v) \<Longrightarrow> decode_loop k dec n e v x = Some (r, y) \<Longrightarrow>
    R (r \<noteq> None) x y"
proof (induction k arbitrary: v x)
  case (Suc k)
  show ?case
  proof (cases "is_bytes_left (fst x) = 0")
    case True
    with Suc.prems show ?thesis by (auto intro: R_refl)
  next
    case False
    then obtain fl z where st: "decode_step dec n e v x = Some (fl, z)"
      using Suc.prems by (auto split: option.splits)
    have f: "flow_ok x fl z" by (rule flow_decode_step [OF Suc.prems(1) ok st])
    show ?thesis
    proof (cases fl)
      case (Go v')
      with f have "R True x z" "good (dv_iter v')" by (simp_all add: flow_ok_def)
      moreover have "decode_loop k dec n e v' z = Some (r, y)"
        using Suc.prems False st Go by simp
      ultimately show ?thesis using Suc.IH by (blast intro: R_trans)
    next
      case (Break v')
      with f Suc.prems False st show ?thesis by (auto simp: flow_ok_def)
    next
      case Fail
      with f Suc.prems False st show ?thesis by (auto simp: flow_ok_def)
    qed
  qed
qed simp

lemma obeys_decode_body:
  assumes ok: "fields_ok dec n e" and good: "good (snd (pb_field_iter_begin fs d))"
  shows "obeys (decode_body dec n e fs d)"
proof (rule obeysI)
  fix s h ok s' h'
  assume "decode_body dec n e fs d (s, h) = Some (ok, s', h')"
  then obtain r s1 h1 h2 where l: "decode_loop n dec n e (init_vars fs d) (s, h\<lparr>hfixed := 0\<rparr>)
        = Some (r, s1, h1)"
    and f: "(case r of None \<Rightarrow> Some (False, s1, h1) | Some v \<Rightarrow> final_checks v (s1, h1))
        = Some (ok, s', h2)" and h': "h' = h2\<lparr>hfixed := hfixed h\<rparr>"
    by (auto simp: decode_body_def split: option.splits)
  have "R (r \<noteq> None) (s, h\<lparr>hfixed := 0\<rparr>) (s1, h1)"
    by (rule R_decode_loop [OF ok _ l]) (simp add: init_vars_def good)
  then have R: "R (r \<noteq> None) (s, h) (s1, h1)"
    by (rule R_trans [OF R_local [OF R_refl]])
  have "R ok (s, h) (s', h2)"
  proof (cases r)
    case None
    with R f show ?thesis by simp
  next
    case (Some v)
    with R have R1: "R True (s, h) (s1, h1)" by simp
    from f Some have "final_checks v (s1, h1) = Some (ok, s', h2)" by simp
    with R1 show ?thesis by (auto simp: final_checks_def split: if_splits intro: R_dec_error)
  qed
  then show "R ok (s, h) (s', h')" unfolding h' by (rule R_local)
qed

end

end
