(* ===== verification/Pb_Decode_Total.thy ===== *)
theory Pb_Decode_Total imports Pb_Dec_Rel begin

text \<open>
  \<open>pb_decode\<close> returns. In the model it is undefined (\<open>None\<close>) when the fuel runs out, when it calls through a
  NULL entry of \<open>PB_DECODERS\<close>, and when it divides by an item size of zero. \<open>decodable_within\<close> bounds the nesting of submessages in a descriptor and asks for field types
  that have a decoder; a fuel above that bound and the length of the input is enough, whatever is in the input and in
  memory. Each step is shown to return and to leave at most as many bytes as it found (\<open>falls\<close>), which bounds the loops.
\<close>

subsection \<open>Descriptors\<close>

text \<open>A field that \<open>PB_DECODERS\<close> has a function for. The storage of an array behind a pointer is guessed by dividing by
  the size of an item. Callback fields are allowed if \<open>cb\<close>.\<close>

definition decodable :: "bool \<Rightarrow> pb_field \<Rightarrow> bool" where
  "decodable cb f \<longleftrightarrow> PB_LTYPE (ftype f) \<le> PB_LTYPE_FIXED_LENGTH_BYTES \<and> PB_LTYPE (ftype f) \<noteq> PB_LTYPE_EXTENSION
     \<and> (PB_ATYPE (ftype f) = PB_ATYPE_CALLBACK \<longrightarrow> cb)
     \<and> (PB_ATYPE (ftype f) = PB_ATYPE_POINTER \<and> PB_HTYPE (ftype f) = PB_HTYPE_REPEATED \<longrightarrow> data_size f \<noteq> 0)"

primrec decodable_within :: "bool \<Rightarrow> nat \<Rightarrow> 'u env \<Rightarrow> pb_field list \<Rightarrow> bool" where
  "decodable_within cb 0 e fs = False"
| "decodable_within cb (Suc l) e fs =
     ((n_fields fs = 0 \<longrightarrow> PB_HTYPE (ftype (field_at fs 0)) \<noteq> PB_HTYPE_REPEATED)
      \<and> list_all (\<lambda>k. let f = field_at fs k in decodable cb f
           \<and> (PB_LTYPE (ftype f) = PB_LTYPE_SUBMESSAGE \<and> PB_ATYPE (ftype f) \<noteq> PB_ATYPE_CALLBACK
              \<longrightarrow> decodable_within cb l e (e_fields e (fptr f)))) [0..<max 1 (n_fields fs)])"

text \<open>A callback for a field uses up some of its input, or it fails.\<close>

definition callbacks_progress :: "'u env \<Rightarrow> bool" where
  "callbacks_progress e \<longleftrightarrow>
     (\<forall>f s field p h ok s' h'. e_dec_cb e f s field p h = (ok, s', h') \<longrightarrow>
        is_bytes_left s' \<le> is_bytes_left s \<and> (ok \<and> is_bytes_left s \<noteq> 0 \<longrightarrow> is_bytes_left s' < is_bytes_left s))"

text \<open>What holds of the field under an iterator of such a message.\<close>

definition field_within :: "bool \<Rightarrow> nat \<Rightarrow> 'u env \<Rightarrow> pb_field \<Rightarrow> bool" where
  "field_within cb l e f \<longleftrightarrow> decodable cb f
     \<and> (PB_LTYPE (ftype f) = PB_LTYPE_SUBMESSAGE \<and> PB_ATYPE (ftype f) \<noteq> PB_ATYPE_CALLBACK
        \<longrightarrow> decodable_within cb l e (e_fields e (fptr f)))"

lemma decodable_within_field:
  "decodable_within cb (Suc l) e fs \<Longrightarrow> k < n_fields fs \<or> k = 0 \<Longrightarrow> field_within cb l e (field_at fs k)"
  by (auto simp: list_all_iff Let_def field_within_def)

lemma at_field_within:
  assumes "decodable_within cb (Suc l) e fs" "at_field fs d it"
  shows "field_within cb l e (it_field it)"
proof -
  obtain k where k: "iter_at fs d k it" using assms(2) by (auto simp: at_field_def)
  then have "k < n_fields fs \<or> k = 0" by (simp add: iter_at_def)
  with decodable_within_field [OF assms(1)] iter_at_fields(4) [OF k] show ?thesis by simp
qed

lemma at_field_begin: "decodable_within cb (Suc l) e fs \<Longrightarrow> at_field fs d (snd (pb_field_iter_begin fs d))"
  unfolding at_field_def by (auto simp: pb_field_iter_begin_eq intro: exI [of _ 0])

subsection \<open>Defaults and release\<close>

lemma total_each_field:
  assumes "\<And>j h. j < n_fields fs \<Longrightarrow> returns (f (iter_nth fs d j) h)"
  shows "returns (each_field f fs d h)"
proof (cases "n_fields fs = 0")
  case False
  then have "returns (iter_loop (\<lambda>it h. map_option (Pair True) (f it h)) (iter_nth fs d 0) h)"
    using assms by (intro iter_loop_total) simp_all
  with False show ?thesis by (simp add: each_field_def pb_field_iter_begin_eq)
qed (simp add: each_field_def pb_field_iter_begin_eq)

lemma total_set_to_default:
  "field_within cb l e (it_field it) \<Longrightarrow> l < n \<Longrightarrow> returns (pb_field_set_to_default n e it h)"
proof (induction n arbitrary: l it h)
  case (Suc n)
  have "returns (each_field (pb_field_set_to_default n e) (e_fields e (fptr (it_field it))) p h')"
    if "PB_LTYPE (ftype (it_field it)) = PB_LTYPE_SUBMESSAGE" "PB_ATYPE (ftype (it_field it)) = PB_ATYPE_STATIC" for p h'
  proof (rule total_each_field)
    fix j and h'' :: heap
    assume j: "j < n_fields (e_fields e (fptr (it_field it)))"
    have "decodable_within cb l e (e_fields e (fptr (it_field it)))"
      using Suc.prems(1) that by (simp add: field_within_def)
    then obtain l' where l: "l = Suc l'" "decodable_within cb (Suc l') e (e_fields e (fptr (it_field it)))"
      by (cases l) auto
    from decodable_within_field [OF l(2), of j] j Suc.prems(2) l(1)
    show "returns (pb_field_set_to_default n e (iter_nth (e_fields e (fptr (it_field it))) p j) h'')"
      by (intro Suc.IH [of l']) simp_all
  qed
  with Suc.prems(1) show ?case by (auto simp: set_default_body_def Let_def field_within_def decodable_def)
qed simp

lemma total_defaults:
  assumes "decodable_within cb l e fs" "l \<le> n"
  shows "returns (pb_message_set_to_defaults n e fs d h)"
  unfolding pb_message_set_to_defaults_def
proof (rule total_each_field)
  fix j and h :: heap
  assume j: "j < n_fields fs"
  obtain l' where l: "l = Suc l'" using assms(1) by (cases l) auto
  with decodable_within_field [of cb l' e fs j] assms j
  show "returns (pb_field_set_to_default n e (iter_nth fs d j) h)" by (intro total_set_to_default [of cb l']) simp_all
qed

lemma returns_bind: "returns r \<Longrightarrow> (\<And>x. returns (f x)) \<Longrightarrow> returns (Option.bind r f)"
  by (cases r) auto

lemma total_release_items: "(\<And>p h. returns (msg p h)) \<Longrightarrow> returns (release_items msg sz n p h)"
proof (induction n arbitrary: p h)
  case (Suc n)
  obtain h' where "msg p h = Some h'" using Suc.prems [of p h] by (auto simp: returns_iff)
  with Suc show ?case by simp
qed simp

lemma total_release_field:
  "field_within cb l e (it_field it) \<Longrightarrow> l < n \<Longrightarrow> returns (pb_release_single_field n e it h)"
proof (induction n arbitrary: l it h)
  case (Suc n)
  let ?fs = "e_fields e (fptr (it_field it))"
  have "returns (release_message (pb_release_single_field n e) ?fs p h')"
    if "PB_LTYPE (ftype (it_field it)) = PB_LTYPE_SUBMESSAGE" "PB_ATYPE (ftype (it_field it)) \<noteq> PB_ATYPE_CALLBACK" for p h'
  proof -
    have "decodable_within cb l e ?fs" using Suc.prems(1) that by (simp add: field_within_def)
    then obtain l' where l: "l = Suc l'" "decodable_within cb (Suc l') e ?fs" by (cases l) auto
    have "returns (pb_release_single_field n e (iter_nth ?fs p j) h'')" if "j < n_fields ?fs" for j h''
      using decodable_within_field [OF l(2), of j] that Suc.prems(2) l(1) by (intro Suc.IH [of l']) simp_all
    then show ?thesis by (simp add: release_message_def total_each_field)
  qed
  then have "returns (release_items (release_message (pb_release_single_field n e) ?fs) sz c p h)"
    if "PB_LTYPE (ftype (it_field it)) = PB_LTYPE_SUBMESSAGE" "PB_ATYPE (ftype (it_field it)) \<noteq> PB_ATYPE_CALLBACK" for sz c p
    using that by (intro total_release_items) blast
  then have "returns (release_body (release_message (pb_release_single_field n e)) (pb_release_single_field n e) n e it h)"
    using Suc.prems(1) unfolding release_body_def Let_def field_within_def decodable_def
    by (auto intro!: returns_bind)
  then show ?case by simp
qed simp

lemma total_release:
  assumes "decodable_within cb l e fs" "l \<le> n"
  shows "returns (pb_release n e fs d h)"
proof -
  obtain l' where l: "l = Suc l'" using assms(1) by (cases l) auto
  have "returns (pb_release_single_field n e (iter_nth fs d j) h')" if "j < n_fields fs" for j h'
    using decodable_within_field [of cb l' e fs j] assms l that by (intro total_release_field [of cb l']) simp_all
  then show ?thesis by (simp add: pb_release_def release_message_def total_each_field)
qed

subsection \<open>Steps that leave at most as many bytes\<close>

abbreviation left :: "'u istream \<Rightarrow> nat" where
  "left s \<equiv> unat (is_bytes_left s)"

definition falls :: "'u istream \<Rightarrow> 'u dec_res \<Rightarrow> bool" where
  "falls s r \<longleftrightarrow> (\<exists>ok s' h'. r = Some (ok, s', h') \<and> left s' \<le> left s)"

lemma falls_Some [simp]: "falls s (Some (ok, s', h')) \<longleftrightarrow> left s' \<le> left s"
  by (simp add: falls_def)

lemma falls_error [simp]: "falls s (dec_error m (s', h)) \<longleftrightarrow> left s' \<le> left s"
  by (simp add: dec_error_def)

lemma falls_and_then:
  assumes "falls s r" and "\<And>s' h'. left s' \<le> left s \<Longrightarrow> falls s' (g (s', h'))"
  shows "falls s (and_then r g)"
  using assms by (fastforce simp: falls_def and_then_def)

lemma falls_trans: "falls s' r \<Longrightarrow> left s' \<le> left s \<Longrightarrow> falls s r"
  by (auto simp: falls_def)

lemma adv_left: "is_adv s s' \<Longrightarrow> left s' \<le> left s"
  by (simp add: is_adv_def)

lemmas reads_left = pb_decode_varint32_adv [THEN adv_left] pb_decode_varint_adv [THEN adv_left]
  pb_decode_svarint_adv [THEN adv_left] pb_decode_fixed32_adv [THEN adv_left] pb_decode_fixed64_adv [THEN adv_left]
  pb_read_adv [THEN adv_left] pb_skip_field_adv [THEN adv_left]

lemma falls_pb_read_mem: "falls s (pb_read_mem e p n (s, h))"
  by (auto simp: pb_read_mem_def dest!: reads_left split: prod.split option.split)

lemma falls_allocate: "falls s (allocate_field e p a b (s, h))"
  by (auto simp: allocate_field_def split: prod.split)

lemma falls_store_checked: "falls s (store_checked store field dest v (s, h))"
  by (auto simp: store_checked_def split: prod.split option.split)

lemma falls_numbers:
  "falls s (pb_dec_bool e field dest (s, h))" "falls s (pb_dec_varint e field dest (s, h))"
  "falls s (pb_dec_uvarint e field dest (s, h))" "falls s (pb_dec_svarint e field dest (s, h))"
  "falls s (pb_dec_fixed32 e field dest (s, h))" "falls s (pb_dec_fixed64 e field dest (s, h))"
  by (auto simp: pb_dec_bool_def pb_dec_varint_def pb_dec_uvarint_def pb_dec_svarint_def pb_dec_fixed32_def
      pb_dec_fixed64_def Let_def dest!: reads_left intro: falls_trans [OF falls_store_checked] split: prod.split option.split)

lemma falls_bytes: "falls s (pb_dec_bytes e field dest (s, h))"
proof -
  obtain v t where v: "pb_decode_varint32 e s = (v, t)" by fastforce
  then have t: "left t \<le> left s" by (rule reads_left)
  have alloc: "falls s (and_then (allocate_field e p a b (t, h)) (\<lambda>(s, h). pb_read_mem e (q h) c (s, w h)))" for p a b q c w
    by (rule falls_trans [OF falls_and_then [OF falls_allocate] t]) (simp add: falls_pb_read_mem)
  show ?thesis
    using v t by (auto simp: pb_dec_bytes_def Let_def intro: alloc falls_trans [OF falls_pb_read_mem] split: option.split)
qed

lemma falls_string: "falls s (pb_dec_string e field dest (s, h))"
proof -
  obtain v t where v: "pb_decode_varint32 e s = (v, t)" by fastforce
  then have t: "left t \<le> left s" by (rule reads_left)
  have read: "falls s (map_option (\<lambda>(status, s, h). (status, (s, store8 (p + ucast sz) 0 h))) (pb_read_mem e p (ucast (sz :: u32)) (s, h)))"
    for p sz s h
    using falls_pb_read_mem [of s e p "ucast sz" h] by (auto simp: falls_def)
  have alloc: "falls s (and_then (allocate_field e p a b (t, h)) (\<lambda>(s, h). map_option
      (\<lambda>(status, s, h'). (status, (s, store8 (load64 h p + ucast sz) 0 h'))) (pb_read_mem e (load64 h p) (ucast sz) (s, h))))"
    for p a b and sz :: u32
    by (rule falls_trans [OF falls_and_then [OF falls_allocate] t]) (simp only: prod.case read)
  show ?thesis
    using v t unfolding pb_dec_string_def Let_def
    by (auto intro: alloc falls_trans [OF read] split: option.split)
qed

lemma falls_fixed_length_bytes: "falls s (pb_dec_fixed_length_bytes e field dest (s, h))"
  by (auto simp: pb_dec_fixed_length_bytes_def dest!: reads_left intro: falls_trans [OF falls_pb_read_mem]
      split: prod.split option.split)

subsection \<open>Substreams\<close>

text \<open>A substream is at most as long as its parent, and so is what is left of the parent.\<close>

lemma make_substream_left:
  assumes "pb_make_string_substream e s = (r, s')"
  shows "left s' \<le> left s \<and> (\<forall>sub. r = Some sub \<longrightarrow> left sub \<le> left s)"
proof -
  obtain v t where v: "pb_decode_varint32 e s = (v, t)" by fastforce
  then have t: "left t \<le> left s" by (rule reads_left)
  have "unat (is_bytes_left t - w) \<le> left t" if "w \<le> is_bytes_left t" for w
    using that by (simp add: word_le_nat_alt unat_sub)
  then have "unat (is_bytes_left t - w) \<le> left s" if "w \<le> is_bytes_left t" for w using that t by (meson le_trans)
  with assms v t show ?thesis
    by (auto simp: pb_make_string_substream_def not_less word_le_nat_alt split: option.splits if_splits)
qed

lemma close_substream_left: "pb_close_string_substream e s sub = (ok, s') \<Longrightarrow> is_bytes_left s' = is_bytes_left s"
  by (auto simp: pb_close_string_substream_def split: prod.splits if_splits)

lemma falls_in_substream:
  assumes "left s \<le> B" and "\<And>s h. left s \<le> B \<Longrightarrow> falls s (f (s, h))"
  shows "falls s (in_substream e f (s, h))"
proof -
  obtain r s1 where m: "pb_make_string_substream e s = (r, s1)" by fastforce
  show ?thesis
  proof (cases r)
    case None
    with m make_substream_left [OF m] show ?thesis by (simp add: in_substream_def)
  next
    case (Some sub)
    then have "left sub \<le> left s" using make_substream_left [OF m] by blast
    then have "left sub \<le> B" using assms(1) by simp
    from assms(2) [OF this, of h] obtain status sub' h' where f: "f (sub, h) = Some (status, sub', h')"
      by (auto simp: falls_def)
    obtain ok s2 where c: "pb_close_string_substream e s1 sub' = (ok, s2)" by fastforce
    show ?thesis
      using m f Some c close_substream_left [OF c] make_substream_left [OF m] by (simp add: in_substream_def)
  qed
qed

lemma falls_PB_DECODERS:
  assumes f: "decodable cb f" and s: "left s \<le> B"
    and sub: "\<And>init s h. PB_LTYPE (ftype f) = PB_LTYPE_SUBMESSAGE \<Longrightarrow> left s \<le> B \<Longrightarrow>
      falls s (dec init (e_fields e (fptr f)) dest (s, h))"
  shows "falls s (PB_DECODERS dec e f dest (s, h))"
proof -
  have "falls s (pb_dec_submessage dec e f dest (s, h))" if l: "PB_LTYPE (ftype f) = PB_LTYPE_SUBMESSAGE"
  proof (cases "fptr f = 0")
    case True
    obtain r s1 where m: "pb_make_string_substream e s = (r, s1)" by fastforce
    with make_substream_left [OF m] True show ?thesis
      by (auto simp: pb_dec_submessage_def split: option.split)
  next
    case False
    with falls_in_substream [OF s sub [OF l]] show ?thesis by (simp add: pb_dec_submessage_def)
  qed
  with byte_le_10 [of "PB_LTYPE (ftype f)"] f show ?thesis
    unfolding decodable_def PB_DECODERS_def Let_def
    by (auto simp: falls_numbers falls_bytes falls_string falls_fixed_length_bytes)
qed

subsection \<open>Statically allocated fields\<close>

text \<open>An item of a packed array takes at least one byte.\<close>

lemma varint32_eof_less: "pb_decode_varint32_eof e s = (Some v, eof, s') \<Longrightarrow> left s' < left s"
proof -
  assume r: "pb_decode_varint32_eof e s = (Some v, eof, s')"
  then obtain b t where b: "pb_readbyte e s = (Some b, t)"
    by (auto simp: pb_decode_varint32_eof_def split: prod.splits option.splits)
  have "left s' \<le> left t"
    using r b by (auto simp: pb_decode_varint32_eof_def dest: varint32_loop_adv [THEN adv_left] split: if_splits prod.splits)
  with pb_readbyte_Some(1) [OF b] show ?thesis by simp
qed

lemma varint_less: "pb_decode_varint e s = (Some v, s') \<Longrightarrow> left s' < left s"
proof -
  assume r: "pb_decode_varint e s = (Some v, s')"
  then obtain b t where b: "pb_readbyte e s = (Some b, t)"
    by (auto simp: pb_decode_varint_def varint_loop.simps [of e 0 0 s] split: prod.splits option.splits)
  have "left s' \<le> left t"
    using r b by (auto simp: pb_decode_varint_def varint_loop.simps [of e 0 0 s] Let_def
      dest: varint_loop_adv [THEN adv_left] split: if_splits)
  with pb_readbyte_Some(1) [OF b] show ?thesis by simp
qed

lemma read_less:
  assumes "pb_read e n s = (Some bs, s')" "n \<noteq> 0"
  shows "left s' < left s"
proof -
  have "0 < unat n" using assms(2) by (simp add: unat_gt_0)
  with pb_read_Some [OF assms(1)] show ?thesis by (simp add: unat_sub word_le_nat_alt)
qed

lemma decode_tag_less: "pb_decode_tag e s = (Some q, eof, s') \<Longrightarrow> left s' < left s"
  by (auto simp: pb_decode_tag_def dest: varint32_eof_less split: prod.splits option.splits if_splits)

lemma store_checked_left: "store_checked store field dest v (s, h) = Some (ok, s', h') \<Longrightarrow> left s' = left s"
  by (auto simp: store_checked_def dec_error_def split: option.splits prod.splits if_splits)

lemma numbers_less:
  "pb_dec_bool e f dest (s, h) = Some (True, s', h') \<Longrightarrow> left s' < left s"
  "pb_dec_varint e f dest (s, h) = Some (True, s', h') \<Longrightarrow> left s' < left s"
  "pb_dec_uvarint e f dest (s, h) = Some (True, s', h') \<Longrightarrow> left s' < left s"
  "pb_dec_svarint e f dest (s, h) = Some (True, s', h') \<Longrightarrow> left s' < left s"
  "pb_dec_fixed32 e f dest (s, h) = Some (True, s', h') \<Longrightarrow> left s' < left s"
  "pb_dec_fixed64 e f dest (s, h) = Some (True, s', h') \<Longrightarrow> left s' < left s"
  by (auto simp: pb_dec_bool_def pb_dec_varint_def pb_dec_uvarint_def pb_dec_svarint_def pb_dec_fixed32_def pb_dec_fixed64_def
      pb_decode_varint32_def pb_decode_svarint_def pb_decode_fixed32_def pb_decode_fixed64_def Let_def
      dest!: store_checked_left varint32_eof_less varint_less read_less split: option.splits prod.splits)

lemma packable_less:
  assumes "PB_LTYPE (ftype f) \<le> PB_LTYPE_LAST_PACKABLE" and r: "PB_DECODERS dec e f dest (s, h) = Some (True, s', h')"
  shows "left s' < left s"
proof -
  have "unat (PB_LTYPE (ftype f)) \<le> 5" using assms(1) by (simp add: word_le_nat_alt)
  then have "PB_LTYPE (ftype f) \<in> {0, 1, 2, 3, 4, 5}" by (simp add: word_unat_eq_iff) arith
  with r show ?thesis unfolding PB_DECODERS_def Let_def by (auto dest: numbers_less)
qed

lemma falls_packed_static_loop:
  assumes "PB_LTYPE (ftype (it_field it)) \<le> PB_LTYPE_LAST_PACKABLE"
    and "\<And>p s h. falls s (PB_DECODERS dec e (it_field it) p (s, h))"
  shows "left s < k \<Longrightarrow> falls s (packed_static_loop k (PB_DECODERS dec e (it_field it)) it (s, h))"
proof (induction k arbitrary: s h)
  case (Suc k)
  let ?n = "load_size h (pSize it)"
  obtain ok s1 h1 where r: "PB_DECODERS dec e (it_field it) (item_addr (pData it) (it_field it) ?n) (s, h) = Some (ok, s1, h1)"
    and s1: "left s1 \<le> left s"
    using assms(2) [of s "item_addr (pData it) (it_field it) ?n" h] by (auto simp: falls_def)
  show ?case
  proof (cases ok)
    case True
    then have less: "left s1 < left s" using packable_less [OF assms(1), of dec e] r by simp
    then have "falls s1 (packed_static_loop k (PB_DECODERS dec e (it_field it)) it (s1, h'))" for h'
      using Suc by simp
    then show ?thesis using r True s1 by (auto simp: Let_def intro: falls_trans)
  qed (use r s1 in \<open>auto simp: Let_def\<close>)
qed simp

lemma falls_packable:
  assumes "decodable cb f" and "PB_LTYPE (ftype f) \<le> PB_LTYPE_LAST_PACKABLE"
  shows "falls s (PB_DECODERS dec e f p (s, h))"
  by (rule falls_PB_DECODERS [OF assms(1) order_refl]) (use assms(2) in auto)

lemma falls_decode_packed_static:
  assumes "decodable cb (it_field it)" and "PB_LTYPE (ftype (it_field it)) \<le> PB_LTYPE_LAST_PACKABLE"
  shows "falls s (decode_packed_static e (PB_DECODERS dec e (it_field it)) it (s, h))"
proof -
  obtain r s1 where m: "pb_make_string_substream e s = (r, s1)" by fastforce
  note s1 = make_substream_left [OF m]
  show ?thesis
  proof (cases r)
    case None
    with m s1 show ?thesis by (simp add: decode_packed_static_def)
  next
    case (Some sub)
    have "falls sub (packed_static_loop (Suc (left sub)) (PB_DECODERS dec e (it_field it)) it (sub, h))"
      by (rule falls_packed_static_loop [OF assms(2) falls_packable [OF assms]]) simp
    then obtain ok sub' h' where "packed_static_loop (Suc (left sub)) (PB_DECODERS dec e (it_field it)) it (sub, h)
        = Some (ok, sub', h')" by (auto simp: falls_def)
    with m Some s1 show ?thesis
      by (auto simp: decode_packed_static_def dest!: close_substream_left split: prod.split simp del: packed_static_loop.simps)
  qed
qed

text \<open>What is asked of the decoder of submessages: it returns on the descriptors of the next level.\<close>

definition sub_falls :: "bool \<Rightarrow> nat \<Rightarrow> 'u env \<Rightarrow> nat \<Rightarrow> 'u msg_decoder \<Rightarrow> bool" where
  "sub_falls cb l e B dec \<longleftrightarrow> (\<forall>fs. decodable_within cb l e fs \<longrightarrow>
     (\<forall>init d s h. left s \<le> B \<longrightarrow> falls s (dec init fs d (s, h))))"

lemma falls_func:
  assumes "sub_falls cb l e B dec" "field_within cb l e f" "PB_ATYPE (ftype f) \<noteq> PB_ATYPE_CALLBACK" "left s \<le> B"
  shows "falls s (PB_DECODERS dec e f p (s, h))"
  using assms by (intro falls_PB_DECODERS [of cb _ _ B]) (auto simp: sub_falls_def field_within_def)

lemma total_switch_oneof:
  assumes "field_within cb l e (it_field it)" "PB_ATYPE (ftype (it_field it)) \<noteq> PB_ATYPE_CALLBACK" "l \<le> n"
  shows "returns (switch_oneof n e it h)"
  using assms by (auto simp: switch_oneof_def Let_def field_within_def intro: total_defaults)

lemma falls_decode_static_field:
  assumes "sub_falls cb l e B dec" "field_within cb l e (it_field it)"
    and "PB_ATYPE (ftype (it_field it)) \<noteq> PB_ATYPE_CALLBACK" "left s \<le> B" "l \<le> n"
  shows "falls s (decode_static_field dec n e wt it (s, h))"
proof -
  have f: "decodable cb (it_field it)" using assms(2) by (simp add: field_within_def)
  obtain h' where "switch_oneof n e it h = Some h'"
    using total_switch_oneof [OF assms(2,3,5)] by (auto simp: returns_iff)
  then show ?thesis
    using falls_func [OF assms(1-4)] falls_decode_packed_static [OF f]
    by (auto simp: decode_static_field_def Let_def)
qed

subsection \<open>Dynamically allocated fields\<close>

lemma falls_decode_new_item:
  assumes "field_within cb l e f" "PB_ATYPE (ftype f) \<noteq> PB_ATYPE_CALLBACK" "l \<le> n" "\<And>h. falls s (func p (s, h))"
  shows "falls s (decode_new_item n e func f p (s, h))"
proof -
  have "returns (initialize_pointer_field n e p f h)"
    using assms(1-3) by (auto simp: initialize_pointer_field_def Let_def field_within_def intro: total_defaults)
  then obtain h' where "initialize_pointer_field n e p f h = Some h'" by (auto simp: returns_iff)
  with assms(4) show ?thesis by (simp add: decode_new_item_def)
qed

lemma allocate_left: "allocate_field e p a b (s, h) = Some (ok, s', h') \<Longrightarrow> left s' = left s"
  by (auto simp: allocate_field_def dec_error_def split: if_splits prod.splits)

lemma packable_new_item_less:
  "PB_LTYPE (ftype f) \<le> PB_LTYPE_LAST_PACKABLE \<Longrightarrow>
    decode_new_item n e (PB_DECODERS dec e f) f p (s, h) = Some (True, s', h') \<Longrightarrow> left s' < left s"
  by (auto simp: decode_new_item_def dest: packable_less split: option.splits)

text \<open>A round of the loop over a packed array: it returns, and a round that succeeds has read something.\<close>

lemma packed_pointer_round:
  assumes f: "field_within cb l e f" "PB_ATYPE (ftype f) \<noteq> PB_ATYPE_CALLBACK" "l \<le> n"
    and p: "PB_LTYPE (ftype f) \<le> PB_LTYPE_LAST_PACKABLE"
    and round: "r = and_then (if grow then allocate_field e q a b (s, h) else Some (True, (s, h)))
      (\<lambda>(s, h). decode_new_item n e (PB_DECODERS dec e f) f (item h) (s, h))"
  shows "\<exists>ok s' h'. r = Some (ok, s', h') \<and> (ok \<longrightarrow> left s' < left s)"
proof -
  have d: "decodable cb f" using f(1) by (simp add: field_within_def)
  have "falls s r"
    unfolding round
    by (rule falls_and_then) (auto simp: falls_allocate intro: falls_decode_new_item [OF f] falls_packable [OF d p])
  moreover have "left s' < left s" if "r = Some (True, s', h')" for s' h'
    using that
    by (auto simp: round dest!: allocate_left packable_new_item_less [OF p] elim!: and_then_SomeE split: if_splits)
  ultimately show ?thesis by (auto simp: falls_def)
qed

lemma total_packed_pointer_loop:
  assumes f: "field_within cb l e (it_field it)" "PB_ATYPE (ftype (it_field it)) = PB_ATYPE_POINTER"
      "PB_HTYPE (ftype (it_field it)) = PB_HTYPE_REPEATED" "l \<le> n"
    and p: "PB_LTYPE (ftype (it_field it)) \<le> PB_LTYPE_LAST_PACKABLE"
  shows "left sub < k \<Longrightarrow> \<exists>s' ok sub' h'.
    packed_pointer_loop k n e (PB_DECODERS dec e (it_field it)) it allocated s (sub, h) = Some (s', ok, sub', h')
    \<and> left s' = left s"
proof (induction k arbitrary: sub h allocated)
  case (Suc k)
  let ?f = "it_field it" and ?c = "load_size h (pSize it)"
  let ?grow = "allocated < ucast ?c + 1"
  let ?a = "if ?grow then grow_alloc ?f (is_bytes_left sub) allocated else allocated"
  define r where "r = and_then
    (if ?grow then allocate_field e (pData it) (ucast (data_size ?f)) ?a (sub, h) else Some (True, (sub, h)))
    (\<lambda>(sub, h). decode_new_item n e (PB_DECODERS dec e ?f) ?f
       (item_addr (load64 h (pData it)) ?f (load_size h (pSize it))) (sub, h))"
  have d: "data_size ?f \<noteq> 0" using f by (simp add: field_within_def decodable_def)
  have c: "PB_ATYPE (ftype ?f) \<noteq> PB_ATYPE_CALLBACK" using f(2) by simp
  obtain ok sub' h' where r': "r = Some (ok, sub', h')" and less: "ok \<longrightarrow> left sub' < left sub"
    using packed_pointer_round [OF f(1) c f(4) p r_def] by blast
  have eq: "packed_pointer_loop (Suc k) n e (PB_DECODERS dec e ?f) it allocated s (sub, h) =
    (if is_bytes_left sub = 0 then Some (s, True, (sub, h))
     else if ?c = PB_SIZE_MAX then Some (s\<lparr>is_errmsg := Some ''too many array entries''\<rparr>, False, (sub, h))
     else if ok then packed_pointer_loop k n e (PB_DECODERS dec e ?f) it ?a s
       (sub', store_size (pSize it) (load_size h' (pSize it) + 1) h')
     else Some (s, False, (sub', h')))"
    using d r' unfolding r_def by (simp add: Let_def)
  have "ok \<Longrightarrow> left sub' < k" using less Suc.prems by simp
  from Suc.IH [OF this] show ?case unfolding eq by auto
qed simp

lemma falls_decode_packed_pointer:
  assumes "field_within cb l e (it_field it)" "PB_ATYPE (ftype (it_field it)) = PB_ATYPE_POINTER"
    "PB_HTYPE (ftype (it_field it)) = PB_HTYPE_REPEATED" "l \<le> n"
    "PB_LTYPE (ftype (it_field it)) \<le> PB_LTYPE_LAST_PACKABLE"
  shows "falls s (decode_packed_pointer n e (PB_DECODERS dec e (it_field it)) it (s, h))"
proof -
  obtain r s1 where m: "pb_make_string_substream e s = (r, s1)" by fastforce
  note s1 = make_substream_left [OF m]
  show ?thesis
  proof (cases r)
    case None
    with m s1 show ?thesis by (simp add: decode_packed_pointer_def)
  next
    case (Some sub)
    from total_packed_pointer_loop [OF assms, of sub "Suc (left sub)"]
    obtain s2 ok sub' h' where "packed_pointer_loop (Suc (left sub)) n e (PB_DECODERS dec e (it_field it)) it
        (ucast (load_size h (pSize it))) s1 (sub, h) = Some (s2, ok, sub', h')" and "left s2 = left s1"
      by blast
    with m Some s1 show ?thesis
      by (auto simp: decode_packed_pointer_def dest!: close_substream_left split: prod.split simp del: packed_pointer_loop.simps)
  qed
qed

lemma falls_decode_pointer_field:
  assumes "sub_falls cb l e B dec" "field_within cb l e (it_field it)"
    and "PB_ATYPE (ftype (it_field it)) = PB_ATYPE_POINTER" "left s \<le> B" "l < n"
  shows "falls s (decode_pointer_field dec n e wt it (s, h))"
proof -
  let ?f = "it_field it"
  have c: "PB_ATYPE (ftype ?f) \<noteq> PB_ATYPE_CALLBACK" and l: "l \<le> n" using assms(3,5) by simp_all
  have func: "falls t (PB_DECODERS dec e ?f p (t, h'))" if "left t \<le> left s" for t p h'
    using that assms(4) by (intro falls_func [OF assms(1,2) c]) simp
  have item: "falls t (decode_new_item n e (PB_DECODERS dec e ?f) ?f p (t, h'))" if "left t \<le> left s" for t p h'
    using func [OF that] by (rule falls_decode_new_item [OF assms(2) c l])
  have alloc: "falls s (and_then (allocate_field e q a b (s, h')) g)"
    if "\<And>t h'. left t \<le> left s \<Longrightarrow> falls t (g (t, h'))" for q a b h' g
    using that by (rule falls_and_then [OF falls_allocate])
  obtain h1 where "pb_release_single_field n e it h = Some h1"
    using total_release_field [OF assms(2,5)] by (auto simp: returns_iff)
  moreover have "falls s (decode_packed_pointer n e (PB_DECODERS dec e ?f) it (s, h))"
    if "PB_HTYPE (ftype ?f) = PB_HTYPE_REPEATED" "PB_LTYPE (ftype ?f) \<le> PB_LTYPE_LAST_PACKABLE"
    using falls_decode_packed_pointer [OF assms(2,3) that(1) l that(2)] .
  ultimately show ?thesis
    by (auto simp: decode_pointer_field_def Let_def intro!: alloc item func)
qed

subsection \<open>Callback fields\<close>

lemma call_decoder_left:
  assumes "callbacks_progress e" and "call_decoder e func f arg (s, h) = (ok, s', h')"
  shows "left s' \<le> left s" and "ok \<Longrightarrow> is_bytes_left s \<noteq> 0 \<Longrightarrow> left s' < left s"
proof -
  from assms(2) obtain h1 where r: "e_dec_cb e func s f arg h = (ok, s', h1)"
    by (auto simp: call_decoder_def split: prod.splits)
  with assms(1) have "is_bytes_left s' \<le> is_bytes_left s \<and> (ok \<and> is_bytes_left s \<noteq> 0 \<longrightarrow> is_bytes_left s' < is_bytes_left s)"
    unfolding callbacks_progress_def by blast
  then show "left s' \<le> left s" "ok \<Longrightarrow> is_bytes_left s \<noteq> 0 \<Longrightarrow> left s' < left s"
    by (simp_all add: word_le_nat_alt word_less_nat_alt)
qed

lemma falls_callback_loop:
  assumes "callbacks_progress e"
  shows "left s < k \<Longrightarrow> falls s (callback_loop k e it (s, h))"
proof (induction k arbitrary: s h)
  case (Suc k)
  obtain ok s1 h1 where c: "call_decoder e (callback_func h (pData it)) (it_field it) (callback_arg (pData it)) (s, h)
      = (ok, s1, h1)" by (cases "call_decoder e (callback_func h (pData it)) (it_field it) (callback_arg (pData it)) (s, h)") auto
  note s1 = call_decoder_left [OF assms c]
  have "left s1 < k" if "ok" "is_bytes_left s1 \<noteq> 0"
  proof -
    have "is_bytes_left s \<noteq> 0" using s1(1) that(2) by (auto simp: word_unat_eq_iff)
    with s1(2) that(1) Suc.prems show ?thesis by simp
  qed
  then have "falls s (callback_loop k e it (s1, h1))" if "ok" "is_bytes_left s1 \<noteq> 0"
    using falls_trans [OF Suc.IH s1(1)] that by blast
  with c s1(1) show ?case by simp
qed simp

lemma falls_decode_callback_field:
  assumes "cb \<Longrightarrow> callbacks_progress e" "cb" "left s < n"
  shows "falls s (decode_callback_field n e wt it (s, h))"
proof -
  have e: "callbacks_progress e" using assms(1,2) by blast
  obtain r s1 where m: "pb_make_string_substream e s = (r, s1)" by fastforce
  note s1 = make_substream_left [OF m]
  have str: "falls s (case r of None \<Rightarrow> Some (False, (s1, h)) | Some sub \<Rightarrow>
      (case callback_loop n e it (sub, h) of
         None \<Rightarrow> None
       | Some (ok, sub', h') \<Rightarrow>
           if ok then (case pb_close_string_substream e s1 sub' of (ok', s'') \<Rightarrow> Some (ok', (s'', h')))
           else dec_error ''callback failed'' (inherit_fault sub' s1, h')))"
  proof (cases r)
    case (Some sub)
    then have "left sub < n" using s1 assms(3) by auto
    from falls_callback_loop [OF e this] obtain ok sub' h' where
      "callback_loop n e it (sub, h) = Some (ok, sub', h')" unfolding falls_def by blast
    with Some s1 show ?thesis by (auto dest!: close_substream_left split: prod.split)
  qed (use s1 in simp)
  show ?thesis
    using str m
    by (auto simp: decode_callback_field_def dest!: pb_skip_field_adv [THEN adv_left] read_raw_value_adv [THEN adv_left]
      split: prod.split option.split)
qed

subsection \<open>Any field\<close>

text \<open>A step that returns, leaves at most as many bytes, and leaves the iterator at a field of the message.\<close>

definition falls_at :: "pb_field list \<Rightarrow> ptr \<Rightarrow> 'u istream \<Rightarrow> (bool \<times> iter \<times> 'u dec_state) option \<Rightarrow> bool" where
  "falls_at fs d s r \<longleftrightarrow> (\<exists>ok it s' h'. r = Some (ok, it, s', h') \<and> left s' \<le> left s \<and> at_field fs d it)"

lemma at_field_find:
  assumes "at_field fs d it"
  obtains b it' where "iter_search P it = Some (b, it')" "at_field fs d it'" "b \<Longrightarrow> P (it_field it')"
proof -
  obtain k where "iter_at fs d k it" using assms by (auto simp: at_field_def)
  from iter_search_total [OF this, of P] obtain b it' where "iter_search P it = Some (b, it')" "b \<longrightarrow> P (it_field it')"
    by blast
  with that at_field_search [OF assms] show thesis by blast
qed

lemma falls_release_union_field:
  assumes fs: "decodable_within cb (Suc l) e fs" and it: "at_field fs d it" and l: "l < n"
  shows "falls_at fs d s (pb_release_union_field n e it (s, h))"
proof -
  obtain b it1 where find1: "pb_field_iter_find it (load_size h (pSize it)) = Some (b, it1)" and it1: "at_field fs d it1"
    using at_field_find [OF it] unfolding pb_field_iter_find_def by blast
  obtain b2 it2 where find2: "pb_field_iter_find it1 (tag (it_field it)) = Some (b2, it2)" and it2: "at_field fs d it2"
    using at_field_find [OF it1] unfolding pb_field_iter_find_def by blast
  have "returns (pb_release_single_field n e it1 h)"
    by (rule total_release_field [OF at_field_within [OF fs it1] l])
  then obtain h' where "pb_release_single_field n e it1 h = Some h'" by (auto simp: returns_iff)
  with find1 find2 it it1 it2 show ?thesis by (auto simp: pb_release_union_field_def Let_def falls_at_def)
qed

lemma falls_decode_field:
  assumes dec: "sub_falls cb l e B dec" and fs: "decodable_within cb (Suc l) e fs" and cb: "cb \<Longrightarrow> callbacks_progress e"
    and it: "at_field fs d it" and s: "left s \<le> B" "left s < n" and l: "l < n"
  shows "falls_at fs d s (decode_field dec n e wt it (s, h))"
proof -
  have "falls_at fs d s (if PB_HTYPE (ftype (it_field it)) = PB_HTYPE_ONEOF
      then pb_release_union_field n e it (s, h) else Some (True, it, (s, h)))"
    using falls_release_union_field [OF fs it l, of s h] it by (auto simp: falls_at_def)
  then obtain ok it1 s1 h1 where u: "(if PB_HTYPE (ftype (it_field it)) = PB_HTYPE_ONEOF
      then pb_release_union_field n e it (s, h) else Some (True, it, (s, h))) = Some (ok, it1, s1, h1)"
    and s1: "left s1 \<le> left s" and it1: "at_field fs d it1"
    unfolding falls_at_def by blast
  have f: "field_within cb l e (it_field it1)" by (rule at_field_within [OF fs it1])
  have B: "left s1 \<le> B" "left s1 < n" "l \<le> n" using s s1 l by simp_all
  have "cb" if "PB_ATYPE (ftype (it_field it1)) = PB_ATYPE_CALLBACK" using f that by (simp add: field_within_def decodable_def)
  then have "falls s1 (if PB_ATYPE (ftype (it_field it1)) = PB_ATYPE_STATIC then decode_static_field dec n e wt it1 (s1, h1)
     else if PB_ATYPE (ftype (it_field it1)) = PB_ATYPE_POINTER then decode_pointer_field dec n e wt it1 (s1, h1)
     else if PB_ATYPE (ftype (it_field it1)) = PB_ATYPE_CALLBACK then decode_callback_field n e wt it1 (s1, h1)
     else dec_error ''invalid field type'' (s1, h1))"
    using falls_decode_static_field [OF dec f _ B(1,3)] falls_decode_pointer_field [OF dec f _ B(1) l]
      falls_decode_callback_field [OF cb _ B(2)] by simp
  then obtain ok' s' h' where "(if PB_ATYPE (ftype (it_field it1)) = PB_ATYPE_STATIC then decode_static_field dec n e wt it1 (s1, h1)
     else if PB_ATYPE (ftype (it_field it1)) = PB_ATYPE_POINTER then decode_pointer_field dec n e wt it1 (s1, h1)
     else if PB_ATYPE (ftype (it_field it1)) = PB_ATYPE_CALLBACK then decode_callback_field n e wt it1 (s1, h1)
     else dec_error ''invalid field type'' (s1, h1)) = Some (ok', s', h')" "left s' \<le> left s1"
    unfolding falls_def by blast
  with u s1 it1 show ?thesis by (cases ok) (auto simp: decode_field_def falls_at_def Let_def)
qed

subsection \<open>The loop over the input\<close>

text \<open>A round that goes on has read something and leaves the iterator at a field of the message.\<close>

definition flow_falls :: "pb_field list \<Rightarrow> ptr \<Rightarrow> 'u istream \<Rightarrow> (dec_flow \<times> 'u dec_state) option \<Rightarrow> bool" where
  "flow_falls fs d s r \<longleftrightarrow> (\<exists>fl s' h'. r = Some (fl, s', h') \<and> left s' \<le> left s \<and> (\<forall>v. fl = Go v \<longrightarrow> at_field fs d (dv_iter v)))"

lemma falls_skip_unknown:
  "at_field fs d (dv_iter v) \<Longrightarrow> flow_falls fs d s (Some (skip_unknown e wt v (s, h)))"
  by (auto simp: skip_unknown_def flow_falls_def dest!: pb_skip_field_adv [THEN adv_left] split: prod.split)

lemma falls_unknown_field:
  assumes fs: "decodable_within cb (Suc l) e fs" and v: "at_field fs d (dv_iter v)" and t: "t \<noteq> - 1"
  shows "flow_falls fs d s (unknown_field dec n e t wt v (s, h))"
proof -
  obtain b it where find: "find_extension_field (dv_iter v) = Some (b, it)" and it: "at_field fs d it"
    and b: "b \<Longrightarrow> PB_LTYPE (ftype (it_field it)) = PB_LTYPE_EXTENSION"
    using at_field_find [OF v] unfolding find_extension_field_def by blast
  have "\<not> b" using b at_field_within [OF fs it] by (auto simp: field_within_def decodable_def)
  moreover have "\<not> (- 1 \<le> t)" using t by (simp add: word_order.extremum_unique)
  ultimately show ?thesis using find it v by (simp add: unknown_field_def falls_skip_unknown)
qed

lemma at_field_track_fixed:
  "track_fixed v h = Some (v', h') \<Longrightarrow> at_field fs d (dv_iter v) \<Longrightarrow> at_field fs d (dv_iter v')"
  by (auto simp: track_fixed_def Let_def split: if_splits option.splits intro: at_field_local)

lemma falls_decode_step:
  assumes dec: "sub_falls cb l e B dec" and fs: "decodable_within cb (Suc l) e fs" and cb: "cb \<Longrightarrow> callbacks_progress e"
    and v: "at_field fs d (dv_iter v)" and s: "left s \<le> B" "left s < n" and l: "l < n"
  obtains fl s' h' where "decode_step dec n e v (s, h) = Some (fl, s', h')" "left s' \<le> left s"
    "\<And>v'. fl = Go v' \<Longrightarrow> left s' < left s \<and> at_field fs d (dv_iter v')"
proof -
  obtain q eof s1 where tg: "pb_decode_tag e s = (q, eof, s1)" by (cases "pb_decode_tag e s") auto
  then have s1: "left s1 \<le> left s" by (rule pb_decode_tag_adv [THEN adv_left])
  show thesis
  proof (cases q)
    case None
    with tg s1 show thesis by (intro that) (auto simp: decode_step_def split: if_splits)
  next
    case (Some p)
    then obtain wt t where q: "q = Some (wt, t)" by (cases p) simp
    then have t: "t \<noteq> - 1" and less: "left s1 < left s" using tg by (auto dest: pb_decode_tag_bound decode_tag_less)
    obtain b it where find: "pb_field_iter_find (dv_iter v) t = Some (b, it)" and it: "at_field fs d it"
      using at_field_find [OF v] unfolding pb_field_iter_find_def by blast
    let ?v = "v\<lparr>dv_iter := it\<rparr>"
    have "flow_falls fs d s1 (known_field dec n e wt ?v (s1, h))"
    proof (cases "track_fixed ?v h")
      case None
      then show ?thesis by (simp add: known_field_def flow_falls_def)
    next
      case (Some p)
      then obtain v1 h1 where tr: "track_fixed ?v h = Some (v1, h1)" by (cases p) simp
      then have "at_field fs d (dv_iter v1)" using it by (auto intro: at_field_track_fixed)
      then obtain ok it1 s2 h2 where "decode_field dec n e wt (dv_iter v1) (s1, h1) = Some (ok, it1, s2, h2)"
        and "left s2 \<le> left s1" "at_field fs d it1"
        using falls_decode_field [OF dec fs cb, of d "dv_iter v1" s1 n wt h1] s s1 l unfolding falls_at_def by auto
      with tr show ?thesis by (cases ok) (simp_all add: known_field_def flow_falls_def Let_def)
    qed
    moreover have "flow_falls fs d s1 (unknown_field dec n e t wt ?v (s1, h))"
      by (rule falls_unknown_field [OF fs _ t]) (simp add: it)
    ultimately have "flow_falls fs d s1 (decode_step dec n e v (s, h))"
      using tg q find by (simp add: decode_step_def)
    with less that show thesis by (fastforce simp: flow_falls_def)
  qed
qed

lemma total_decode_loop:
  assumes "sub_falls cb l e B dec" "decodable_within cb (Suc l) e fs" "cb \<Longrightarrow> callbacks_progress e" "l < n"
  shows "at_field fs d (dv_iter v) \<Longrightarrow> left s \<le> B \<Longrightarrow> left s < n \<Longrightarrow> left s < k \<Longrightarrow>
    \<exists>r s' h'. decode_loop k dec n e v (s, h) = Some (r, s', h') \<and> left s' \<le> left s"
proof (induction k arbitrary: v s h)
  case (Suc k)
  obtain fl s1 h1 where st: "decode_step dec n e v (s, h) = Some (fl, s1, h1)" "left s1 \<le> left s"
    and go: "\<And>v'. fl = Go v' \<Longrightarrow> left s1 < left s \<and> at_field fs d (dv_iter v')"
    using falls_decode_step [OF assms(1-3) Suc.prems(1-3) assms(4)] by blast
  show ?case
  proof (cases fl)
    case (Go v')
    with go have "\<exists>r s' h'. decode_loop k dec n e v' (s1, h1) = Some (r, s', h') \<and> left s' \<le> left s1"
      using Suc.prems by (intro Suc.IH) auto
    with st Go show ?thesis by (auto intro: le_trans)
  qed (use st in auto)
qed simp

subsection \<open>Messages\<close>

lemma falls_decode_body:
  assumes "sub_falls cb l e (left s) dec" "decodable_within cb (Suc l) e fs" "cb \<Longrightarrow> callbacks_progress e"
    "l < n" "left s < n"
  shows "falls s (decode_body dec n e fs d (s, h))"
proof -
  have "at_field fs d (dv_iter (init_vars fs d))" using at_field_begin [OF assms(2)] by (simp add: init_vars_def)
  from total_decode_loop [OF assms(1-4) this order_refl assms(5,5)]
  obtain r s' h' where l: "decode_loop n dec n e (init_vars fs d) (s, h\<lparr>hfixed := 0\<rparr>) = Some (r, s', h')" "left s' \<le> left s"
    by blast
  show ?thesis
  proof (cases r)
    case (Some v)
    have "falls s (final_checks v (s', h'))" using l(2) by (simp add: final_checks_def)
    with l Some show ?thesis by (auto simp: decode_body_def falls_def)
  qed (use l in \<open>auto simp: decode_body_def falls_def\<close>)
qed

lemma falls_decode_with_init:
  assumes "decodable_within cb l e fs" "l \<le> n" and "\<And>h. falls s (noinit (s, h))"
  shows "falls s (decode_with_init noinit n e fs d (s, h))"
proof -
  obtain h1 where h1: "pb_message_set_to_defaults n e fs d h = Some h1"
    using total_defaults [OF assms(1,2)] by (auto simp: returns_iff)
  obtain ok s' h2 where n: "noinit (s, h1) = Some (ok, s', h2)" "left s' \<le> left s"
    using assms(3) [of h1] by (auto simp: falls_def)
  obtain h3 where "pb_release n e fs d h2 = Some h3" using total_release [OF assms(1,2)] by (auto simp: returns_iff)
  with h1 n show ?thesis by (simp add: decode_with_init_def)
qed

lemma falls_pb_decode_noinit:
  assumes cb: "cb \<Longrightarrow> callbacks_progress e"
  shows "decodable_within cb l e fs \<Longrightarrow> l + left s < n \<Longrightarrow> falls s (pb_decode_noinit n e fs d (s, h))"
proof (induction n arbitrary: l fs d s h)
  case (Suc n)
  obtain l' where l: "l = Suc l'" using Suc.prems(1) by (cases l) auto
  have noinit: "falls t (pb_decode_noinit n e gs q (t, h'))"
    if "decodable_within cb l' e gs" "left t \<le> left s" for gs q t h'
    using that Suc.prems(2) l by (intro Suc.IH [of l']) simp_all
  have "falls t (decode_with_init (pb_decode_noinit n e gs q) n e gs q (t, h'))"
    if "decodable_within cb l' e gs" "left t \<le> left s" for gs q t h'
    using that Suc.prems(2) l noinit by (intro falls_decode_with_init [of cb l']) simp_all
  with noinit have "sub_falls cb l' e (left s) (\<lambda>init fs d sh.
       if init then decode_with_init (pb_decode_noinit n e fs d) n e fs d sh else pb_decode_noinit n e fs d sh)"
    by (simp add: sub_falls_def)
  from falls_decode_body [OF this _ cb, of fs n] Suc.prems l show ?case by simp
qed simp

lemma falls_pb_decode:
  assumes "cb \<Longrightarrow> callbacks_progress e" "decodable_within cb l e fs" "l + left s < n"
  shows "falls s (pb_decode n e fs d (s, h))"
  unfolding pb_decode_def
  using falls_pb_decode_noinit [OF assms] assms(3) by (intro falls_decode_with_init [OF assms(2)]) simp_all

end
