(* ===== verification/Pb_Stream_Safety.thy ===== *)
theory Pb_Stream_Safety imports Pb_Decode_Total begin

text \<open>
  The decoder and its input stream: whatever the bytes, the descriptor and the contents of memory,
  no function of \<open>pb_decode.c\<close> reads past the end of a buffer stream, and one that returns true has
  moved the buffer pointer by exactly what it took off \<open>bytes_left\<close>. The application's callbacks
  have to treat their stream likewise.
\<close>

definition stream_rel :: "bool \<Rightarrow> 'u dec_state \<Rightarrow> 'u dec_state \<Rightarrow> bool" where
  "stream_rel ok x y \<longleftrightarrow> moves ok (fst x) (fst y)"

interpretation stream: dec_loop_rel stream_rel "\<lambda>_ _. True" "\<lambda>_. True"
proof unfold_locales
  fix e :: "'a env" and s sub s1 sub' s2 status h h' ok
  assume m: "pb_make_string_substream e s = (Some sub, s1)"
    and r: "stream_rel status (sub, h) (sub', h')"
  from r have mv: "moves status sub sub'" by (simp add: stream_rel_def)
  show "stream_rel False (s, h) (inherit_fault sub' s1, h')"
    using substream_dropped [OF m] mv by (simp add: stream_rel_def moves_def)
  assume "pb_close_string_substream e s1 sub' = (ok, s2)"
  with substream_closed [OF m mv] show "stream_rel (ok \<and> status) (s, h) (s2, h')"
    by (simp add: stream_rel_def)
qed (auto simp: stream_rel_def moves_def is_adv_mov intro: is_adv_trans is_mov_trans)

text \<open>Changes of the heap do not matter here.\<close>

lemma stream_heap [simp]: "stream_rel ok (s, h) (s', h') \<longleftrightarrow> moves ok s s'"
  by (simp add: stream_rel_def)

lemma moves_refl [simp]: "moves ok s s"
  by (rule moves_adv) simp

lemma moves_trans: "is_adv s t \<Longrightarrow> moves ok t u \<Longrightarrow> moves ok s u"
  by (auto simp: moves_def intro: is_mov_trans is_adv_trans is_adv_mov)

lemma moves_seq: "moves True s t \<Longrightarrow> moves ok t u \<Longrightarrow> moves ok s u"
  by (rule moves_trans) (simp_all add: moves_def)

lemma moves_error: "is_mov s t \<Longrightarrow> moves False s (PB_SET_ERROR_is m t)"
  by (simp add: moves_def)

subsection \<open>Dynamic memory\<close>

lemma stream_map_heap:
  assumes "stream.obeys f"
  shows "f (s, h) = Some (ok, s', h') \<Longrightarrow> moves ok s s'"
  using stream.obeysD [OF assms] by fastforce

lemma stream_error: "dec_error m (s, h) = Some (ok, s', h') \<Longrightarrow> is_adv t s \<Longrightarrow> moves ok t s'"
  by (auto simp: dec_error_def moves_def is_adv_mov)

lemma stream_allocate_field: "stream.obeys (allocate_field e p n k)"
  by (rule stream.obeysI)
    (auto simp: allocate_field_def split: if_splits prod.splits intro: stream_error)

lemma stream_read_mem: "stream.obeys (pb_read_mem e p n)"
  by (rule stream.obeys_read_mem) (rule TrueI, rule order_refl)

lemma moves_True: "moves True s t \<longleftrightarrow> is_adv s t"
  by (auto simp: moves_def is_adv_mov)

lemma stream_pb_dec_bytes: "stream.obeys (pb_dec_bytes e field dest)"
proof (rule stream.obeysI)
  fix s h ok s' h'
  assume r: "pb_dec_bytes e field dest (s, h) = Some (ok, s', h')"
  obtain v t where v: "pb_decode_varint32 e s = (v, t)" by fastforce
  then have adv: "is_adv s t" by (rule pb_decode_varint32_adv)
  have rd: "is_adv s u \<Longrightarrow> pb_read_mem e p n (u, k) = Some (ok, s', h') \<Longrightarrow> moves ok s s'" for u p n k
    by (blast intro: moves_trans stream_map_heap [OF stream_read_mem])
  have al: "allocate_field e dest n 1 (t, h) = Some (b, u, k) \<Longrightarrow> moves b s u" for n b u k
    by (blast intro: moves_trans adv stream_map_heap [OF stream_allocate_field])
  show "stream_rel ok (s, h) (s', h')"
    using r v adv
    by (auto simp: pb_dec_bytes_def Let_def moves_adv moves_True split: option.splits if_splits
        intro: stream_error rd elim!: and_then_SomeE dest!: al)
qed

lemma stream_pb_dec_string: "stream.obeys (pb_dec_string e field dest)"
proof (rule stream.obeysI)
  fix s h ok s' h'
  assume r: "pb_dec_string e field dest (s, h) = Some (ok, s', h')"
  obtain v t where v: "pb_decode_varint32 e s = (v, t)" by fastforce
  then have adv: "is_adv s t" by (rule pb_decode_varint32_adv)
  have rd: "is_adv s u \<Longrightarrow> pb_read_mem e p n (u, k) = Some (ok, s', k') \<Longrightarrow> moves ok s s'" for u p n k k'
    by (blast intro: moves_trans stream_map_heap [OF stream_read_mem])
  have al: "allocate_field e dest n 1 (t, h) = Some (b, u, k) \<Longrightarrow> moves b s u" for n b u k
    by (blast intro: moves_trans adv stream_map_heap [OF stream_allocate_field])
  show "stream_rel ok (s, h) (s', h')"
    using r v adv
    by (auto simp: pb_dec_string_def Let_def moves_adv moves_True split: option.splits if_splits
        intro: stream_error rd elim!: and_then_SomeE dest!: al)
qed

lemma stream_PB_DECODERS:
  assumes sub: "\<And>init fs d. stream.obeys (dec init fs d)"
  shows "stream.obeys (PB_DECODERS dec e field dest)"
proof -
  note decs = stream.obeys_pb_dec_bool stream.obeys_int_decoders stream.obeys_pb_dec_fixed
    stream_pb_dec_bytes stream_pb_dec_string stream.obeys_pb_dec_fixed_length_bytes
    stream.obeys_pb_dec_submessage sub
  have "stream.obeys (\<lambda>x. PB_DECODERS dec e field dest x)"
    unfolding PB_DECODERS_def Let_def
    by (intro stream.obeys_if) (auto intro: decs simp: stream.obeys_def [of "\<lambda>x. None"])
  then show ?thesis by simp
qed

subsection \<open>Pointer fields\<close>

lemma stream_decode_new_item:
  assumes "\<And>p. stream.obeys (func p)"
  shows "stream.obeys (decode_new_item n e func field p)"
  by (rule stream.obeysI) (auto simp: decode_new_item_def split: option.splits
      dest: stream_map_heap [OF assms])

lemma stream_packed_pointer_loop:
  assumes f: "\<And>p. stream.obeys (func p)"
  shows "packed_pointer_loop k n e func it allocated s (sub, h) = Some (s', status, sub', h') \<Longrightarrow>
    moves status sub sub' \<and> (\<exists>m. s' = s\<lparr>is_errmsg := m\<rparr>)"
proof (induction k arbitrary: allocated s sub h)
  case (Suc k)
  define count where "count = load_size h (pSize it)"
  define grow where "grow = (allocated < ucast count + 1)"
  define alloc where
    "alloc = (if grow then grow_alloc (it_field it) (is_bytes_left sub) allocated else allocated)"
  define item where "item = and_then
    (if grow then allocate_field e (pData it) (ucast (data_size (it_field it))) alloc (sub, h)
     else Some (True, (sub, h)))
    (\<lambda>(sub, h). decode_new_item n e func (it_field it)
       (item_addr (load64 h (pData it)) (it_field it) (load_size h (pSize it))) (sub, h))"
  have same: "\<exists>m. s = s\<lparr>is_errmsg := m\<rparr>" by (rule exI [of _ "is_errmsg s"]) simp
  show ?case
  proof (cases "is_bytes_left sub = 0 \<or> count = PB_SIZE_MAX \<or> data_size (it_field it) = 0 \<and> grow")
    case True
    with Suc.prems same show ?thesis
      by (auto simp: Let_def count_def grow_def split: if_splits)
  next
    case False
    then have "packed_pointer_loop (Suc k) n e func it allocated s (sub, h) = (case item of
        None \<Rightarrow> None
      | Some (b, sub1, h1) \<Rightarrow>
          if b then packed_pointer_loop k n e func it alloc s
            (sub1, store_size (pSize it) (load_size h1 (pSize it) + 1) h1)
          else Some (s, False, (sub1, h1)))"
      unfolding item_def alloc_def grow_def count_def packed_pointer_loop.simps Let_def prod.case
      by (simp only: if_False de_Morgan_disj de_Morgan_conj simp_thms) auto
    with Suc.prems obtain b sub1 h1 where i: "item = Some (b, sub1, h1)"
      and r: "(if b then packed_pointer_loop k n e func it alloc s
          (sub1, store_size (pSize it) (load_size h1 (pSize it) + 1) h1)
        else Some (s, False, (sub1, h1))) = Some (s', status, sub', h')"
      by (auto split: option.splits)
    have "moves b sub sub1"
      using i unfolding item_def
      by (auto elim!: and_then_SomeE split: if_splits simp: moves_True
          dest!: stream_map_heap [OF stream_allocate_field] stream_map_heap [OF stream_decode_new_item [OF f]]
          intro: moves_trans)
    with r same Suc.IH [of alloc s sub1] show ?thesis
      by (auto split: if_splits simp: moves_True intro: moves_trans)
  qed
qed simp

lemma close_errmsg:
  assumes "pb_close_string_substream e (s\<lparr>is_errmsg := m\<rparr>) sub = (ok, s2)"
  obtains m' where "pb_close_string_substream e s sub = (ok, s2\<lparr>is_errmsg := m'\<rparr>)"
proof
  show "pb_close_string_substream e s sub
      = (ok, s2\<lparr>is_errmsg := if ok then is_errmsg s2 else is_errmsg s\<rparr>)"
    using assms
    by (cases s) (auto simp: pb_close_string_substream_def split: prod.splits if_splits)
qed

lemma is_adv_errmsg [simp]: "is_adv s (t\<lparr>is_errmsg := m\<rparr>) = is_adv s t"
  and is_mov_errmsg [simp]: "is_mov s (t\<lparr>is_errmsg := m\<rparr>) = is_mov s t"
  by (auto simp: is_adv_def is_mov_def is_ok_def split: is_source.split)

lemma stream_decode_packed_pointer:
  assumes f: "\<And>p. stream.obeys (func p)"
  shows "stream.obeys (decode_packed_pointer n e func it)"
proof (rule stream.obeysI)
  fix s h ok s' h'
  assume r: "decode_packed_pointer n e func it (s, h) = Some (ok, s', h')"
  obtain v s1 where m: "pb_make_string_substream e s = (v, s1)" by fastforce
  show "stream_rel ok (s, h) (s', h')"
  proof (cases v)
    case None
    with r m show ?thesis
      by (auto simp: decode_packed_pointer_def dest!: make_substream_None intro: moves_adv)
  next
    case (Some sub)
    let ?loop = "packed_pointer_loop (Suc (unat (is_bytes_left sub))) n e func it
      (ucast (load_size h (pSize it))) s1 (sub, h)"
    obtain s2 status sub' h1 c s3 where l: "?loop = Some (s2, status, sub', h1)"
      and c: "pb_close_string_substream e s2 sub' = (c, s3)"
      and eq: "ok = (c \<and> status)" "s' = s3"
      using r m Some
      by (auto simp: decode_packed_pointer_def simp del: packed_pointer_loop.simps
          split: option.splits prod.splits)
    from stream_packed_pointer_loop [where func = func, OF f l] obtain msg
      where mv: "moves status sub sub'" and s2: "s2 = s1\<lparr>is_errmsg := msg\<rparr>" by blast
    from close_errmsg [OF c [unfolded s2]] obtain msg'
      where "pb_close_string_substream e s1 sub' = (c, s3\<lparr>is_errmsg := msg'\<rparr>)" .
    from substream_closed [OF m [unfolded Some] mv this] show ?thesis
      by (simp add: eq moves_def)
  qed
qed

lemma stream_decode_pointer_field:
  assumes dec: "\<And>init fs d. stream.obeys (dec init fs d)"
  shows "stream.obeys (decode_pointer_field dec n e wt it)"
proof -
  let ?field = "it_field it" let ?func = "PB_DECODERS dec e ?field"
  have f: "stream.obeys (?func p)" for p by (rule stream_PB_DECODERS [OF dec])
  have item: "stream.obeys (decode_new_item n e ?func ?field p)" for p
    by (rule stream_decode_new_item [OF f])
  have alloc: "and_then (allocate_field e p k c (s, h)) g = Some (ok, s', h') \<Longrightarrow>
      (\<And>s h. g (s, h) = Some (ok, s', h') \<Longrightarrow> moves ok s s') \<Longrightarrow> moves ok s s'"
    for p k c s h g ok s' h'
    by (auto elim!: and_then_SomeE intro: moves_seq
        dest!: stream_map_heap [OF stream_allocate_field])
  have packed: "stream.obeys (decode_packed_pointer n e ?func it)"
    by (rule stream_decode_packed_pointer [OF f])
  show ?thesis
  proof (rule stream.obeysI)
    fix s h ok s' h'
    assume "decode_pointer_field dec n e wt it (s, h) = Some (ok, s', h')"
    then have "moves ok s s'"
      unfolding decode_pointer_field_def Let_def prod.case
      by (auto split: if_splits option.splits intro: stream_error
          elim!: alloc dest: stream_map_heap [OF f] stream_map_heap [OF item] stream_map_heap [OF packed])
    then show "stream_rel ok (s, h) (s', h')" by simp
  qed
qed

subsection \<open>Callbacks\<close>

text \<open>What \<open>pb_decode.h\<close> asks of the application: a field decoder or extension decoder reads its
  stream only with the library's functions.\<close>

definition callbacks_read :: "'u env \<Rightarrow> bool" where
  "callbacks_read e \<longleftrightarrow>
     (\<forall>f s field p h ok s' h'. e_dec_cb e f s field p h = (ok, s', h') \<longrightarrow> moves ok s s')
     \<and> (\<forall>f s x t wt h ok s' h'. e_ext_dec e f s x t wt h = (ok, s', h') \<longrightarrow> moves ok s s')"

lemma stream_call_decoder:
  "callbacks_read e \<Longrightarrow> call_decoder e f field p (s, h) = (ok, s', h') \<Longrightarrow> moves ok s s'"
  by (cases "e_dec_cb e f s field p h") (simp add: callbacks_read_def call_decoder_def, blast)

lemma stream_callback_loop:
  assumes cb: "callbacks_read e"
  shows "callback_loop k e it (sub, h) = Some (ok, sub', h') \<Longrightarrow> moves ok sub sub'"
proof (induction k arbitrary: sub h)
  case (Suc k)
  obtain b s1 h1 where c: "call_decoder e (callback_func h (pData it)) (it_field it)
      (callback_arg (pData it)) (sub, h) = (b, s1, h1)"
    by (metis prod.exhaust)
  from stream_call_decoder [OF cb c] Suc.prems Suc.IH [of s1 h1] show ?case
    by (auto simp: c split: if_splits intro: moves_seq)
qed simp

lemma is_mov_inherit:
  "is_mov s t \<Longrightarrow> (is_ok s \<Longrightarrow> \<not> is_fault sub) \<Longrightarrow> is_mov s (inherit_fault sub t)"
  by (auto simp: is_mov_def split: is_source.splits)

lemma is_adv_inherit:
  "is_adv s t \<Longrightarrow> \<not> is_fault sub \<Longrightarrow> is_adv s (inherit_fault sub t)"
  by (auto simp: is_adv_def is_ok_def split: is_source.splits)

lemma stream_call_ext_decoder:
  "callbacks_read e \<Longrightarrow> call_ext_decoder e f x t wt (s, h) = (ok, s', h') \<Longrightarrow> moves ok s s'"
  by (cases "e_ext_dec e f s x t wt h") (simp add: callbacks_read_def call_ext_decoder_def, blast)

lemma stream_decode_callback_field:
  assumes cb: "callbacks_read e"
  shows "stream.obeys (decode_callback_field n e wt it)"
proof (rule stream.obeysI)
  fix s h ok s' h'
  assume r: "decode_callback_field n e wt it (s, h) = Some (ok, s', h')"
  let ?p = "pData it"
  show "stream_rel ok (s, h) (s', h')"
  proof (cases "?p = 0 \<or> callback_func h ?p = 0")
    case True
    with r show ?thesis
      by (auto simp: decode_callback_field_def moves_adv dest!: pb_skip_field_adv split: prod.splits)
  next
    case call: False
    show ?thesis
    proof (cases "wt = PB_WT_STRING")
      case True
      obtain v s1 where m: "pb_make_string_substream e s = (v, s1)" by fastforce
      show ?thesis
      proof (cases v)
        case None
        with r m call True show ?thesis
          by (auto simp: decode_callback_field_def moves_adv dest!: make_substream_None)
      next
        case (Some sub)
        then obtain b sub' h1 where l: "callback_loop n e it (sub, h) = Some (b, sub', h1)"
          and r': "(if b then case pb_close_string_substream e s1 sub' of
                (ok', s'') \<Rightarrow> Some (ok', (s'', h1))
              else dec_error ''callback failed'' (inherit_fault sub' s1, h1)) = Some (ok, s', h')"
          using r m call True
          by (auto simp: decode_callback_field_def split: option.splits if_splits)
        have mv: "moves b sub sub'" by (rule stream_callback_loop [OF cb l])
        show ?thesis
        proof (cases b)
          case True
          with r' substream_closed [OF m [unfolded Some] mv] show ?thesis
            by (auto split: prod.splits)
        next
          case False
          with r' substream_dropped [OF m [unfolded Some]] mv show ?thesis
            by (auto simp: dec_error_def moves_def)
        qed
      qed
    next
      case False
      obtain v s1 where v: "read_raw_value e wt 10 s = (v, s1)" by fastforce
      then have adv: "is_adv s s1" by (rule read_raw_value_adv)
      show ?thesis
      proof (cases v)
        case None
        with r v call False adv show ?thesis by (auto simp: decode_callback_field_def moves_adv)
      next
        case (Some buf)
        let ?sub = "pb_istream_from_buffer buf (of_nat (length buf)) :: 'a istream"
        obtain b sub h1 where c: "call_decoder e (callback_func h ?p) (it_field it)
            (callback_arg ?p) (?sub, h) = (b, sub, h1)"
          by (metis prod.exhaust)
        have "is_ok ?sub"
          using take_bit_nat_less_eq_self [of 64 "length buf"]
          by (simp add: is_ok_def pb_istream_from_buffer_def unat_of_nat)
        with stream_call_decoder [OF cb c] have "\<not> is_fault sub"
          by (simp add: moves_def is_mov_def)
        with adv have "is_adv s (inherit_fault sub s1)" by (rule is_adv_inherit)
        with r v call False Some c show ?thesis
          by (auto simp: decode_callback_field_def moves_adv)
      qed
    qed
  qed
qed

subsection \<open>Fields, extensions, messages\<close>

lemma stream_release_union_field:
  "pb_release_union_field n e it (s, h) = Some (ok, it', s', h') \<Longrightarrow> is_adv s s'"
  by (auto simp: pb_release_union_field_def Let_def split: if_splits option.splits)

lemma stream_decode_field:
  assumes dec: "\<And>init fs d. stream.obeys (dec init fs d)" and cb: "callbacks_read e"
  shows "stream.obeys_field (decode_field dec n e wt it)"
proof -
  have static: "stream.obeys (decode_static_field dec n e wt it)" for it
    by (rule stream.obeys_decode_static_field)
      (auto simp: stream.static_ok_def stream.slot_writable_def Let_def
        intro: stream_PB_DECODERS [OF dec] split: slot.splits)
  show ?thesis
    unfolding stream.obeys_field_def
  proof (intro allI impI conjI TrueI)
    fix x ok it' y
    assume r: "decode_field dec n e wt it x = Some (ok, it', y)"
    define rel where "rel = (if PB_HTYPE (ftype (it_field it)) = PB_HTYPE_ONEOF
      then pb_release_union_field n e it x else Some (True, it, x))"
    obtain b it1 x1 where rel1: "rel = Some (b, it1, x1)"
      using r by (auto simp: decode_field_def rel_def [symmetric] split: option.splits)
    then have adv: "is_adv (fst x) (fst x1)"
      unfolding rel_def
      by (cases x; cases x1) (auto split: if_splits dest: stream_release_union_field)
    let ?a = "PB_ATYPE (ftype (it_field it1))"
    let ?body = "if ?a = PB_ATYPE_STATIC then decode_static_field dec n e wt it1 x1
      else if ?a = PB_ATYPE_POINTER then decode_pointer_field dec n e wt it1 x1
      else if ?a = PB_ATYPE_CALLBACK then decode_callback_field n e wt it1 x1
      else dec_error ''invalid field type'' x1"
    have eq: "(if \<not> b then Some (False, it1, x1)
        else map_option (\<lambda>(ok, sh). (ok, it1, sh)) ?body) = Some (ok, it', y)"
      using r rel1 unfolding decode_field_def rel_def [symmetric] Let_def
      by (simp only: option.case prod.case)
    show "stream_rel ok x y"
    proof (cases b)
      case False
      with eq adv show ?thesis by (auto simp: stream_rel_def moves_adv)
    next
      case True
      with eq have "?body = Some (ok, y)" by auto
      then have "stream_rel ok x1 y"
        by (auto split: if_splits dest: stream.obeysD [OF static]
            stream.obeysD [OF stream_decode_pointer_field [where dec = dec, OF dec]]
            stream.obeysD [OF stream_decode_callback_field [OF cb]]
            stream.obeysD [OF stream.obeys_error])
      with adv show ?thesis by (auto simp: stream_rel_def intro: moves_trans)
    qed
  qed
qed

lemma stream_extension_dec_loop:
  assumes dec: "\<And>init fs d. stream.obeys (dec init fs d)" and cb: "callbacks_read e"
  shows "extension_dec_loop k dec n e t wt pos ext (s, h) = Some (ok, s', h') \<Longrightarrow> moves ok s s'"
proof (induction k arbitrary: ext s h)
  case (Suc k)
  have def: "default_extension_decoder dec n e ext t wt (s, h) = Some (b, s1, h1) \<Longrightarrow> moves b s s1"
    for b s1 h1
    using stream_decode_field [of dec e n wt, OF dec cb]
    by (auto simp: default_extension_decoder_def stream.obeys_field_def moves_adv split: if_splits)
       (force simp: stream_rel_def)
  have ext: "Some (call_ext_decoder e f ext t wt (s, h)) = Some (b, s1, h1) \<Longrightarrow> moves b s s1"
    for f b s1 h1
    by (auto dest: stream_call_ext_decoder [OF cb])
  show ?case
  proof (cases "ext \<noteq> 0 \<and> pos = is_bytes_left s")
    case False
    with Suc.prems show ?thesis by (simp add: moves_adv split: if_splits)
  next
    case True
    let ?f = "ext_type_decode h (ext_type h ext)"
    let ?first = "if ?f \<noteq> 0 then Some (call_ext_decoder e ?f ext t wt (s, h))
      else default_extension_decoder dec n e ext t wt (s, h)"
    have f: "?first = Some (b, s1, h1) \<Longrightarrow> moves b s s1" for b s1 h1
      using def ext by (metis (no_types))
    from Suc.prems True have "and_then ?first
        (\<lambda>(s, h). extension_dec_loop k dec n e t wt pos (ext_next h ext) (s, h)) = Some (ok, s', h')"
      by simp
    then show ?thesis
    proof (cases rule: and_then_SomeE)
      case fail
      from f [OF fail(1)] fail(2) show ?thesis by simp
    next
      case (ok x)
      then obtain s1 h1 where "x = (s1, h1)" by (cases x) auto
      with ok have "?first = Some (True, s1, h1)"
        "extension_dec_loop k dec n e t wt pos (ext_next h1 ext) (s1, h1) = Some (ok, s', h')"
        by simp_all
      from moves_seq [OF f [OF this(1)] Suc.IH [OF this(2)]] show ?thesis .
    qed
  qed
qed simp

lemma stream_fields_ok:
  assumes dec: "\<And>init fs d. stream.obeys (dec init fs d)" and cb: "callbacks_read e"
  shows "stream.fields_ok dec n e"
  using stream_decode_field [OF dec cb] stream_extension_dec_loop [where dec = dec, OF dec cb]
  by (auto simp: stream.fields_ok_def stream.obeys_def decode_extension_def)

lemma stream_decode_with_init:
  assumes "stream.obeys noinit"
  shows "stream.obeys (decode_with_init noinit n e fs d)"
  by (rule stream.obeysI) (auto simp: decode_with_init_def split: option.splits if_splits
      dest: stream_map_heap [OF assms])

theorem stream_pb_decode_noinit:
  assumes cb: "callbacks_read e"
  shows "stream.obeys (pb_decode_noinit n e fs d)"
proof (induction n arbitrary: fs d)
  case 0
  show ?case by (simp add: stream.obeys_def)
next
  case (Suc n)
  have dec: "stream.obeys ((\<lambda>init fs d sh.
      if init then decode_with_init (pb_decode_noinit n e fs d) n e fs d sh
      else pb_decode_noinit n e fs d sh) init fs d)" for init fs d
    using Suc.IH stream_decode_with_init [OF Suc.IH] by (cases init) simp_all
  have "stream.obeys (\<lambda>sh. pb_decode_noinit (Suc n) e fs d sh)"
    unfolding pb_decode_noinit.simps
    by (rule stream.obeys_decode_body [OF stream_fields_ok [OF dec cb] TrueI])
  then show ?case by simp
qed

theorem stream_pb_decode:
  assumes "callbacks_read e"
  shows "stream.obeys (pb_decode n e fs d)"
  using stream_decode_with_init [OF stream_pb_decode_noinit [OF assms]]
  by (simp add: pb_decode_def [abs_def] stream.obeys_def)

subsection \<open>Properties\<close>

lemma callbacks_read_plain: "callbacks_read plain_env"
  by (simp add: callbacks_read_def plain_env_def)

lemma demo_decodable: "decodable_within False 1 plain_env demo_fields"
  by code_simp

text \<open>C3: input safety, for callbacks and extension decoders that read their stream only with the library's
  functions. Whatever the input bytes, the descriptor, the contents of memory and the allocator, a call of
  \<open>pb_decode\<close> on a buffer that returns has not read past the given size: it did not fault, the buffer pointer
  is still within the buffer, and if the result is true it has moved by exactly the number of bytes taken
  off \<open>bytes_left\<close>. And the call does return, given fuel for the nesting of the submessages and one round
  for each byte of the input, if the descriptor is not recursive, every field type has a decoder, no field
  is an extension range, and each call of a callback uses up some of the field's bytes or fails.\<close>

theorem pb_decode_stays_in_buffer:
  assumes "callbacks_read e" and "unat bufsize \<le> length buf"
  shows "(\<forall>ok s' h'. pb_decode n e fs d (pb_istream_from_buffer buf bufsize, h) = Some (ok, s', h') \<longrightarrow>
       \<not> is_fault s' \<and> unat (is_bytes_left s') \<le> unat bufsize
       \<and> (\<exists>k \<le> unat bufsize - unat (is_bytes_left s'). is_src s' = Buf_read (drop k buf)
            \<and> (ok \<longrightarrow> drop k buf = drop (unat bufsize - unat (is_bytes_left s')) buf)))
     \<and> (decodable_within cb l e fs \<and> (cb \<longrightarrow> callbacks_progress e) \<and> l + unat bufsize < n \<longrightarrow>
         (\<exists>ok s' h'. pb_decode n e fs d (pb_istream_from_buffer buf bufsize, h) = Some (ok, s', h')))"
proof (intro conjI allI impI)
  let ?s = "pb_istream_from_buffer buf bufsize"
  fix ok s' h'
  assume r: "pb_decode n e fs d (?s, h) = Some (ok, s', h')"
  have "is_ok ?s" using assms(2) by (simp add: is_ok_def pb_istream_from_buffer_def)
  moreover have "moves ok ?s s'" by (rule stream_map_heap [OF stream_pb_decode [OF assms(1)] r])
  ultimately show "\<not> is_fault s'" "unat (is_bytes_left s') \<le> unat bufsize"
    "\<exists>k \<le> unat bufsize - unat (is_bytes_left s'). is_src s' = Buf_read (drop k buf)
       \<and> (ok \<longrightarrow> drop k buf = drop (unat bufsize - unat (is_bytes_left s')) buf)"
    by (auto simp: moves_def is_mov_def is_adv_def pb_istream_from_buffer_def)
next
  assume a: "decodable_within cb l e fs \<and> (cb \<longrightarrow> callbacks_progress e) \<and> l + unat bufsize < n"
  have "falls (pb_istream_from_buffer buf bufsize) (pb_decode n e fs d (pb_istream_from_buffer buf bufsize, h))"
    by (rule falls_pb_decode [of cb _ l]) (use a in \<open>auto simp: pb_istream_from_buffer_def\<close>)
  then show "\<exists>ok s' h'. pb_decode n e fs d (pb_istream_from_buffer buf bufsize, h) = Some (ok, s', h')"
    by (auto simp: falls_def)
qed

theorem pb_decode_stays_in_buffer_witness:
  "\<exists>ok s' h'. pb_decode 8 plain_env demo_fields 0x2000
       (pb_istream_from_buffer demo_bytes 6, demo_heap) = Some (ok, s', h')
     \<and> \<not> is_fault s' \<and> unat (is_bytes_left s') \<le> 6"
proof -
  have "unat (6 :: csize) \<le> length demo_bytes" by (simp add: demo_bytes_def)
  note safe = pb_decode_stays_in_buffer [OF callbacks_read_plain this,
    where n = 8 and fs = demo_fields and d = "0x2000" and h = demo_heap and cb = False and l = 1]
  have "\<exists>ok s' h'. pb_decode 8 plain_env demo_fields 0x2000
      (pb_istream_from_buffer demo_bytes 6, demo_heap) = Some (ok, s', h')"
    using safe demo_decodable by simp
  with safe show ?thesis by fastforce
qed

end
