(* ===== verification/Pb_Mem_Safety.thy ===== *)
theory Pb_Mem_Safety imports Pb_Decode_Total begin

text \<open>
  The decoder and the memory of a message whose fields are all allocated statically. \<open>fits_in\<close>
  computes, from the descriptor alone, that each member lies inside a structure of a given size and
  has a type with a decoder; then \<open>pb_decode\<close> returns and writes nowhere else, whatever bytes come in.
\<close>

subsection \<open>Descriptors that fit a structure\<close>

definition member_fits ::
  "(pb_field list \<Rightarrow> nat \<Rightarrow> bool) \<Rightarrow> 'u env \<Rightarrow> pb_field list \<Rightarrow> nat \<Rightarrow> nat \<Rightarrow> bool" where
  "member_fits sub e fs sz k =
     (let f = field_at fs k; t = ftype f; n = unat (data_size f);
          off = unat (struct_offset fs k); soff = unat (struct_size_offset fs k) in
      PB_ATYPE t = PB_ATYPE_STATIC \<and> PB_LTYPE t \<le> PB_LTYPE_FIXED_LENGTH_BYTES
      \<and> PB_LTYPE t \<noteq> PB_LTYPE_EXTENSION
      \<and> (if PB_HTYPE t = PB_HTYPE_REPEATED
         then off + n * unat (array_size f) \<le> sz \<and> value_bytes f \<le> n
         else off + n \<le> sz \<and> off + value_bytes f \<le> sz)
      \<and> (PB_HTYPE t = PB_HTYPE_OPTIONAL \<and> struct_size_offset fs k \<noteq> struct_offset fs k
         \<longrightarrow> soff + 1 \<le> sz)
      \<and> (PB_HTYPE t = PB_HTYPE_REPEATED \<or> PB_HTYPE t = PB_HTYPE_ONEOF \<longrightarrow> soff + 4 \<le> sz)
      \<and> (PB_LTYPE t = PB_LTYPE_SUBMESSAGE \<longrightarrow> sub (e_fields e (fptr f)) n))"

text \<open>The first number bounds the nesting of submessages. An empty descriptor is checked at its
  terminator, which a wire tag of zero can select.\<close>

primrec fits_in :: "nat \<Rightarrow> 'u env \<Rightarrow> pb_field list \<Rightarrow> nat \<Rightarrow> bool" where
  "fits_in 0 e fs sz = False"
| "fits_in (Suc l) e fs sz =
     (int sz < 2 ^ 32
      \<and> (n_fields fs = 0 \<longrightarrow> PB_HTYPE (ftype (field_at fs 0)) \<noteq> PB_HTYPE_REPEATED)
      \<and> list_all (member_fits (fits_in l e) e fs sz) [0..<max 1 (n_fields fs)])"

subsection \<open>The relation\<close>

definition mem_rel :: "ptr set \<Rightarrow> bool \<Rightarrow> 'u dec_state \<Rightarrow> 'u dec_state \<Rightarrow> bool" where
  "mem_rel W ok x y \<longleftrightarrow> frame W (snd x) (snd y)"

interpretation mem: dec_loop_rel "mem_rel W" "\<lambda>p n. region p n \<subseteq> W" "at_field fs d" for W fs d
proof unfold_locales
  fix p :: ptr and n k m :: nat
  assume "region p n \<subseteq> W" "k + m \<le> n" "n \<le> 2 ^ 64"
  then show "region (p + of_nat k) m \<subseteq> W" using region_offset [of k m n p] by auto
next
  fix ok x s h p n and bs :: "byte list"
  assume "mem_rel W ok x (s, h)" "region p n \<subseteq> W" "length bs \<le> n"
  then show "mem_rel W ok x (s, store_bytes p bs h)"
    using region_mono [of "length bs" n p]
    by (auto simp: mem_rel_def intro!: frame_store_bytes_step)
next
  fix it P b it'
  show "at_field fs d it \<Longrightarrow> iter_search P it = Some (b, it') \<Longrightarrow> at_field fs d it'"
    by (rule at_field_search)
next
  fix it
  show "at_field fs d it \<Longrightarrow> PB_HTYPE (ftype (it_field it)) = PB_HTYPE_REPEATED
      \<Longrightarrow> pSize it = Slot (pData it) \<Longrightarrow> at_field fs d (it\<lparr>pSize := Local_slot\<rparr>)"
    by (rule at_field_local)
qed (auto simp: mem_rel_def intro: frame_trans)

subsection \<open>Members inside the structure\<close>

lemma iter_at_pointers:
  assumes "iter_at fs d k it"
  shows "pData it = d + struct_offset fs k"
    and "pSize it = Slot (d + struct_size_offset fs k) \<or> pSize it = Local_slot"
proof -
  have "pData (iter_nth fs d k) = d + struct_offset fs k
      \<and> pSize (iter_nth fs d k) = Slot (d + struct_size_offset fs k)"
  proof (cases "k < n_fields fs")
    case True
    then show ?thesis by (rule iter_nth_pointers)
  next
    case False
    with assms have "k = 0" by (simp add: iter_at_def)
    then show ?thesis by (simp add: iter_nth.simps pb_field_iter_begin_def Let_def add.assoc)
  qed
  with assms show "pData it = d + struct_offset fs k"
    "pSize it = Slot (d + struct_size_offset fs k) \<or> pSize it = Local_slot"
    by (auto simp: iter_at_def)
qed

lemma ucast_of_nat_unat: "(ucast (w :: u32) :: ptr) = of_nat (unat w)"
  by (simp add: of_nat_unat)

lemma region_member:
  assumes "unat off + n \<le> sz" and "sz < 2 ^ 32" and "region d sz \<subseteq> W"
  shows "region (d + off) n \<subseteq> W"
  using region_offset [of "unat off" n sz d] assms by auto

lemma fits_member:
  assumes "fits_in (Suc l) e fs sz" and "k < max 1 (n_fields fs)"
  shows "member_fits (fits_in l e) e fs sz k" and "sz < 2 ^ 32"
proof -
  show "member_fits (fits_in l e) e fs sz k" using assms by (auto simp: list_all_iff)
  have "int sz < int (2 ^ 32)" using assms(1) by simp
  then show "sz < 2 ^ 32" by (simp only: of_nat_less_iff)
qed

text \<open>What a member of a structure inside \<open>W\<close> may write.\<close>

lemma member_regions:
  assumes m: "member_fits sub e fs sz k" and sz: "sz < 2 ^ 32" and W: "region d sz \<subseteq> W"
    and it: "iter_at fs d k it" and f: "f = field_at fs k" and t: "t = ftype f"
  shows "PB_HTYPE t \<noteq> PB_HTYPE_REPEATED \<Longrightarrow> region (pData it) (value_bytes f) \<subseteq> W"
    and "PB_HTYPE t \<noteq> PB_HTYPE_REPEATED \<Longrightarrow> region (pData it) (unat (data_size f)) \<subseteq> W"
    and "PB_HTYPE t = PB_HTYPE_REPEATED \<Longrightarrow> n < array_size f
      \<Longrightarrow> region (item_addr (pData it) f n) (unat (data_size f)) \<subseteq> W"
    and "PB_HTYPE t = PB_HTYPE_OPTIONAL \<Longrightarrow> pSize it \<noteq> Slot (pData it)
      \<Longrightarrow> mem.slot_writable W (pSize it) 1"
    and "PB_HTYPE t = PB_HTYPE_REPEATED \<or> PB_HTYPE t = PB_HTYPE_ONEOF
      \<Longrightarrow> mem.slot_writable W (pSize it) 4"
proof -
  note ptrs = iter_at_pointers [OF it]
  note reg = region_member [OF _ sz W]
  show "PB_HTYPE t \<noteq> PB_HTYPE_REPEATED \<Longrightarrow> region (pData it) (value_bytes f) \<subseteq> W"
    "PB_HTYPE t \<noteq> PB_HTYPE_REPEATED \<Longrightarrow> region (pData it) (unat (data_size f)) \<subseteq> W"
    using m unfolding ptrs(1) by (auto simp: member_fits_def Let_def f t intro!: reg)
  show "PB_HTYPE t = PB_HTYPE_OPTIONAL \<Longrightarrow> pSize it \<noteq> Slot (pData it)
      \<Longrightarrow> mem.slot_writable W (pSize it) 1"
    "PB_HTYPE t = PB_HTYPE_REPEATED \<or> PB_HTYPE t = PB_HTYPE_ONEOF
      \<Longrightarrow> mem.slot_writable W (pSize it) 4"
    using m ptrs
    by (auto simp: member_fits_def Let_def f t mem.slot_writable_def intro!: reg)
  show "region (item_addr (pData it) f n) (unat (data_size f)) \<subseteq> W"
    if rep: "PB_HTYPE t = PB_HTYPE_REPEATED" and n: "n < array_size f"
  proof -
    have tot: "unat (struct_offset fs k) + unat (data_size f) * unat (array_size f) \<le> sz"
      using m rep by (simp add: member_fits_def Let_def f t)
    have "unat n + 1 \<le> unat (array_size f)" using n by (simp add: word_less_nat_alt)
    then have "unat (data_size f) * (unat n + 1) \<le> unat (data_size f) * unat (array_size f)"
      by (rule mult_le_mono2)
    with tot have le: "unat (struct_offset fs k) + unat (data_size f) * unat n + unat (data_size f) \<le> sz"
      by simp
    with sz have "unat (data_size f) * unat n < 2 ^ 32" by linarith
    then have "unat (data_size f * n) = unat (data_size f) * unat n"
      by (simp add: unat_mult_lem [symmetric])
    then have "ucast (data_size f * n) = (of_nat (unat (data_size f) * unat n) :: ptr)"
      by (simp only: ucast_of_nat_unat)
    then have item: "item_addr (pData it) f n
        = d + of_nat (unat (struct_offset fs k) + unat (data_size f) * unat n)"
      unfolding item_addr_def ptrs(1) by (simp add: add.assoc)
    show ?thesis
      unfolding item using region_offset [OF le, of d] sz W by auto
  qed
qed

subsection \<open>Defaults and release\<close>

lemma frame_store_has: "mem.slot_writable W sl 1 \<Longrightarrow> frame W h (store_has sl b h)"
  using mem.R_store_has [where ok = True, OF mem.R_refl] by (simp add: mem_rel_def)

lemma frame_store_size: "mem.slot_writable W sl 4 \<Longrightarrow> frame W h (store_size sl v h)"
  using mem.R_store_size [where ok = True, OF mem.R_refl] by (simp add: mem_rel_def)

lemma frame_mem_zero: "region p n \<subseteq> W \<Longrightarrow> frame W h (mem_zero p n h)"
  and frame_mem_copy: "region p n \<subseteq> W \<Longrightarrow> frame W h (mem_copy p q n h)"
  by (simp_all add: mem_zero_def mem_copy_def frame_store_bytes)

lemma mem_set_to_defaults_field:
  assumes "fits_in l e fs sz" and "region d sz \<subseteq> W" and "k < n_fields fs"
    and "pb_field_set_to_default n e (iter_nth fs d k) h = Some h'"
  shows "frame W h h'"
  using assms
proof (induction n arbitrary: l fs sz d k h h')
  case (Suc n)
  then obtain l' where l: "l = Suc l'" by (cases l) auto
  have k: "k < max 1 (n_fields fs)" using Suc.prems(3) by simp
  note m = fits_member [OF Suc.prems(1) [unfolded l] k]
  have it: "iter_at fs d k (iter_nth fs d k)" using Suc.prems(3) by simp
  define f where "f = field_at fs k"
  define p where "p = pData (iter_nth fs d k)"
  note regs = member_regions [OF m Suc.prems(2) it refl refl, folded f_def p_def]
  have fld: "it_field (iter_nth fs d k) = f" using Suc.prems(3) by (simp add: f_def)
  have static: "PB_ATYPE (ftype f) = PB_ATYPE_STATIC" "PB_LTYPE (ftype f) \<noteq> PB_LTYPE_EXTENSION"
    and sub: "PB_LTYPE (ftype f) = PB_LTYPE_SUBMESSAGE \<Longrightarrow>
      fits_in l' e (e_fields e (fptr f)) (unat (data_size f))"
    using m(1) by (simp_all add: member_fits_def Let_def f_def)
  have msg: "frame W h1 h2"
    if "each_field (pb_field_set_to_default n e) (e_fields e (fptr f)) p h1 = Some h2"
      "PB_LTYPE (ftype f) = PB_LTYPE_SUBMESSAGE" "PB_HTYPE (ftype f) \<noteq> PB_HTYPE_REPEATED" for h1 h2
    by (rule each_field_rel [OF _ _ _ that(1)])
      (use Suc.IH [OF sub [OF that(2)] regs(2) [OF that(3)]] in \<open>auto intro: frame_trans\<close>)
  show ?case
  proof -
    let ?t = "ftype f" let ?s = "pSize (iter_nth fs d k)"
    define opt where "opt = (PB_HTYPE ?t = PB_HTYPE_OPTIONAL \<and> ?s \<noteq> Slot p)"
    define cnt where "cnt = (PB_HTYPE ?t = PB_HTYPE_REPEATED \<or> PB_HTYPE ?t = PB_HTYPE_ONEOF)"
    define h1 where "h1 = (if opt then store_has ?s False h else if cnt then store_size ?s 0 h else h)"
    have h1: "frame W h h1"
      using regs(4,5) by (auto simp: h1_def opt_def cnt_def intro: frame_store_has frame_store_size)
    have eq: "(if \<not> opt \<and> cnt then Some h1
        else if PB_LTYPE ?t = PB_LTYPE_SUBMESSAGE
        then each_field (pb_field_set_to_default n e) (e_fields e (fptr f)) p h1
        else if fptr f \<noteq> 0 then Some (mem_copy p (fptr f) (unat (data_size f)) h1)
        else Some (mem_zero p (unat (data_size f)) h1)) = Some h'"
      using Suc.prems(4) static
      unfolding pb_field_set_to_default.simps set_default_body_def Let_def fld p_def [symmetric]
        h1_def opt_def cnt_def
      by simp
    show ?thesis
    proof (cases "\<not> opt \<and> cnt")
      case True
      with eq h1 show ?thesis by auto
    next
      case False
      then have rep: "PB_HTYPE ?t \<noteq> PB_HTYPE_REPEATED" by (auto simp: opt_def cnt_def)
      have "frame W h1 h'"
        using eq False msg [OF _ _ rep] regs(2) [OF rep]
        by (auto split: if_splits intro: frame_mem_zero frame_mem_copy)
      with h1 show ?thesis by (rule frame_trans)
    qed
  qed
qed simp

lemma mem_set_to_defaults:
  assumes "fits_in l e fs sz" and "region d sz \<subseteq> W"
    and "pb_message_set_to_defaults n e fs d h = Some h'"
  shows "frame W h h'"
  by (rule each_field_rel [OF _ _ _ assms(3) [unfolded pb_message_set_to_defaults_def]])
    (use mem_set_to_defaults_field [OF assms(1,2)] in \<open>auto intro: frame_trans\<close>)

text \<open>Releasing such a message changes nothing.\<close>

lemma release_items_id:
  assumes "\<And>p h h'. msg p h = Some h' \<Longrightarrow> h' = h"
  shows "release_items msg w n p h = Some h' \<Longrightarrow> h' = h"
  by (induction n arbitrary: p h) (auto dest: assms split: Option.bind_splits)

lemma release_static_id:
  assumes "fits_in l e fs sz" and "iter_at fs d k it"
    and "pb_release_single_field n e it h = Some h'"
  shows "h' = h"
  using assms
proof (induction n arbitrary: l fs sz d k it h h')
  case (Suc n)
  then obtain l' where l: "l = Suc l'" by (cases l) auto
  have k: "k < max 1 (n_fields fs)" using Suc.prems(2) by (auto simp: iter_at_def)
  note m = fits_member [OF Suc.prems(1) [unfolded l] k]
  have f: "it_field it = field_at fs k" using Suc.prems(2) by (simp add: iter_at_fields)
  have "h2 = h1" if fit: "fits_in l' e gs w"
    and r: "release_message (pb_release_single_field n e) gs p h1 = Some h2" for gs w p h1 h2
  proof (cases "p = 0")
    case False
    with r have "each_field (pb_release_single_field n e) gs p h1 = Some h2"
      by (simp add: release_message_def)
    moreover have "b = a" if "j < n_fields gs" "pb_release_single_field n e (iter_nth gs p j) a = Some b"
      for j a b
      by (rule Suc.IH [OF fit _ that(2), of p j]) (use that(1) in simp)
    ultimately show ?thesis
      by (elim each_field_rel [where Q = "\<lambda>h h'. h' = h", rotated -1]) blast+
  qed (use r in \<open>simp add: release_message_def\<close>)
  with Suc.prems(3) m show ?case
    by (auto simp: release_body_def Let_def member_fits_def f split: if_splits Option.bind_splits
        dest!: release_items_id [rotated])
qed simp

subsection \<open>Decoding\<close>

lemma at_field_index:
  assumes "at_field fs d it"
  obtains k where "iter_at fs d k it" "k < max 1 (n_fields fs)" "it_field it = field_at fs k"
proof -
  obtain k where k: "iter_at fs d k it" using assms by (auto simp: at_field_def)
  then have "k < max 1 (n_fields fs)" by (auto simp: iter_at_def)
  with k that show ?thesis by (simp add: iter_at_fields)
qed

lemma mem_static_ok:
  assumes fits: "fits_in (Suc l) e fs sz" and W: "region d sz \<subseteq> W" and it: "at_field fs d it"
    and dec: "\<And>fs' sz' d' init. fits_in l e fs' sz' \<Longrightarrow> region d' sz' \<subseteq> W \<Longrightarrow> mem.obeys W (dec init fs' d')"
  shows "mem.static_ok W dec n e it"
proof -
  obtain k where k: "iter_at fs d k it" "k < max 1 (n_fields fs)" "it_field it = field_at fs k"
    using it by (rule at_field_index)
  define f where "f = field_at fs k"
  let ?t = "ftype f"
  note m = fits_member [OF fits k(2)]
  note regs = member_regions [OF m W k(1) refl refl, folded f_def]
  have static: "PB_ATYPE ?t \<noteq> PB_ATYPE_POINTER"
    and sub: "PB_LTYPE ?t = PB_LTYPE_SUBMESSAGE \<Longrightarrow>
      fits_in l e (e_fields e (fptr f)) (unat (data_size f))"
    and rep: "PB_HTYPE ?t = PB_HTYPE_REPEATED \<Longrightarrow> value_bytes f \<le> unat (data_size f)"
    using m(1) by (simp_all add: member_fits_def Let_def f_def)
  have decs: "mem.obeys W (PB_DECODERS dec e f p)"
    if "region p (value_bytes f) \<subseteq> W" "region p (unat (data_size f)) \<subseteq> W" for p
    using mem.obeys_PB_DECODERS [OF static that(1)] dec [OF sub that(2)] by blast
  have item: "mem.obeys W (PB_DECODERS dec e f (item_addr (pData it) f c))"
    if "PB_HTYPE ?t = PB_HTYPE_REPEATED" "c < array_size f" for c
    using decs [OF _ regs(3) [OF that]] region_mono [OF rep [OF that(1)]] regs(3) [OF that] by blast
  have switch: "frame W h h'"
    if "PB_HTYPE ?t = PB_HTYPE_ONEOF" "switch_oneof n e it h = Some h'" for h h'
  proof -
    have r: "region (pData it) (unat (data_size f)) \<subseteq> W" using regs(2) that(1) by simp
    show ?thesis
      using that(2) frame_trans [OF frame_mem_zero [OF r] mem_set_to_defaults [OF sub r]]
      by (auto simp: switch_oneof_def Let_def k(3) f_def [symmetric] split: if_splits)
  qed
  show ?thesis
    using decs [OF regs(1,2)] item regs(4,5) switch
    unfolding mem.static_ok_def Let_def k(3) f_def [symmetric] by (auto simp: mem_rel_def)
qed

lemma release_union_id:
  assumes fits: "fits_in (Suc l) e fs sz" and it: "at_field fs d it"
    and r: "pb_release_union_field n e it (s, h) = Some (ok, it', s', h')"
  shows "h' = h" and "at_field fs d it'"
proof -
  have find: "at_field fs d b" if "at_field fs d a" "pb_field_iter_find a t = Some (c, b)" for a b c t
    using that by (auto simp: pb_field_iter_find_def intro: at_field_search)
  have rel: "k = h" if "at_field fs d a" "pb_release_single_field n e a h = Some k" for a k
    using that release_static_id [OF fits] by (auto simp: at_field_def)
  have nptr: "PB_ATYPE (ftype (it_field a)) \<noteq> PB_ATYPE_POINTER" if a: "at_field fs d a" for a
  proof -
    obtain k where "k < max 1 (n_fields fs)" "it_field a = field_at fs k"
      using at_field_index [OF a] by blast
    with fits_member(1) [OF fits] show ?thesis by (simp add: member_fits_def Let_def)
  qed
  have "h' = h \<and> at_field fs d it'"
  proof (cases "load_size h (pSize it) = 0 \<or> load_size h (pSize it) = tag (it_field it)")
    case True
    with r it show ?thesis by (auto simp: pb_release_union_field_def Let_def)
  next
    case False
    then obtain c1 it1 where f1: "pb_field_iter_find it (load_size h (pSize it)) = Some (c1, it1)"
      using r by (auto simp: pb_release_union_field_def Let_def split: option.splits)
    note a1 = find [OF it f1]
    show ?thesis
    proof (cases c1)
      case True
      then obtain h1 where h1: "pb_release_single_field n e it1 h = Some h1"
        using r False f1 by (auto simp: pb_release_union_field_def Let_def split: option.splits)
      then obtain c2 it2 where f2: "pb_field_iter_find it1 (tag (it_field it)) = Some (c2, it2)"
        using r False f1 True by (auto simp: pb_release_union_field_def Let_def split: option.splits)
      note a2 = find [OF a1 f2]
      show ?thesis
        using r False f1 True h1 f2 a2 nptr [OF a2] rel [OF a1 h1]
        by (auto simp: pb_release_union_field_def Let_def split: if_splits)
    qed (use r False f1 a1 in \<open>auto simp: pb_release_union_field_def Let_def\<close>)
  qed
  then show "h' = h" "at_field fs d it'" by blast+
qed

lemma mem_decode_field:
  assumes fits: "fits_in (Suc l) e fs sz" and W: "region d sz \<subseteq> W" and it: "at_field fs d it"
    and dec: "\<And>fs' sz' d' init. fits_in l e fs' sz' \<Longrightarrow> region d' sz' \<subseteq> W \<Longrightarrow> mem.obeys W (dec init fs' d')"
  shows "mem.obeys_field W fs d (decode_field dec n e wt it)"
  unfolding mem.obeys_field_def
proof (intro allI impI conjI)
  fix x ok it' y
  assume r: "decode_field dec n e wt it x = Some (ok, it', y)"
  define rel where "rel = (if PB_HTYPE (ftype (it_field it)) = PB_HTYPE_ONEOF
    then pb_release_union_field n e it x else Some (True, it, x))"
  obtain b it1 x1 where rel1: "rel = Some (b, it1, x1)"
    using r by (auto simp: decode_field_def rel_def [symmetric] split: option.splits)
  then have h: "snd x1 = snd x" and at1: "at_field fs d it1"
    using release_union_id [OF fits it, of n "fst x" "snd x" b it1 "fst x1" "snd x1"] it
    by (auto simp: rel_def split: if_splits)
  have static: "PB_ATYPE (ftype (it_field it1)) = PB_ATYPE_STATIC"
  proof -
    obtain k where "k < max 1 (n_fields fs)" "it_field it1 = field_at fs k"
      using at_field_index [OF at1] by blast
    with fits_member(1) [OF fits] show ?thesis by (simp add: member_fits_def Let_def)
  qed
  have eq: "(if \<not> b then Some (False, it1, x1)
      else map_option (\<lambda>(ok, sh). (ok, it1, sh)) (decode_static_field dec n e wt it1 x1)) = Some (ok, it', y)"
    using r rel1 static unfolding decode_field_def rel_def [symmetric] Let_def
    by (simp only: option.case prod.case if_True refl)
  have "mem.obeys W (decode_static_field dec n e wt it1)"
    by (rule mem.obeys_decode_static_field [OF mem_static_ok [OF fits W at1 dec]])
  with eq have "b \<Longrightarrow> mem_rel W ok x1 y" by (auto dest: mem.obeysD split: if_splits)
  with eq h show "mem_rel W ok x y" by (auto simp: mem_rel_def split: if_splits)
  show "at_field fs d it'" using eq at1 by (auto split: if_splits)
qed

lemma mem_fields_ok:
  assumes fits: "fits_in (Suc l) e fs sz" and W: "region d sz \<subseteq> W"
    and dec: "\<And>fs' sz' d' init. fits_in l e fs' sz' \<Longrightarrow> region d' sz' \<subseteq> W \<Longrightarrow> mem.obeys W (dec init fs' d')"
  shows "mem.fields_ok W fs d dec n e"
proof -
  have "PB_LTYPE (ftype (it_field it)) \<noteq> PB_LTYPE_EXTENSION" if it: "at_field fs d it" for it
  proof -
    obtain k where "k < max 1 (n_fields fs)" "it_field it = field_at fs k"
      using at_field_index [OF it] by blast
    with fits_member(1) [OF fits] show ?thesis by (simp add: member_fits_def Let_def)
  qed
  moreover have "mem.obeys_field W fs d (decode_field dec n e wt it)" if "at_field fs d it" for it wt
    by (rule mem_decode_field [where dec = dec, OF fits W that dec])
  ultimately show ?thesis unfolding mem.fields_ok_def by blast
qed

lemma mem_decode_with_init:
  assumes fits: "fits_in l e fs sz" and W: "region d sz \<subseteq> W" and ob: "mem.obeys W noinit"
  shows "mem.obeys W (decode_with_init noinit n e fs d)"
proof (rule mem.obeysI)
  fix s h ok s' h'
  assume r: "decode_with_init noinit n e fs d (s, h) = Some (ok, s', h')"
  then obtain h1 where h1: "pb_message_set_to_defaults n e fs d h = Some h1"
    by (auto simp: decode_with_init_def split: option.splits)
  with r obtain status h2 where h2: "noinit (s, h1) = Some (status, s', h2)"
    and rel: "if status then h' = h2 else pb_release n e fs d h2 = Some h'"
    by (auto simp: decode_with_init_def split: option.splits if_splits)
  have "pb_release n e fs d a = Some b \<Longrightarrow> b = a" for a b
  proof -
    assume "pb_release n e fs d a = Some b"
    then have e: "d \<noteq> 0 \<Longrightarrow> each_field (pb_release_single_field n e) fs d a = Some b"
      and z: "d = 0 \<Longrightarrow> b = a"
      by (auto simp: pb_release_def release_message_def)
    have id: "k = g" if "j < n_fields fs" "pb_release_single_field n e (iter_nth fs d j) g = Some k"
      for j g k
      by (rule release_static_id [OF fits _ that(2), of d j]) (use that(1) in simp)
    show "b = a"
    proof (cases "d = 0")
      case False
      show ?thesis
        by (rule each_field_rel [where Q = "\<lambda>h h'. h' = h", OF _ _ _ e [OF False]])
          (auto dest: id)
    qed (rule z)
  qed
  with rel have "h' = h2" by (auto split: if_splits)
  moreover have "frame W h h1" by (rule mem_set_to_defaults [OF fits W h1])
  moreover have "frame W h1 h2" using mem.obeysD [OF ob h2] by (simp add: mem_rel_def)
  ultimately show "mem_rel W ok (s, h) (s', h')" by (auto simp: mem_rel_def intro: frame_trans)
qed

theorem mem_pb_decode_noinit:
  assumes "fits_in l e fs sz" and "region d sz \<subseteq> W"
  shows "mem.obeys W (pb_decode_noinit n e fs d)"
  using assms
proof (induction n arbitrary: l fs sz d)
  case 0
  show ?case by (simp add: mem.obeys_def)
next
  case (Suc n)
  then obtain l' where l: "l = Suc l'" by (cases l) auto
  let ?dec = "\<lambda>init fs d sh.
      if init then decode_with_init (pb_decode_noinit n e fs d) n e fs d sh
      else pb_decode_noinit n e fs d sh"
  have dec: "mem.obeys W (?dec init fs' d')" if "fits_in l' e fs' sz'" "region d' sz' \<subseteq> W"
    for init fs' sz' d'
    using Suc.IH [OF that] mem_decode_with_init [OF that Suc.IH [OF that]] by (cases init) simp_all
  have good: "at_field fs d (snd (pb_field_iter_begin fs d))"
    using Suc.prems(1) iter_at_iter_nth [of fs d 0]
    by (auto simp: l at_field_def iter_nth.simps intro: exI [of _ 0])
  have "mem.obeys W (\<lambda>sh. pb_decode_noinit (Suc n) e fs d sh)"
    unfolding pb_decode_noinit.simps
    by (rule mem.obeys_decode_body [OF mem_fields_ok [OF Suc.prems(1) [unfolded l] Suc.prems(2) dec] good])
  then show ?case by simp
qed

theorem mem_pb_decode:
  assumes "fits_in l e fs sz" and "region d sz \<subseteq> W"
  shows "mem.obeys W (pb_decode n e fs d)"
  using mem_decode_with_init [OF assms mem_pb_decode_noinit [OF assms], of n n]
  by (simp add: pb_decode_def [abs_def] mem.obeys_def)

subsection \<open>Properties\<close>

lemma fits_in_decodable: "fits_in l e fs sz \<Longrightarrow> decodable_within False l e fs"
proof (induction l arbitrary: fs sz)
  case (Suc l)
  from fits_member(1) [OF Suc.prems] have "member_fits (fits_in l e) e fs sz k" if "k < max 1 (n_fields fs)" for k
    using that .
  with Suc show ?case by (auto simp: list_all_iff Let_def member_fits_def decodable_def)
qed simp

text \<open>C2: memory safety. If the descriptor fits a structure of \<open>sz\<close> bytes, then \<open>pb_decode\<close> returns, given
  fuel for the nesting of the submessages and one round for each byte of the input; and it has changed
  no byte of memory outside the \<open>sz\<close> bytes at the destination, whatever the input, whether or not the
  result is true, and has allocated and freed nothing.\<close>

theorem pb_decode_memory_safe:
  assumes "fits_in l e fs sz" and "l + unat (is_bytes_left s) < n"
  shows "\<exists>ok s' h'. pb_decode n e fs d (s, h) = Some (ok, s', h')
     \<and> (\<forall>x. x \<notin> region d sz \<longrightarrow> hmem h' x = hmem h x) \<and> hblocks h' = hblocks h \<and> hfault h' = hfault h"
proof -
  have "falls s (pb_decode n e fs d (s, h))"
    by (rule falls_pb_decode [OF _ fits_in_decodable [OF assms(1)] assms(2)]) simp
  then obtain ok s' h' where r: "pb_decode n e fs d (s, h) = Some (ok, s', h')" by (auto simp: falls_def)
  from mem.obeysD [OF mem_pb_decode [OF assms(1) order_refl] r] have "frame (region d sz) h h'"
    by (simp add: mem_rel_def)
  with r show ?thesis by (simp add: frame_def)
qed

theorem pb_decode_memory_safe_witness:
  "\<exists>ok s' h'. pb_decode 8 plain_env demo_fields 0x2000
       (pb_istream_from_buffer demo_bytes 6, demo_heap) = Some (ok, s', h')
     \<and> (\<forall>x. x \<notin> region 0x2000 16 \<longrightarrow> hmem h' x = hmem demo_heap x)
     \<and> hblocks h' = hblocks demo_heap \<and> hfault h' = hfault demo_heap"
proof -
  have "fits_in 1 plain_env demo_fields 16" by code_simp
  then show ?thesis by (rule pb_decode_memory_safe) (simp add: pb_istream_from_buffer_def)
qed

end
