(* ===== verification/Pb_Struct.thy ===== *)
theory Pb_Struct imports Pb_Common begin

text \<open>
  The macro \<open>PB_FIELD\<close> of \<open>nanopb/pb.h\<close>, by which the generated files \<open>*.nanopb.c\<close> write their
  descriptors, and what it takes from the C structure: \<open>offsetof\<close> and \<open>sizeof\<close> of the members as a
  64-bit compiler lays them out (each member at the next multiple of its alignment, the structure
  padded to a multiple of the largest).
\<close>

subsection \<open>Structures as the compiler lays them out\<close>

text \<open>\<open>C_ptr n\<close> points to items of \<open>n\<close> bytes; \<open>C_struct n a\<close> is a structure of \<open>n\<close> bytes with
  alignment \<open>a\<close>; \<open>C_array n t\<close> an array of \<open>n\<close> items. An enum has four bytes, and so has
  \<open>pb_size_t\<close>.\<close>

datatype c_type = C_bool | C_int32 | C_int64 | C_enum | C_ptr int | C_struct int int | C_array int c_type

primrec c_sizeof :: "c_type \<Rightarrow> int" where
  "c_sizeof C_bool = 1"
| "c_sizeof C_int32 = 4"
| "c_sizeof C_int64 = 8"
| "c_sizeof C_enum = 4"
| "c_sizeof (C_ptr n) = 8"
| "c_sizeof (C_struct n a) = n"
| "c_sizeof (C_array n t) = n * c_sizeof t"

primrec c_alignof :: "c_type \<Rightarrow> int" where
  "c_alignof C_bool = 1"
| "c_alignof C_int32 = 4"
| "c_alignof C_int64 = 8"
| "c_alignof C_enum = 4"
| "c_alignof (C_ptr n) = 8"
| "c_alignof (C_struct n a) = a"
| "c_alignof (C_array n t) = c_alignof t"

text \<open>\<open>sizeof(m[0])\<close>\<close>

definition c_itemsize :: "c_type \<Rightarrow> int" where
  "c_itemsize t = (case t of C_ptr n \<Rightarrow> n | C_array n t \<Rightarrow> c_sizeof t | _ \<Rightarrow> 0)"

text \<open>A structure is the list of its members, whose names are a type of their own for each.\<close>

type_synonym 'm c_struct = "('m \<times> c_type) list"

definition align_up :: "int \<Rightarrow> int \<Rightarrow> int" where
  "align_up n a = (n + a - 1) div a * a"

text \<open>The end of the members before the given one, and its offset.\<close>

fun layout :: "int \<Rightarrow> 'm c_struct \<Rightarrow> ('m \<times> int) list" where
  "layout n [] = []"
| "layout n ((m, t) # st) =
     (let off = align_up n (c_alignof t) in (m, off) # layout (off + c_sizeof t) st)"

fun members_end :: "int \<Rightarrow> 'm c_struct \<Rightarrow> int" where
  "members_end n [] = n"
| "members_end n ((m, t) # st) = members_end (align_up n (c_alignof t) + c_sizeof t) st"

definition struct_align :: "'m c_struct \<Rightarrow> int" where
  "struct_align st = foldr (\<lambda>(m, t) a. max (c_alignof t) a) st 1"

definition struct_sizeof :: "'m c_struct \<Rightarrow> int" where
  "struct_sizeof st = align_up (members_end 0 st) (struct_align st)"

definition struct_type :: "'m c_struct \<Rightarrow> c_type" where
  "struct_type st = C_struct (struct_sizeof st) (struct_align st)"

definition c_offsetof :: "'m c_struct \<Rightarrow> 'm \<Rightarrow> int" where
  "c_offsetof st m = (case map_of (layout 0 st) m of Some n \<Rightarrow> n | None \<Rightarrow> 0)"

definition member_type :: "'m c_struct \<Rightarrow> 'm \<Rightarrow> c_type" where
  "member_type st m = (case map_of st m of Some t \<Rightarrow> t | None \<Rightarrow> C_bool)"

definition pb_membersize :: "'m c_struct \<Rightarrow> 'm \<Rightarrow> int" where
  "pb_membersize st m = c_sizeof (member_type st m)"

definition pb_arraysize :: "'m c_struct \<Rightarrow> 'm \<Rightarrow> int" where
  "pb_arraysize st m = c_sizeof (member_type st m) div c_itemsize (member_type st m)"

text \<open>\<open>pb_bytes_array_t\<close> itself: a count and one byte.\<close>

datatype pb_bytes_array_member = BA_size | BA_bytes

definition pb_bytes_array_s :: "pb_bytes_array_member c_struct" where
  "pb_bytes_array_s = [(BA_size, C_int32), (BA_bytes, C_array 1 C_bool)]"

subsection \<open>The macro\<close>

datatype pb_map =
  BOOL | BYTES | DOUBLE | ENUM | UENUM | FIXED32 | FIXED64 | FLOAT | INT32 | INT64 | MESSAGE
| SFIXED32 | SFIXED64 | SINT32 | SINT64 | STRING | UINT32 | UINT64 | EXTENSION | FIXED_LENGTH_BYTES

primrec PB_LTYPE_MAP :: "pb_map \<Rightarrow> byte" where
  "PB_LTYPE_MAP BOOL = PB_LTYPE_BOOL"
| "PB_LTYPE_MAP BYTES = PB_LTYPE_BYTES"
| "PB_LTYPE_MAP DOUBLE = PB_LTYPE_FIXED64"
| "PB_LTYPE_MAP ENUM = PB_LTYPE_VARINT"
| "PB_LTYPE_MAP UENUM = PB_LTYPE_UVARINT"
| "PB_LTYPE_MAP FIXED32 = PB_LTYPE_FIXED32"
| "PB_LTYPE_MAP FIXED64 = PB_LTYPE_FIXED64"
| "PB_LTYPE_MAP FLOAT = PB_LTYPE_FIXED32"
| "PB_LTYPE_MAP INT32 = PB_LTYPE_VARINT"
| "PB_LTYPE_MAP INT64 = PB_LTYPE_VARINT"
| "PB_LTYPE_MAP MESSAGE = PB_LTYPE_SUBMESSAGE"
| "PB_LTYPE_MAP SFIXED32 = PB_LTYPE_FIXED32"
| "PB_LTYPE_MAP SFIXED64 = PB_LTYPE_FIXED64"
| "PB_LTYPE_MAP SINT32 = PB_LTYPE_SVARINT"
| "PB_LTYPE_MAP SINT64 = PB_LTYPE_SVARINT"
| "PB_LTYPE_MAP STRING = PB_LTYPE_STRING"
| "PB_LTYPE_MAP UINT32 = PB_LTYPE_UVARINT"
| "PB_LTYPE_MAP UINT64 = PB_LTYPE_UVARINT"
| "PB_LTYPE_MAP EXTENSION = PB_LTYPE_EXTENSION"
| "PB_LTYPE_MAP FIXED_LENGTH_BYTES = PB_LTYPE_FIXED_LENGTH_BYTES"

datatype pb_rules = REQUIRED | OPTIONAL | SINGULAR | REPEATED | OPTEXT
datatype pb_allocation = STATIC | POINTER | CALLBACK
datatype pb_placement = FIRST | OTHER

definition PB_DATAOFFSET :: "pb_placement \<Rightarrow> 'm c_struct \<Rightarrow> 'm \<Rightarrow> 'm \<Rightarrow> u32" where
  "PB_DATAOFFSET placement st m prev =
     (case placement of
        FIRST \<Rightarrow> PB_DATAOFFSET_FIRST (of_int (c_offsetof st m))
      | OTHER \<Rightarrow> PB_DATAOFFSET_OTHER (of_int (c_offsetof st m)) (of_int (c_offsetof st prev))
                   (of_int (pb_membersize st prev)))"

text \<open>\<open>PB_ ## rules ## _ ## allocation(tag, message, field, PB_DATAOFFSET_ ## placement(..), ..)\<close>. \<open>aux\<close> is
  the member \<open>has_ ## field\<close> or \<open>field ## _count\<close> that the rule refers to, or the field itself.\<close>

definition PB_FIELD ::
  "u32 \<Rightarrow> pb_map \<Rightarrow> pb_rules \<Rightarrow> pb_allocation \<Rightarrow> pb_placement \<Rightarrow> 'm c_struct \<Rightarrow> 'm \<Rightarrow> 'm \<Rightarrow> 'm
     \<Rightarrow> ptr \<Rightarrow> pb_field" where
  "PB_FIELD t ty rules allocation placement st m aux prev p =
     (let fd = PB_DATAOFFSET placement st m prev; l = PB_LTYPE_MAP ty;
          delta = pb_delta (of_int (c_offsetof st aux)) (of_int (c_offsetof st m));
          sz = of_int (pb_membersize st m); item = of_int (c_itemsize (member_type st m));
          len = of_int (pb_arraysize st m)
      in case (allocation, rules) of
        (STATIC, REQUIRED) \<Rightarrow> PB_REQUIRED_STATIC t fd sz l p
      | (STATIC, OPTIONAL) \<Rightarrow> PB_OPTIONAL_STATIC t fd delta sz l p
      | (STATIC, SINGULAR) \<Rightarrow> PB_SINGULAR_STATIC t fd sz l p
      | (STATIC, REPEATED) \<Rightarrow> PB_REPEATED_STATIC t fd delta item len l p
      | (STATIC, OPTEXT) \<Rightarrow> PB_OPTEXT_STATIC t sz l p
      | (POINTER, REQUIRED) \<Rightarrow> PB_REQUIRED_POINTER t fd item l p
      | (POINTER, OPTIONAL) \<Rightarrow> PB_OPTIONAL_POINTER t fd item l p
      | (POINTER, SINGULAR) \<Rightarrow> PB_SINGULAR_POINTER t fd item l p
      | (POINTER, REPEATED) \<Rightarrow> PB_REPEATED_POINTER t fd delta item l p
      | (POINTER, OPTEXT) \<Rightarrow> PB_OPTIONAL_POINTER t fd item l p
      | (CALLBACK, REQUIRED) \<Rightarrow> PB_REQUIRED_CALLBACK t fd sz l p
      | (CALLBACK, OPTIONAL) \<Rightarrow> PB_OPTIONAL_CALLBACK t fd sz l p
      | (CALLBACK, SINGULAR) \<Rightarrow> PB_SINGULAR_CALLBACK t fd sz l p
      | (CALLBACK, REPEATED) \<Rightarrow> PB_REPEATED_CALLBACK t fd sz l p
      | (CALLBACK, OPTEXT) \<Rightarrow> PB_OPTIONAL_CALLBACK t fd sz l p)"

subsection \<open>Descriptors that describe their structure\<close>

text \<open>Where the iterator finds the data of the fields and their has, count or which members.\<close>

definition describes :: "pb_field list \<Rightarrow> 'm c_struct \<Rightarrow> ('m \<times> 'm) list \<Rightarrow> bool" where
  "describes fs st ms \<longleftrightarrow>
     n_fields fs = length ms
     \<and> list_all (\<lambda>k. struct_offset fs k = of_int (c_offsetof st (fst (ms ! k)))
          \<and> struct_size_offset fs k = of_int (c_offsetof st (snd (ms ! k)))
          \<and> uint (field_extent (field_at fs k)) = c_sizeof (member_type st (fst (ms ! k)))
          \<and> fst (ms ! k) \<in> set (map fst st) \<and> snd (ms ! k) \<in> set (map fst st)) [0..<length ms]
     \<and> distinct (map fst ms)"

lemma describes_pointers:
  assumes "describes fs st ms" and "k < length ms"
  shows "pData (iter_nth fs d k) = d + of_int (c_offsetof st (fst (ms ! k)))"
    and "pSize (iter_nth fs d k) = Slot (d + of_int (c_offsetof st (snd (ms ! k))))"
    and "uint (field_extent (field_at fs k)) = c_sizeof (member_type st (fst (ms ! k)))"
  using assms iter_nth_pointers [of k fs d] by (auto simp: describes_def list_all_iff)

text \<open>The same offsets in one pass over the descriptor.\<close>

definition next_offsets :: "pb_field \<Rightarrow> pb_field \<Rightarrow> csize \<times> csize \<Rightarrow> csize \<times> csize" where
  "next_offsets f g o2 = (case o2 of (off, soff) \<Rightarrow>
     if same_union f g then (off, soff)
     else let off' = off + field_extent f + ucast (data_offset g)
          in (off', off' + scast (size_offset g)))"

fun offsets_from :: "csize \<times> csize \<Rightarrow> pb_field list \<Rightarrow> (csize \<times> csize) list" where
  "offsets_from o2 [] = []"
| "offsets_from o2 [f] = [o2]"
| "offsets_from o2 (f # g # fs) = o2 # offsets_from (next_offsets f g o2) (g # fs)"

definition all_offsets :: "pb_field list \<Rightarrow> (csize \<times> csize) list" where
  "all_offsets fs = (let f = field_at fs 0; off = ucast (data_offset f)
     in offsets_from (off, off + scast (size_offset f)) fs)"

lemma offsets_from_nth:
  assumes "o2 = (struct_offset fs k, struct_size_offset fs k)" "k + j < length fs"
  shows "offsets_from o2 (drop k fs) ! j = (struct_offset fs (k + j), struct_size_offset fs (k + j))"
  using assms
proof (induction j arbitrary: k o2)
  case 0
  then obtain f gs where fg: "drop k fs = f # gs" by (cases "drop k fs") auto
  then show ?case using 0 by (cases gs) simp_all
next
  case (Suc j)
  then have k: "k < length fs" "Suc k < length fs" by simp_all
  then have fg: "drop k fs = fs ! k # fs ! Suc k # drop (Suc (Suc k)) fs"
    by (simp add: Cons_nth_drop_Suc)
  have "next_offsets (fs ! k) (fs ! Suc k) o2 = (struct_offset fs (Suc k), struct_size_offset fs (Suc k))"
    using k by (simp add: Suc.prems(1) next_offsets_def field_at_def Let_def)
  from Suc.IH [OF this] Suc.prems(2)
  have "offsets_from (next_offsets (fs ! k) (fs ! Suc k) o2) (drop (Suc k) fs) ! j
      = (struct_offset fs (k + Suc j), struct_size_offset fs (k + Suc j))" by simp
  moreover have "drop (Suc k) fs = fs ! Suc k # drop (Suc (Suc k)) fs"
    using k by (simp add: Cons_nth_drop_Suc)
  then have "offsets_from o2 (drop k fs) = o2 # offsets_from (next_offsets (fs ! k) (fs ! Suc k) o2) (drop (Suc k) fs)"
    by (simp only: fg offsets_from.simps)
  ultimately show ?case by (simp only: nth_Cons_Suc)
qed

lemma length_offsets_from [simp]: "length (offsets_from o2 fs) = length fs"
  by (induction o2 fs rule: offsets_from.induct) simp_all

lemma length_all_offsets: "length (all_offsets fs) = length fs"
  by (simp add: all_offsets_def Let_def)

lemma all_offsets_nth:
  "k < length fs \<Longrightarrow> all_offsets fs ! k = (struct_offset fs k, struct_size_offset fs k)"
  using offsets_from_nth [of _ fs 0 k] by (simp add: all_offsets_def Let_def)

definition describes_code :: "pb_field list \<Rightarrow> 'm c_struct \<Rightarrow> ('m \<times> 'm) list \<Rightarrow> bool" where
  "describes_code fs st ms \<longleftrightarrow>
     n_fields fs = length ms \<and> length fs = Suc (length ms) \<and> distinct (map fst ms)
     \<and> list_all (\<lambda>((m, aux), (off, soff), f). off = of_int (c_offsetof st m)
          \<and> soff = of_int (c_offsetof st aux) \<and> uint (field_extent f) = c_sizeof (member_type st m)
          \<and> m \<in> set (map fst st) \<and> aux \<in> set (map fst st))
         (zip ms (zip (all_offsets fs) fs))"

lemma describes_code: "describes_code fs st ms \<Longrightarrow> describes fs st ms"
  by (simp add: describes_code_def describes_def list_all_length split_beta all_offsets_nth
      field_at_def length_all_offsets)

end
