(* ===== verification/Cct_Messages.thy ===== *)
theory Cct_Messages imports Pb_Struct begin

text \<open>
  The generated files \<open>GDTCCTLibrary/Protogen/nanopb/cct.nanopb.h\<close> and \<open>cct.nanopb.c\<close>: the messages in
  which GoogleDataTransport uploads its events, as enumerations, C structures and descriptors. The
  addresses of the tables are an argument of those that refer to them.
\<close>

subsection \<open>Enumerations\<close>

datatype gdt_cct_NetworkConnectionInfo_NetworkType =
  NetworkType_NONE
| NetworkType_MOBILE
| NetworkType_WIFI
| NetworkType_MOBILE_MMS
| NetworkType_MOBILE_SUPL
| NetworkType_MOBILE_DUN
| NetworkType_MOBILE_HIPRI
| NetworkType_WIMAX
| NetworkType_BLUETOOTH
| NetworkType_DUMMY
| NetworkType_ETHERNET
| NetworkType_MOBILE_FOTA
| NetworkType_MOBILE_IMS
| NetworkType_MOBILE_CBS
| NetworkType_WIFI_P2P
| NetworkType_MOBILE_IA
| NetworkType_MOBILE_EMERGENCY
| NetworkType_PROXY
| NetworkType_VPN

primrec gdt_cct_NetworkConnectionInfo_NetworkType_value :: "gdt_cct_NetworkConnectionInfo_NetworkType \<Rightarrow> int" where
  "gdt_cct_NetworkConnectionInfo_NetworkType_value NetworkType_NONE = - 1"
| "gdt_cct_NetworkConnectionInfo_NetworkType_value NetworkType_MOBILE = 0"
| "gdt_cct_NetworkConnectionInfo_NetworkType_value NetworkType_WIFI = 1"
| "gdt_cct_NetworkConnectionInfo_NetworkType_value NetworkType_MOBILE_MMS = 2"
| "gdt_cct_NetworkConnectionInfo_NetworkType_value NetworkType_MOBILE_SUPL = 3"
| "gdt_cct_NetworkConnectionInfo_NetworkType_value NetworkType_MOBILE_DUN = 4"
| "gdt_cct_NetworkConnectionInfo_NetworkType_value NetworkType_MOBILE_HIPRI = 5"
| "gdt_cct_NetworkConnectionInfo_NetworkType_value NetworkType_WIMAX = 6"
| "gdt_cct_NetworkConnectionInfo_NetworkType_value NetworkType_BLUETOOTH = 7"
| "gdt_cct_NetworkConnectionInfo_NetworkType_value NetworkType_DUMMY = 8"
| "gdt_cct_NetworkConnectionInfo_NetworkType_value NetworkType_ETHERNET = 9"
| "gdt_cct_NetworkConnectionInfo_NetworkType_value NetworkType_MOBILE_FOTA = 10"
| "gdt_cct_NetworkConnectionInfo_NetworkType_value NetworkType_MOBILE_IMS = 11"
| "gdt_cct_NetworkConnectionInfo_NetworkType_value NetworkType_MOBILE_CBS = 12"
| "gdt_cct_NetworkConnectionInfo_NetworkType_value NetworkType_WIFI_P2P = 13"
| "gdt_cct_NetworkConnectionInfo_NetworkType_value NetworkType_MOBILE_IA = 14"
| "gdt_cct_NetworkConnectionInfo_NetworkType_value NetworkType_MOBILE_EMERGENCY = 15"
| "gdt_cct_NetworkConnectionInfo_NetworkType_value NetworkType_PROXY = 16"
| "gdt_cct_NetworkConnectionInfo_NetworkType_value NetworkType_VPN = 17"

datatype gdt_cct_NetworkConnectionInfo_MobileSubtype =
  MobileSubtype_UNKNOWN_MOBILE_SUBTYPE
| MobileSubtype_GPRS
| MobileSubtype_EDGE
| MobileSubtype_UMTS
| MobileSubtype_CDMA
| MobileSubtype_EVDO_0
| MobileSubtype_EVDO_A
| MobileSubtype_RTT
| MobileSubtype_HSDPA
| MobileSubtype_HSUPA
| MobileSubtype_HSPA
| MobileSubtype_IDEN
| MobileSubtype_EVDO_B
| MobileSubtype_LTE
| MobileSubtype_EHRPD
| MobileSubtype_HSPAP
| MobileSubtype_GSM
| MobileSubtype_TD_SCDMA
| MobileSubtype_IWLAN
| MobileSubtype_LTE_CA
| MobileSubtype_COMBINED

primrec gdt_cct_NetworkConnectionInfo_MobileSubtype_value :: "gdt_cct_NetworkConnectionInfo_MobileSubtype \<Rightarrow> int" where
  "gdt_cct_NetworkConnectionInfo_MobileSubtype_value MobileSubtype_UNKNOWN_MOBILE_SUBTYPE = 0"
| "gdt_cct_NetworkConnectionInfo_MobileSubtype_value MobileSubtype_GPRS = 1"
| "gdt_cct_NetworkConnectionInfo_MobileSubtype_value MobileSubtype_EDGE = 2"
| "gdt_cct_NetworkConnectionInfo_MobileSubtype_value MobileSubtype_UMTS = 3"
| "gdt_cct_NetworkConnectionInfo_MobileSubtype_value MobileSubtype_CDMA = 4"
| "gdt_cct_NetworkConnectionInfo_MobileSubtype_value MobileSubtype_EVDO_0 = 5"
| "gdt_cct_NetworkConnectionInfo_MobileSubtype_value MobileSubtype_EVDO_A = 6"
| "gdt_cct_NetworkConnectionInfo_MobileSubtype_value MobileSubtype_RTT = 7"
| "gdt_cct_NetworkConnectionInfo_MobileSubtype_value MobileSubtype_HSDPA = 8"
| "gdt_cct_NetworkConnectionInfo_MobileSubtype_value MobileSubtype_HSUPA = 9"
| "gdt_cct_NetworkConnectionInfo_MobileSubtype_value MobileSubtype_HSPA = 10"
| "gdt_cct_NetworkConnectionInfo_MobileSubtype_value MobileSubtype_IDEN = 11"
| "gdt_cct_NetworkConnectionInfo_MobileSubtype_value MobileSubtype_EVDO_B = 12"
| "gdt_cct_NetworkConnectionInfo_MobileSubtype_value MobileSubtype_LTE = 13"
| "gdt_cct_NetworkConnectionInfo_MobileSubtype_value MobileSubtype_EHRPD = 14"
| "gdt_cct_NetworkConnectionInfo_MobileSubtype_value MobileSubtype_HSPAP = 15"
| "gdt_cct_NetworkConnectionInfo_MobileSubtype_value MobileSubtype_GSM = 16"
| "gdt_cct_NetworkConnectionInfo_MobileSubtype_value MobileSubtype_TD_SCDMA = 17"
| "gdt_cct_NetworkConnectionInfo_MobileSubtype_value MobileSubtype_IWLAN = 18"
| "gdt_cct_NetworkConnectionInfo_MobileSubtype_value MobileSubtype_LTE_CA = 19"
| "gdt_cct_NetworkConnectionInfo_MobileSubtype_value MobileSubtype_COMBINED = 100"

datatype gdt_cct_ClientInfo_ClientType =
  ClientType_CLIENT_UNKNOWN
| ClientType_IOS_FIREBASE

primrec gdt_cct_ClientInfo_ClientType_value :: "gdt_cct_ClientInfo_ClientType \<Rightarrow> int" where
  "gdt_cct_ClientInfo_ClientType_value ClientType_CLIENT_UNKNOWN = 0"
| "gdt_cct_ClientInfo_ClientType_value ClientType_IOS_FIREBASE = 15"

datatype gdt_cct_QosTierConfiguration_QosTier =
  QosTier_DEFAULT
| QosTier_UNMETERED_ONLY
| QosTier_UNMETERED_OR_DAILY
| QosTier_FAST_IF_RADIO_AWAKE
| QosTier_NEVER

primrec gdt_cct_QosTierConfiguration_QosTier_value :: "gdt_cct_QosTierConfiguration_QosTier \<Rightarrow> int" where
  "gdt_cct_QosTierConfiguration_QosTier_value QosTier_DEFAULT = 0"
| "gdt_cct_QosTierConfiguration_QosTier_value QosTier_UNMETERED_ONLY = 1"
| "gdt_cct_QosTierConfiguration_QosTier_value QosTier_UNMETERED_OR_DAILY = 2"
| "gdt_cct_QosTierConfiguration_QosTier_value QosTier_FAST_IF_RADIO_AWAKE = 3"
| "gdt_cct_QosTierConfiguration_QosTier_value QosTier_NEVER = 4"

subsection \<open>Structures\<close>

datatype gdt_cct_NetworkConnectionInfo_member =
  NetworkConnectionInfo_has_network_type | NetworkConnectionInfo_network_type | NetworkConnectionInfo_has_mobile_subtype | NetworkConnectionInfo_mobile_subtype

definition gdt_cct_NetworkConnectionInfo :: "gdt_cct_NetworkConnectionInfo_member c_struct" where
  "gdt_cct_NetworkConnectionInfo =
    [(NetworkConnectionInfo_has_network_type, C_bool),
     (NetworkConnectionInfo_network_type, C_enum),
     (NetworkConnectionInfo_has_mobile_subtype, C_bool),
     (NetworkConnectionInfo_mobile_subtype, C_enum)]"

datatype gdt_cct_QosTierConfiguration_member =
  QosTierConfiguration_has_qos_tier | QosTierConfiguration_qos_tier | QosTierConfiguration_has_log_source | QosTierConfiguration_log_source

definition gdt_cct_QosTierConfiguration :: "gdt_cct_QosTierConfiguration_member c_struct" where
  "gdt_cct_QosTierConfiguration =
    [(QosTierConfiguration_has_qos_tier, C_bool),
     (QosTierConfiguration_qos_tier, C_enum),
     (QosTierConfiguration_has_log_source, C_bool),
     (QosTierConfiguration_log_source, C_int32)]"

datatype gdt_cct_IosClientInfo_member =
  IosClientInfo_os_major_version | IosClientInfo_os_full_version | IosClientInfo_application_build | IosClientInfo_country | IosClientInfo_model | IosClientInfo_language_code | IosClientInfo_application_bundle_id

definition gdt_cct_IosClientInfo :: "gdt_cct_IosClientInfo_member c_struct" where
  "gdt_cct_IosClientInfo =
    [(IosClientInfo_os_major_version, C_ptr (struct_sizeof pb_bytes_array_s)),
     (IosClientInfo_os_full_version, C_ptr (struct_sizeof pb_bytes_array_s)),
     (IosClientInfo_application_build, C_ptr (struct_sizeof pb_bytes_array_s)),
     (IosClientInfo_country, C_ptr (struct_sizeof pb_bytes_array_s)),
     (IosClientInfo_model, C_ptr (struct_sizeof pb_bytes_array_s)),
     (IosClientInfo_language_code, C_ptr (struct_sizeof pb_bytes_array_s)),
     (IosClientInfo_application_bundle_id, C_ptr (struct_sizeof pb_bytes_array_s))]"

datatype gdt_cct_ClientInfo_member =
  ClientInfo_has_client_type | ClientInfo_client_type | ClientInfo_has_ios_client_info | ClientInfo_ios_client_info

definition gdt_cct_ClientInfo :: "gdt_cct_ClientInfo_member c_struct" where
  "gdt_cct_ClientInfo =
    [(ClientInfo_has_client_type, C_bool),
     (ClientInfo_client_type, C_enum),
     (ClientInfo_has_ios_client_info, C_bool),
     (ClientInfo_ios_client_info, struct_type gdt_cct_IosClientInfo)]"

datatype gdt_cct_LogEvent_member =
  LogEvent_has_event_time_ms | LogEvent_event_time_ms | LogEvent_source_extension | LogEvent_has_event_code | LogEvent_event_code | LogEvent_has_timezone_offset_seconds | LogEvent_timezone_offset_seconds | LogEvent_has_event_uptime_ms | LogEvent_event_uptime_ms | LogEvent_has_network_connection_info | LogEvent_network_connection_info

definition gdt_cct_LogEvent :: "gdt_cct_LogEvent_member c_struct" where
  "gdt_cct_LogEvent =
    [(LogEvent_has_event_time_ms, C_bool),
     (LogEvent_event_time_ms, C_int64),
     (LogEvent_source_extension, C_ptr (struct_sizeof pb_bytes_array_s)),
     (LogEvent_has_event_code, C_bool),
     (LogEvent_event_code, C_int32),
     (LogEvent_has_timezone_offset_seconds, C_bool),
     (LogEvent_timezone_offset_seconds, C_int64),
     (LogEvent_has_event_uptime_ms, C_bool),
     (LogEvent_event_uptime_ms, C_int64),
     (LogEvent_has_network_connection_info, C_bool),
     (LogEvent_network_connection_info, struct_type gdt_cct_NetworkConnectionInfo)]"

datatype gdt_cct_LogRequest_member =
  LogRequest_has_client_info | LogRequest_client_info | LogRequest_has_log_source | LogRequest_log_source | LogRequest_log_event_count | LogRequest_log_event | LogRequest_has_request_time_ms | LogRequest_request_time_ms | LogRequest_has_request_uptime_ms | LogRequest_request_uptime_ms | LogRequest_has_qos_tier | LogRequest_qos_tier

definition gdt_cct_LogRequest :: "gdt_cct_LogRequest_member c_struct" where
  "gdt_cct_LogRequest =
    [(LogRequest_has_client_info, C_bool),
     (LogRequest_client_info, struct_type gdt_cct_ClientInfo),
     (LogRequest_has_log_source, C_bool),
     (LogRequest_log_source, C_int32),
     (LogRequest_log_event_count, C_int32),
     (LogRequest_log_event, C_ptr (struct_sizeof gdt_cct_LogEvent)),
     (LogRequest_has_request_time_ms, C_bool),
     (LogRequest_request_time_ms, C_int64),
     (LogRequest_has_request_uptime_ms, C_bool),
     (LogRequest_request_uptime_ms, C_int64),
     (LogRequest_has_qos_tier, C_bool),
     (LogRequest_qos_tier, C_enum)]"

datatype gdt_cct_BatchedLogRequest_member =
  BatchedLogRequest_log_request_count | BatchedLogRequest_log_request

definition gdt_cct_BatchedLogRequest :: "gdt_cct_BatchedLogRequest_member c_struct" where
  "gdt_cct_BatchedLogRequest =
    [(BatchedLogRequest_log_request_count, C_int32),
     (BatchedLogRequest_log_request, C_ptr (struct_sizeof gdt_cct_LogRequest))]"

datatype gdt_cct_QosTiersOverride_member =
  QosTiersOverride_qos_tier_configuration_count | QosTiersOverride_qos_tier_configuration | QosTiersOverride_has_qos_tier_fingerprint | QosTiersOverride_qos_tier_fingerprint

definition gdt_cct_QosTiersOverride :: "gdt_cct_QosTiersOverride_member c_struct" where
  "gdt_cct_QosTiersOverride =
    [(QosTiersOverride_qos_tier_configuration_count, C_int32),
     (QosTiersOverride_qos_tier_configuration, C_ptr (struct_sizeof gdt_cct_QosTierConfiguration)),
     (QosTiersOverride_has_qos_tier_fingerprint, C_bool),
     (QosTiersOverride_qos_tier_fingerprint, C_int64)]"

datatype gdt_cct_LogResponse_member =
  LogResponse_has_next_request_wait_millis | LogResponse_next_request_wait_millis | LogResponse_has_qos_tier | LogResponse_qos_tier

definition gdt_cct_LogResponse :: "gdt_cct_LogResponse_member c_struct" where
  "gdt_cct_LogResponse =
    [(LogResponse_has_next_request_wait_millis, C_bool),
     (LogResponse_next_request_wait_millis, C_int64),
     (LogResponse_has_qos_tier, C_bool),
     (LogResponse_qos_tier, struct_type gdt_cct_QosTiersOverride)]"

subsection \<open>Descriptors\<close>

text \<open>Where the linker has put the tables and the default values.\<close>

datatype cct_symbol =
  At_LogEvent_fields
| At_NetworkConnectionInfo_fields
| At_IosClientInfo_fields
| At_ClientInfo_fields
| At_BatchedLogRequest_fields
| At_LogRequest_fields
| At_QosTierConfiguration_fields
| At_QosTiersOverride_fields
| At_LogResponse_fields
| At_NetworkConnectionInfo_network_type_default
| At_NetworkConnectionInfo_mobile_subtype_default
| At_LogRequest_qos_tier_default
| At_QosTierConfiguration_log_source_default

type_synonym cct_link = "cct_symbol \<Rightarrow> ptr"

definition gdt_cct_LogEvent_fields :: "cct_link \<Rightarrow> pb_field list" where
  "gdt_cct_LogEvent_fields lk =
    [PB_FIELD 1 INT64 OPTIONAL STATIC FIRST gdt_cct_LogEvent LogEvent_event_time_ms LogEvent_has_event_time_ms LogEvent_event_time_ms 0,
     PB_FIELD 6 BYTES OPTIONAL POINTER OTHER gdt_cct_LogEvent LogEvent_source_extension LogEvent_source_extension LogEvent_event_time_ms 0,
     PB_FIELD 11 INT32 OPTIONAL STATIC OTHER gdt_cct_LogEvent LogEvent_event_code LogEvent_has_event_code LogEvent_source_extension 0,
     PB_FIELD 15 SINT64 OPTIONAL STATIC OTHER gdt_cct_LogEvent LogEvent_timezone_offset_seconds LogEvent_has_timezone_offset_seconds LogEvent_event_code 0,
     PB_FIELD 17 INT64 OPTIONAL STATIC OTHER gdt_cct_LogEvent LogEvent_event_uptime_ms LogEvent_has_event_uptime_ms LogEvent_timezone_offset_seconds 0,
     PB_FIELD 23 MESSAGE OPTIONAL STATIC OTHER gdt_cct_LogEvent LogEvent_network_connection_info LogEvent_has_network_connection_info LogEvent_event_uptime_ms (lk At_NetworkConnectionInfo_fields),
     PB_LAST_FIELD]"

definition gdt_cct_NetworkConnectionInfo_fields :: "cct_link \<Rightarrow> pb_field list" where
  "gdt_cct_NetworkConnectionInfo_fields lk =
    [PB_FIELD 1 ENUM OPTIONAL STATIC FIRST gdt_cct_NetworkConnectionInfo NetworkConnectionInfo_network_type NetworkConnectionInfo_has_network_type NetworkConnectionInfo_network_type (lk At_NetworkConnectionInfo_network_type_default),
     PB_FIELD 2 UENUM OPTIONAL STATIC OTHER gdt_cct_NetworkConnectionInfo NetworkConnectionInfo_mobile_subtype NetworkConnectionInfo_has_mobile_subtype NetworkConnectionInfo_network_type (lk At_NetworkConnectionInfo_mobile_subtype_default),
     PB_LAST_FIELD]"

definition gdt_cct_IosClientInfo_fields :: "cct_link \<Rightarrow> pb_field list" where
  "gdt_cct_IosClientInfo_fields lk =
    [PB_FIELD 3 BYTES OPTIONAL POINTER FIRST gdt_cct_IosClientInfo IosClientInfo_os_major_version IosClientInfo_os_major_version IosClientInfo_os_major_version 0,
     PB_FIELD 4 BYTES OPTIONAL POINTER OTHER gdt_cct_IosClientInfo IosClientInfo_os_full_version IosClientInfo_os_full_version IosClientInfo_os_major_version 0,
     PB_FIELD 5 BYTES OPTIONAL POINTER OTHER gdt_cct_IosClientInfo IosClientInfo_application_build IosClientInfo_application_build IosClientInfo_os_full_version 0,
     PB_FIELD 6 BYTES OPTIONAL POINTER OTHER gdt_cct_IosClientInfo IosClientInfo_country IosClientInfo_country IosClientInfo_application_build 0,
     PB_FIELD 7 BYTES OPTIONAL POINTER OTHER gdt_cct_IosClientInfo IosClientInfo_model IosClientInfo_model IosClientInfo_country 0,
     PB_FIELD 8 BYTES OPTIONAL POINTER OTHER gdt_cct_IosClientInfo IosClientInfo_language_code IosClientInfo_language_code IosClientInfo_model 0,
     PB_FIELD 11 BYTES OPTIONAL POINTER OTHER gdt_cct_IosClientInfo IosClientInfo_application_bundle_id IosClientInfo_application_bundle_id IosClientInfo_language_code 0,
     PB_LAST_FIELD]"

definition gdt_cct_ClientInfo_fields :: "cct_link \<Rightarrow> pb_field list" where
  "gdt_cct_ClientInfo_fields lk =
    [PB_FIELD 1 UENUM OPTIONAL STATIC FIRST gdt_cct_ClientInfo ClientInfo_client_type ClientInfo_has_client_type ClientInfo_client_type 0,
     PB_FIELD 4 MESSAGE OPTIONAL STATIC OTHER gdt_cct_ClientInfo ClientInfo_ios_client_info ClientInfo_has_ios_client_info ClientInfo_client_type (lk At_IosClientInfo_fields),
     PB_LAST_FIELD]"

definition gdt_cct_BatchedLogRequest_fields :: "cct_link \<Rightarrow> pb_field list" where
  "gdt_cct_BatchedLogRequest_fields lk =
    [PB_FIELD 1 MESSAGE REPEATED POINTER FIRST gdt_cct_BatchedLogRequest BatchedLogRequest_log_request BatchedLogRequest_log_request_count BatchedLogRequest_log_request (lk At_LogRequest_fields),
     PB_LAST_FIELD]"

definition gdt_cct_LogRequest_fields :: "cct_link \<Rightarrow> pb_field list" where
  "gdt_cct_LogRequest_fields lk =
    [PB_FIELD 1 MESSAGE OPTIONAL STATIC FIRST gdt_cct_LogRequest LogRequest_client_info LogRequest_has_client_info LogRequest_client_info (lk At_ClientInfo_fields),
     PB_FIELD 2 INT32 OPTIONAL STATIC OTHER gdt_cct_LogRequest LogRequest_log_source LogRequest_has_log_source LogRequest_client_info 0,
     PB_FIELD 3 MESSAGE REPEATED POINTER OTHER gdt_cct_LogRequest LogRequest_log_event LogRequest_log_event_count LogRequest_log_source (lk At_LogEvent_fields),
     PB_FIELD 4 INT64 OPTIONAL STATIC OTHER gdt_cct_LogRequest LogRequest_request_time_ms LogRequest_has_request_time_ms LogRequest_log_event 0,
     PB_FIELD 8 INT64 OPTIONAL STATIC OTHER gdt_cct_LogRequest LogRequest_request_uptime_ms LogRequest_has_request_uptime_ms LogRequest_request_time_ms 0,
     PB_FIELD 9 UENUM OPTIONAL STATIC OTHER gdt_cct_LogRequest LogRequest_qos_tier LogRequest_has_qos_tier LogRequest_request_uptime_ms (lk At_LogRequest_qos_tier_default),
     PB_LAST_FIELD]"

definition gdt_cct_QosTierConfiguration_fields :: "cct_link \<Rightarrow> pb_field list" where
  "gdt_cct_QosTierConfiguration_fields lk =
    [PB_FIELD 2 UENUM OPTIONAL STATIC FIRST gdt_cct_QosTierConfiguration QosTierConfiguration_qos_tier QosTierConfiguration_has_qos_tier QosTierConfiguration_qos_tier 0,
     PB_FIELD 3 INT32 OPTIONAL STATIC OTHER gdt_cct_QosTierConfiguration QosTierConfiguration_log_source QosTierConfiguration_has_log_source QosTierConfiguration_qos_tier (lk At_QosTierConfiguration_log_source_default),
     PB_LAST_FIELD]"

definition gdt_cct_QosTiersOverride_fields :: "cct_link \<Rightarrow> pb_field list" where
  "gdt_cct_QosTiersOverride_fields lk =
    [PB_FIELD 1 MESSAGE REPEATED POINTER FIRST gdt_cct_QosTiersOverride QosTiersOverride_qos_tier_configuration QosTiersOverride_qos_tier_configuration_count QosTiersOverride_qos_tier_configuration (lk At_QosTierConfiguration_fields),
     PB_FIELD 2 INT64 OPTIONAL STATIC OTHER gdt_cct_QosTiersOverride QosTiersOverride_qos_tier_fingerprint QosTiersOverride_has_qos_tier_fingerprint QosTiersOverride_qos_tier_configuration 0,
     PB_LAST_FIELD]"

definition gdt_cct_LogResponse_fields :: "cct_link \<Rightarrow> pb_field list" where
  "gdt_cct_LogResponse_fields lk =
    [PB_FIELD 1 INT64 OPTIONAL STATIC FIRST gdt_cct_LogResponse LogResponse_next_request_wait_millis LogResponse_has_next_request_wait_millis LogResponse_next_request_wait_millis 0,
     PB_FIELD 3 MESSAGE OPTIONAL STATIC OTHER gdt_cct_LogResponse LogResponse_qos_tier LogResponse_has_qos_tier LogResponse_next_request_wait_millis (lk At_QosTiersOverride_fields),
     PB_LAST_FIELD]"

text \<open>The data member of each field and the member that says whether, how often or which.\<close>

definition gdt_cct_LogEvent_members :: "(gdt_cct_LogEvent_member \<times> gdt_cct_LogEvent_member) list" where
  "gdt_cct_LogEvent_members =
    [(LogEvent_event_time_ms, LogEvent_has_event_time_ms),
     (LogEvent_source_extension, LogEvent_source_extension),
     (LogEvent_event_code, LogEvent_has_event_code),
     (LogEvent_timezone_offset_seconds, LogEvent_has_timezone_offset_seconds),
     (LogEvent_event_uptime_ms, LogEvent_has_event_uptime_ms),
     (LogEvent_network_connection_info, LogEvent_has_network_connection_info)]"

definition gdt_cct_NetworkConnectionInfo_members :: "(gdt_cct_NetworkConnectionInfo_member \<times> gdt_cct_NetworkConnectionInfo_member) list" where
  "gdt_cct_NetworkConnectionInfo_members =
    [(NetworkConnectionInfo_network_type, NetworkConnectionInfo_has_network_type),
     (NetworkConnectionInfo_mobile_subtype, NetworkConnectionInfo_has_mobile_subtype)]"

definition gdt_cct_IosClientInfo_members :: "(gdt_cct_IosClientInfo_member \<times> gdt_cct_IosClientInfo_member) list" where
  "gdt_cct_IosClientInfo_members =
    [(IosClientInfo_os_major_version, IosClientInfo_os_major_version),
     (IosClientInfo_os_full_version, IosClientInfo_os_full_version),
     (IosClientInfo_application_build, IosClientInfo_application_build),
     (IosClientInfo_country, IosClientInfo_country),
     (IosClientInfo_model, IosClientInfo_model),
     (IosClientInfo_language_code, IosClientInfo_language_code),
     (IosClientInfo_application_bundle_id, IosClientInfo_application_bundle_id)]"

definition gdt_cct_ClientInfo_members :: "(gdt_cct_ClientInfo_member \<times> gdt_cct_ClientInfo_member) list" where
  "gdt_cct_ClientInfo_members =
    [(ClientInfo_client_type, ClientInfo_has_client_type),
     (ClientInfo_ios_client_info, ClientInfo_has_ios_client_info)]"

definition gdt_cct_BatchedLogRequest_members :: "(gdt_cct_BatchedLogRequest_member \<times> gdt_cct_BatchedLogRequest_member) list" where
  "gdt_cct_BatchedLogRequest_members =
    [(BatchedLogRequest_log_request, BatchedLogRequest_log_request_count)]"

definition gdt_cct_LogRequest_members :: "(gdt_cct_LogRequest_member \<times> gdt_cct_LogRequest_member) list" where
  "gdt_cct_LogRequest_members =
    [(LogRequest_client_info, LogRequest_has_client_info),
     (LogRequest_log_source, LogRequest_has_log_source),
     (LogRequest_log_event, LogRequest_log_event_count),
     (LogRequest_request_time_ms, LogRequest_has_request_time_ms),
     (LogRequest_request_uptime_ms, LogRequest_has_request_uptime_ms),
     (LogRequest_qos_tier, LogRequest_has_qos_tier)]"

definition gdt_cct_QosTierConfiguration_members :: "(gdt_cct_QosTierConfiguration_member \<times> gdt_cct_QosTierConfiguration_member) list" where
  "gdt_cct_QosTierConfiguration_members =
    [(QosTierConfiguration_qos_tier, QosTierConfiguration_has_qos_tier),
     (QosTierConfiguration_log_source, QosTierConfiguration_has_log_source)]"

definition gdt_cct_QosTiersOverride_members :: "(gdt_cct_QosTiersOverride_member \<times> gdt_cct_QosTiersOverride_member) list" where
  "gdt_cct_QosTiersOverride_members =
    [(QosTiersOverride_qos_tier_configuration, QosTiersOverride_qos_tier_configuration_count),
     (QosTiersOverride_qos_tier_fingerprint, QosTiersOverride_has_qos_tier_fingerprint)]"

definition gdt_cct_LogResponse_members :: "(gdt_cct_LogResponse_member \<times> gdt_cct_LogResponse_member) list" where
  "gdt_cct_LogResponse_members =
    [(LogResponse_next_request_wait_millis, LogResponse_has_next_request_wait_millis),
     (LogResponse_qos_tier, LogResponse_has_qos_tier)]"

end
