(* ===== verification/Core_Messages.thy ===== *)
theory Core_Messages imports Pb_Struct begin

text \<open>
  The generated files \<open>FIRCDLibrary/Protogen/nanopb/firebasecore.nanopb.h\<close> and
  \<open>firebasecore.nanopb.c\<close>: the message with which Firebase reports the configuration of the app.
\<close>

subsection \<open>Enumerations\<close>

datatype logs_proto_mobilesdk_ios_ICoreConfiguration_ConfigurationType =
  ConfigurationType_UNKNOWN_CONFIGURATION_TYPE
| ConfigurationType_CORE
| ConfigurationType_SDK

primrec logs_proto_mobilesdk_ios_ICoreConfiguration_ConfigurationType_value :: "logs_proto_mobilesdk_ios_ICoreConfiguration_ConfigurationType \<Rightarrow> int" where
  "logs_proto_mobilesdk_ios_ICoreConfiguration_ConfigurationType_value ConfigurationType_UNKNOWN_CONFIGURATION_TYPE = 0"
| "logs_proto_mobilesdk_ios_ICoreConfiguration_ConfigurationType_value ConfigurationType_CORE = 1"
| "logs_proto_mobilesdk_ios_ICoreConfiguration_ConfigurationType_value ConfigurationType_SDK = 2"

datatype logs_proto_mobilesdk_ios_ICoreConfiguration_BuildType =
  BuildType_UNKNOWN_BUILD_TYPE
| BuildType_INTERNAL
| BuildType_EAP
| BuildType_PROD

primrec logs_proto_mobilesdk_ios_ICoreConfiguration_BuildType_value :: "logs_proto_mobilesdk_ios_ICoreConfiguration_BuildType \<Rightarrow> int" where
  "logs_proto_mobilesdk_ios_ICoreConfiguration_BuildType_value BuildType_UNKNOWN_BUILD_TYPE = 0"
| "logs_proto_mobilesdk_ios_ICoreConfiguration_BuildType_value BuildType_INTERNAL = 1"
| "logs_proto_mobilesdk_ios_ICoreConfiguration_BuildType_value BuildType_EAP = 2"
| "logs_proto_mobilesdk_ios_ICoreConfiguration_BuildType_value BuildType_PROD = 3"

datatype logs_proto_mobilesdk_ios_ICoreConfiguration_ServiceType =
  ServiceType_UNKNOWN_SDK_SERVICE
| ServiceType_ICORE
| ServiceType_ADMOB
| ServiceType_APP_INVITE
| ServiceType_SIGN_IN
| ServiceType_GCM
| ServiceType_MAPS
| ServiceType_SCION
| ServiceType_ANALYTICS
| ServiceType_APP_INDEXING
| ServiceType_CONFIG
| ServiceType_DURABLE_DEEP_LINKS
| ServiceType_CRASH
| ServiceType_AUTH
| ServiceType_DATABASE
| ServiceType_STORAGE
| ServiceType_MESSAGING
| ServiceType_MEASUREMENT
| ServiceType_REMOTE_CONFIG
| ServiceType_DYNAMIC_LINKS
| ServiceType_INVITES
| ServiceType_AUTH_UI
| ServiceType_FIRESTORE
| ServiceType_PERFORMANCE
| ServiceType_ML_VISION_ON_DEVICE_FACE
| ServiceType_ML_VISION_ON_DEVICE_BARCODE
| ServiceType_ML_VISION_ON_DEVICE_TEXT
| ServiceType_ML_VISION_ON_DEVICE_LABEL
| ServiceType_ML_MODEL_INTERPRETER
| ServiceType_IN_APP_MESSAGING
| ServiceType_FUNCTIONS
| ServiceType_ML_NATURAL_LANGUAGE
| ServiceType_ML_VISION_ON_DEVICE_AUTOML
| ServiceType_ML_VISION_ON_DEVICE_OBJECT_DETECTION

primrec logs_proto_mobilesdk_ios_ICoreConfiguration_ServiceType_value :: "logs_proto_mobilesdk_ios_ICoreConfiguration_ServiceType \<Rightarrow> int" where
  "logs_proto_mobilesdk_ios_ICoreConfiguration_ServiceType_value ServiceType_UNKNOWN_SDK_SERVICE = 0"
| "logs_proto_mobilesdk_ios_ICoreConfiguration_ServiceType_value ServiceType_ICORE = 1"
| "logs_proto_mobilesdk_ios_ICoreConfiguration_ServiceType_value ServiceType_ADMOB = 2"
| "logs_proto_mobilesdk_ios_ICoreConfiguration_ServiceType_value ServiceType_APP_INVITE = 3"
| "logs_proto_mobilesdk_ios_ICoreConfiguration_ServiceType_value ServiceType_SIGN_IN = 5"
| "logs_proto_mobilesdk_ios_ICoreConfiguration_ServiceType_value ServiceType_GCM = 6"
| "logs_proto_mobilesdk_ios_ICoreConfiguration_ServiceType_value ServiceType_MAPS = 7"
| "logs_proto_mobilesdk_ios_ICoreConfiguration_ServiceType_value ServiceType_SCION = 8"
| "logs_proto_mobilesdk_ios_ICoreConfiguration_ServiceType_value ServiceType_ANALYTICS = 9"
| "logs_proto_mobilesdk_ios_ICoreConfiguration_ServiceType_value ServiceType_APP_INDEXING = 10"
| "logs_proto_mobilesdk_ios_ICoreConfiguration_ServiceType_value ServiceType_CONFIG = 11"
| "logs_proto_mobilesdk_ios_ICoreConfiguration_ServiceType_value ServiceType_DURABLE_DEEP_LINKS = 12"
| "logs_proto_mobilesdk_ios_ICoreConfiguration_ServiceType_value ServiceType_CRASH = 13"
| "logs_proto_mobilesdk_ios_ICoreConfiguration_ServiceType_value ServiceType_AUTH = 14"
| "logs_proto_mobilesdk_ios_ICoreConfiguration_ServiceType_value ServiceType_DATABASE = 15"
| "logs_proto_mobilesdk_ios_ICoreConfiguration_ServiceType_value ServiceType_STORAGE = 16"
| "logs_proto_mobilesdk_ios_ICoreConfiguration_ServiceType_value ServiceType_MESSAGING = 17"
| "logs_proto_mobilesdk_ios_ICoreConfiguration_ServiceType_value ServiceType_MEASUREMENT = 18"
| "logs_proto_mobilesdk_ios_ICoreConfiguration_ServiceType_value ServiceType_REMOTE_CONFIG = 19"
| "logs_proto_mobilesdk_ios_ICoreConfiguration_ServiceType_value ServiceType_DYNAMIC_LINKS = 20"
| "logs_proto_mobilesdk_ios_ICoreConfiguration_ServiceType_value ServiceType_INVITES = 21"
| "logs_proto_mobilesdk_ios_ICoreConfiguration_ServiceType_value ServiceType_AUTH_UI = 22"
| "logs_proto_mobilesdk_ios_ICoreConfiguration_ServiceType_value ServiceType_FIRESTORE = 23"
| "logs_proto_mobilesdk_ios_ICoreConfiguration_ServiceType_value ServiceType_PERFORMANCE = 24"
| "logs_proto_mobilesdk_ios_ICoreConfiguration_ServiceType_value ServiceType_ML_VISION_ON_DEVICE_FACE = 26"
| "logs_proto_mobilesdk_ios_ICoreConfiguration_ServiceType_value ServiceType_ML_VISION_ON_DEVICE_BARCODE = 27"
| "logs_proto_mobilesdk_ios_ICoreConfiguration_ServiceType_value ServiceType_ML_VISION_ON_DEVICE_TEXT = 28"
| "logs_proto_mobilesdk_ios_ICoreConfiguration_ServiceType_value ServiceType_ML_VISION_ON_DEVICE_LABEL = 29"
| "logs_proto_mobilesdk_ios_ICoreConfiguration_ServiceType_value ServiceType_ML_MODEL_INTERPRETER = 30"
| "logs_proto_mobilesdk_ios_ICoreConfiguration_ServiceType_value ServiceType_IN_APP_MESSAGING = 31"
| "logs_proto_mobilesdk_ios_ICoreConfiguration_ServiceType_value ServiceType_FUNCTIONS = 32"
| "logs_proto_mobilesdk_ios_ICoreConfiguration_ServiceType_value ServiceType_ML_NATURAL_LANGUAGE = 33"
| "logs_proto_mobilesdk_ios_ICoreConfiguration_ServiceType_value ServiceType_ML_VISION_ON_DEVICE_AUTOML = 34"
| "logs_proto_mobilesdk_ios_ICoreConfiguration_ServiceType_value ServiceType_ML_VISION_ON_DEVICE_OBJECT_DETECTION = 35"

datatype logs_proto_mobilesdk_ios_ICoreConfiguration_PodName =
  PodName_UNKNOWN_POD_NAME
| PodName_GOOGLE
| PodName_FIREBASE

primrec logs_proto_mobilesdk_ios_ICoreConfiguration_PodName_value :: "logs_proto_mobilesdk_ios_ICoreConfiguration_PodName \<Rightarrow> int" where
  "logs_proto_mobilesdk_ios_ICoreConfiguration_PodName_value PodName_UNKNOWN_POD_NAME = 0"
| "logs_proto_mobilesdk_ios_ICoreConfiguration_PodName_value PodName_GOOGLE = 1"
| "logs_proto_mobilesdk_ios_ICoreConfiguration_PodName_value PodName_FIREBASE = 2"

datatype logs_proto_mobilesdk_ios_ICoreConfiguration_DeploymentType =
  DeploymentType_UNKNOWN
| DeploymentType_COCOAPODS
| DeploymentType_ZIP_FILE
| DeploymentType_CARTHAGE
| DeploymentType_SPM

primrec logs_proto_mobilesdk_ios_ICoreConfiguration_DeploymentType_value :: "logs_proto_mobilesdk_ios_ICoreConfiguration_DeploymentType \<Rightarrow> int" where
  "logs_proto_mobilesdk_ios_ICoreConfiguration_DeploymentType_value DeploymentType_UNKNOWN = 0"
| "logs_proto_mobilesdk_ios_ICoreConfiguration_DeploymentType_value DeploymentType_COCOAPODS = 1"
| "logs_proto_mobilesdk_ios_ICoreConfiguration_DeploymentType_value DeploymentType_ZIP_FILE = 2"
| "logs_proto_mobilesdk_ios_ICoreConfiguration_DeploymentType_value DeploymentType_CARTHAGE = 3"
| "logs_proto_mobilesdk_ios_ICoreConfiguration_DeploymentType_value DeploymentType_SPM = 4"

subsection \<open>Structures\<close>

datatype logs_proto_mobilesdk_ios_ICoreConfiguration_member =
  ICoreConfiguration_has_configuration_type | ICoreConfiguration_configuration_type | ICoreConfiguration_sdk_service_installed_count | ICoreConfiguration_sdk_service_installed | ICoreConfiguration_device_model | ICoreConfiguration_app_id | ICoreConfiguration_bundle_id | ICoreConfiguration_has_pod_name | ICoreConfiguration_pod_name | ICoreConfiguration_icore_version | ICoreConfiguration_sdk_version | ICoreConfiguration_has_sdk_name | ICoreConfiguration_sdk_name | ICoreConfiguration_has_app_count | ICoreConfiguration_app_count | ICoreConfiguration_os_version | ICoreConfiguration_min_supported_ios_version | ICoreConfiguration_has_use_default_app | ICoreConfiguration_use_default_app | ICoreConfiguration_has_deployed_in_app_store | ICoreConfiguration_deployed_in_app_store | ICoreConfiguration_has_dynamic_framework_count | ICoreConfiguration_dynamic_framework_count | ICoreConfiguration_apple_framework_version | ICoreConfiguration_has_using_zip_file | ICoreConfiguration_using_zip_file | ICoreConfiguration_has_deployment_type | ICoreConfiguration_deployment_type | ICoreConfiguration_platform_info | ICoreConfiguration_has_swizzling_enabled | ICoreConfiguration_swizzling_enabled | ICoreConfiguration_has_using_gdt | ICoreConfiguration_using_gdt

definition logs_proto_mobilesdk_ios_ICoreConfiguration :: "logs_proto_mobilesdk_ios_ICoreConfiguration_member c_struct" where
  "logs_proto_mobilesdk_ios_ICoreConfiguration =
    [(ICoreConfiguration_has_configuration_type, C_bool),
     (ICoreConfiguration_configuration_type, C_enum),
     (ICoreConfiguration_sdk_service_installed_count, C_int32),
     (ICoreConfiguration_sdk_service_installed, C_ptr 4),
     (ICoreConfiguration_device_model, C_ptr (struct_sizeof pb_bytes_array_s)),
     (ICoreConfiguration_app_id, C_ptr (struct_sizeof pb_bytes_array_s)),
     (ICoreConfiguration_bundle_id, C_ptr (struct_sizeof pb_bytes_array_s)),
     (ICoreConfiguration_has_pod_name, C_bool),
     (ICoreConfiguration_pod_name, C_enum),
     (ICoreConfiguration_icore_version, C_ptr (struct_sizeof pb_bytes_array_s)),
     (ICoreConfiguration_sdk_version, C_ptr (struct_sizeof pb_bytes_array_s)),
     (ICoreConfiguration_has_sdk_name, C_bool),
     (ICoreConfiguration_sdk_name, C_enum),
     (ICoreConfiguration_has_app_count, C_bool),
     (ICoreConfiguration_app_count, C_int32),
     (ICoreConfiguration_os_version, C_ptr (struct_sizeof pb_bytes_array_s)),
     (ICoreConfiguration_min_supported_ios_version, C_ptr (struct_sizeof pb_bytes_array_s)),
     (ICoreConfiguration_has_use_default_app, C_bool),
     (ICoreConfiguration_use_default_app, C_bool),
     (ICoreConfiguration_has_deployed_in_app_store, C_bool),
     (ICoreConfiguration_deployed_in_app_store, C_bool),
     (ICoreConfiguration_has_dynamic_framework_count, C_bool),
     (ICoreConfiguration_dynamic_framework_count, C_int32),
     (ICoreConfiguration_apple_framework_version, C_ptr (struct_sizeof pb_bytes_array_s)),
     (ICoreConfiguration_has_using_zip_file, C_bool),
     (ICoreConfiguration_using_zip_file, C_bool),
     (ICoreConfiguration_has_deployment_type, C_bool),
     (ICoreConfiguration_deployment_type, C_enum),
     (ICoreConfiguration_platform_info, C_ptr (struct_sizeof pb_bytes_array_s)),
     (ICoreConfiguration_has_swizzling_enabled, C_bool),
     (ICoreConfiguration_swizzling_enabled, C_bool),
     (ICoreConfiguration_has_using_gdt, C_bool),
     (ICoreConfiguration_using_gdt, C_bool)]"

subsection \<open>Descriptors\<close>

definition logs_proto_mobilesdk_ios_ICoreConfiguration_fields :: "pb_field list" where
  "logs_proto_mobilesdk_ios_ICoreConfiguration_fields =
    [PB_FIELD 1 UENUM OPTIONAL STATIC FIRST logs_proto_mobilesdk_ios_ICoreConfiguration ICoreConfiguration_configuration_type ICoreConfiguration_has_configuration_type ICoreConfiguration_configuration_type 0,
     PB_FIELD 7 UENUM REPEATED POINTER OTHER logs_proto_mobilesdk_ios_ICoreConfiguration ICoreConfiguration_sdk_service_installed ICoreConfiguration_sdk_service_installed_count ICoreConfiguration_configuration_type 0,
     PB_FIELD 9 BYTES OPTIONAL POINTER OTHER logs_proto_mobilesdk_ios_ICoreConfiguration ICoreConfiguration_device_model ICoreConfiguration_device_model ICoreConfiguration_sdk_service_installed 0,
     PB_FIELD 10 BYTES OPTIONAL POINTER OTHER logs_proto_mobilesdk_ios_ICoreConfiguration ICoreConfiguration_app_id ICoreConfiguration_app_id ICoreConfiguration_device_model 0,
     PB_FIELD 12 BYTES OPTIONAL POINTER OTHER logs_proto_mobilesdk_ios_ICoreConfiguration ICoreConfiguration_bundle_id ICoreConfiguration_bundle_id ICoreConfiguration_app_id 0,
     PB_FIELD 16 UENUM OPTIONAL STATIC OTHER logs_proto_mobilesdk_ios_ICoreConfiguration ICoreConfiguration_pod_name ICoreConfiguration_has_pod_name ICoreConfiguration_bundle_id 0,
     PB_FIELD 18 BYTES OPTIONAL POINTER OTHER logs_proto_mobilesdk_ios_ICoreConfiguration ICoreConfiguration_icore_version ICoreConfiguration_icore_version ICoreConfiguration_pod_name 0,
     PB_FIELD 19 BYTES OPTIONAL POINTER OTHER logs_proto_mobilesdk_ios_ICoreConfiguration ICoreConfiguration_sdk_version ICoreConfiguration_sdk_version ICoreConfiguration_icore_version 0,
     PB_FIELD 20 UENUM OPTIONAL STATIC OTHER logs_proto_mobilesdk_ios_ICoreConfiguration ICoreConfiguration_sdk_name ICoreConfiguration_has_sdk_name ICoreConfiguration_sdk_version 0,
     PB_FIELD 21 INT32 OPTIONAL STATIC OTHER logs_proto_mobilesdk_ios_ICoreConfiguration ICoreConfiguration_app_count ICoreConfiguration_has_app_count ICoreConfiguration_sdk_name 0,
     PB_FIELD 22 BYTES OPTIONAL POINTER OTHER logs_proto_mobilesdk_ios_ICoreConfiguration ICoreConfiguration_os_version ICoreConfiguration_os_version ICoreConfiguration_app_count 0,
     PB_FIELD 24 BYTES OPTIONAL POINTER OTHER logs_proto_mobilesdk_ios_ICoreConfiguration ICoreConfiguration_min_supported_ios_version ICoreConfiguration_min_supported_ios_version ICoreConfiguration_os_version 0,
     PB_FIELD 25 BOOL OPTIONAL STATIC OTHER logs_proto_mobilesdk_ios_ICoreConfiguration ICoreConfiguration_use_default_app ICoreConfiguration_has_use_default_app ICoreConfiguration_min_supported_ios_version 0,
     PB_FIELD 26 BOOL OPTIONAL STATIC OTHER logs_proto_mobilesdk_ios_ICoreConfiguration ICoreConfiguration_deployed_in_app_store ICoreConfiguration_has_deployed_in_app_store ICoreConfiguration_use_default_app 0,
     PB_FIELD 27 INT32 OPTIONAL STATIC OTHER logs_proto_mobilesdk_ios_ICoreConfiguration ICoreConfiguration_dynamic_framework_count ICoreConfiguration_has_dynamic_framework_count ICoreConfiguration_deployed_in_app_store 0,
     PB_FIELD 28 BYTES OPTIONAL POINTER OTHER logs_proto_mobilesdk_ios_ICoreConfiguration ICoreConfiguration_apple_framework_version ICoreConfiguration_apple_framework_version ICoreConfiguration_dynamic_framework_count 0,
     PB_FIELD 29 BOOL OPTIONAL STATIC OTHER logs_proto_mobilesdk_ios_ICoreConfiguration ICoreConfiguration_using_zip_file ICoreConfiguration_has_using_zip_file ICoreConfiguration_apple_framework_version 0,
     PB_FIELD 30 UENUM OPTIONAL STATIC OTHER logs_proto_mobilesdk_ios_ICoreConfiguration ICoreConfiguration_deployment_type ICoreConfiguration_has_deployment_type ICoreConfiguration_using_zip_file 0,
     PB_FIELD 31 BYTES OPTIONAL POINTER OTHER logs_proto_mobilesdk_ios_ICoreConfiguration ICoreConfiguration_platform_info ICoreConfiguration_platform_info ICoreConfiguration_deployment_type 0,
     PB_FIELD 33 BOOL OPTIONAL STATIC OTHER logs_proto_mobilesdk_ios_ICoreConfiguration ICoreConfiguration_swizzling_enabled ICoreConfiguration_has_swizzling_enabled ICoreConfiguration_platform_info 0,
     PB_FIELD 36 BOOL OPTIONAL STATIC OTHER logs_proto_mobilesdk_ios_ICoreConfiguration ICoreConfiguration_using_gdt ICoreConfiguration_has_using_gdt ICoreConfiguration_swizzling_enabled 0,
     PB_LAST_FIELD]"

text \<open>The data member of each field and the member that says whether, how often or which.\<close>

definition logs_proto_mobilesdk_ios_ICoreConfiguration_members :: "(logs_proto_mobilesdk_ios_ICoreConfiguration_member \<times> logs_proto_mobilesdk_ios_ICoreConfiguration_member) list" where
  "logs_proto_mobilesdk_ios_ICoreConfiguration_members =
    [(ICoreConfiguration_configuration_type, ICoreConfiguration_has_configuration_type),
     (ICoreConfiguration_sdk_service_installed, ICoreConfiguration_sdk_service_installed_count),
     (ICoreConfiguration_device_model, ICoreConfiguration_device_model),
     (ICoreConfiguration_app_id, ICoreConfiguration_app_id),
     (ICoreConfiguration_bundle_id, ICoreConfiguration_bundle_id),
     (ICoreConfiguration_pod_name, ICoreConfiguration_has_pod_name),
     (ICoreConfiguration_icore_version, ICoreConfiguration_icore_version),
     (ICoreConfiguration_sdk_version, ICoreConfiguration_sdk_version),
     (ICoreConfiguration_sdk_name, ICoreConfiguration_has_sdk_name),
     (ICoreConfiguration_app_count, ICoreConfiguration_has_app_count),
     (ICoreConfiguration_os_version, ICoreConfiguration_os_version),
     (ICoreConfiguration_min_supported_ios_version, ICoreConfiguration_min_supported_ios_version),
     (ICoreConfiguration_use_default_app, ICoreConfiguration_has_use_default_app),
     (ICoreConfiguration_deployed_in_app_store, ICoreConfiguration_has_deployed_in_app_store),
     (ICoreConfiguration_dynamic_framework_count, ICoreConfiguration_has_dynamic_framework_count),
     (ICoreConfiguration_apple_framework_version, ICoreConfiguration_apple_framework_version),
     (ICoreConfiguration_using_zip_file, ICoreConfiguration_has_using_zip_file),
     (ICoreConfiguration_deployment_type, ICoreConfiguration_has_deployment_type),
     (ICoreConfiguration_platform_info, ICoreConfiguration_platform_info),
     (ICoreConfiguration_swizzling_enabled, ICoreConfiguration_has_swizzling_enabled),
     (ICoreConfiguration_using_gdt, ICoreConfiguration_has_using_gdt)]"

end
