(* ===== verification/Pb_Messages.thy ===== *)
theory Pb_Messages imports Cct_Messages Core_Messages Pb_Encode_Total Pb_Mem_Safety begin

text \<open>
  What the encoder and decoder of nanopb do with the descriptors of the generated files: their
  iterators find the members of the C structures, and the small messages have the bytes and the sizes
  that belong to the tags and types of their members.
\<close>

subsection \<open>The iterator finds the members\<close>

text \<open>Where the iterator puts the data and the has, count or which pointer of each field of a message
  at \<open>d\<close>, and where the compiler has put the members.\<close>

definition field_pointers :: "pb_field list \<Rightarrow> ptr \<Rightarrow> (ptr \<times> slot) list" where
  "field_pointers fs d = map (\<lambda>k. (pData (iter_nth fs d k), pSize (iter_nth fs d k))) [0..<n_fields fs]"

definition member_pointers :: "'m c_struct \<Rightarrow> ('m \<times> 'm) list \<Rightarrow> ptr \<Rightarrow> (ptr \<times> slot) list" where
  "member_pointers st ms d =
     map (\<lambda>(m, aux). (d + of_int (c_offsetof st m), Slot (d + of_int (c_offsetof st aux)))) ms"

lemma field_pointers_members:
  assumes "describes_code fs st ms"
  shows "field_pointers fs d = member_pointers st ms d"
proof -
  note d = describes_code [OF assms]
  then have n: "n_fields fs = length ms" by (simp add: describes_def)
  show ?thesis
    unfolding field_pointers_def member_pointers_def n
    by (rule nth_equalityI) (simp_all add: describes_pointers [OF d] split_beta)
qed

lemma cct_described:
  "describes_code (gdt_cct_LogEvent_fields lk) gdt_cct_LogEvent gdt_cct_LogEvent_members"
  "describes_code (gdt_cct_NetworkConnectionInfo_fields lk) gdt_cct_NetworkConnectionInfo
     gdt_cct_NetworkConnectionInfo_members"
  "describes_code (gdt_cct_IosClientInfo_fields lk) gdt_cct_IosClientInfo gdt_cct_IosClientInfo_members"
  "describes_code (gdt_cct_ClientInfo_fields lk) gdt_cct_ClientInfo gdt_cct_ClientInfo_members"
  "describes_code (gdt_cct_BatchedLogRequest_fields lk) gdt_cct_BatchedLogRequest
     gdt_cct_BatchedLogRequest_members"
  "describes_code (gdt_cct_LogRequest_fields lk) gdt_cct_LogRequest gdt_cct_LogRequest_members"
  "describes_code (gdt_cct_QosTierConfiguration_fields lk) gdt_cct_QosTierConfiguration
     gdt_cct_QosTierConfiguration_members"
  "describes_code (gdt_cct_QosTiersOverride_fields lk) gdt_cct_QosTiersOverride
     gdt_cct_QosTiersOverride_members"
  "describes_code (gdt_cct_LogResponse_fields lk) gdt_cct_LogResponse gdt_cct_LogResponse_members"
  by code_simp+

lemma ios_core_described:
  "describes_code logs_proto_mobilesdk_ios_ICoreConfiguration_fields
     logs_proto_mobilesdk_ios_ICoreConfiguration logs_proto_mobilesdk_ios_ICoreConfiguration_members"
  by code_simp

text \<open>C14: the descriptors of the upload messages and of the core configuration report name the members of their structures: on a message at
  any address the iterator steps through exactly the member addresses of the C structure, each with
  its has or count member, wherever the linker has put the tables.\<close>

theorem cct_fields_point_to_members:
  "field_pointers (gdt_cct_LogEvent_fields lk) d
     = member_pointers gdt_cct_LogEvent gdt_cct_LogEvent_members d
   \<and> field_pointers (gdt_cct_NetworkConnectionInfo_fields lk) d
     = member_pointers gdt_cct_NetworkConnectionInfo gdt_cct_NetworkConnectionInfo_members d
   \<and> field_pointers (gdt_cct_IosClientInfo_fields lk) d
     = member_pointers gdt_cct_IosClientInfo gdt_cct_IosClientInfo_members d
   \<and> field_pointers (gdt_cct_ClientInfo_fields lk) d
     = member_pointers gdt_cct_ClientInfo gdt_cct_ClientInfo_members d
   \<and> field_pointers (gdt_cct_BatchedLogRequest_fields lk) d
     = member_pointers gdt_cct_BatchedLogRequest gdt_cct_BatchedLogRequest_members d
   \<and> field_pointers (gdt_cct_LogRequest_fields lk) d
     = member_pointers gdt_cct_LogRequest gdt_cct_LogRequest_members d
   \<and> field_pointers (gdt_cct_QosTierConfiguration_fields lk) d
     = member_pointers gdt_cct_QosTierConfiguration gdt_cct_QosTierConfiguration_members d
   \<and> field_pointers (gdt_cct_QosTiersOverride_fields lk) d
     = member_pointers gdt_cct_QosTiersOverride gdt_cct_QosTiersOverride_members d
   \<and> field_pointers (gdt_cct_LogResponse_fields lk) d
     = member_pointers gdt_cct_LogResponse gdt_cct_LogResponse_members d
   \<and> field_pointers logs_proto_mobilesdk_ios_ICoreConfiguration_fields d
     = member_pointers logs_proto_mobilesdk_ios_ICoreConfiguration
         logs_proto_mobilesdk_ios_ICoreConfiguration_members d"
  by (intro conjI field_pointers_members cct_described ios_core_described)

subsection \<open>The size of the small messages\<close>

lemma encoded_size:
  assumes "callbacks_realise e h cb xt"
    and "message_code n cb xt e h fs d = Some (True, xs)" and "length xs < 2 ^ 64"
  shows "pb_get_encoded_size n e h fs d = Some (Some (of_nat (length xs)))"
  using realisesD [OF realises_message [OF assms(1)] assms(2) ready_sizing]
  by (auto simp: outcome_def pb_get_encoded_size_def writes_def PB_OSTREAM_SIZING_def fits_def)

lemma callbacks_realise_None [simp]: "callbacks_realise e h (\<lambda>_ _ _. None) (\<lambda>_ _. None)"
  by (simp add: callbacks_put_def)

text \<open>The encoding of an optional static \<open>enum\<close> or \<open>int32_t\<close> with a has member.\<close>

definition optional_int32 :: "pb_field \<Rightarrow> bool" where
  "optional_int32 f \<longleftrightarrow> ftype f \<in> {0x11, 0x12} \<and> data_size f = 4 \<and> size_offset f \<noteq> 0"

definition int32_code :: "heap \<Rightarrow> pb_field \<Rightarrow> ptr \<Rightarrow> byte list" where
  "int32_code h f p =
     (if safe_read_bool h (p + scast (size_offset f))
      then tag_code PB_WT_VARINT (tag f)
        @ varint_code (if ftype f = 0x11 then scast (load32 h p) else ucast (load32 h p))
      else [])"

lemma field_code_int32:
  assumes "optional_int32 f"
  shows "field_code sub cb n e h f p = Some (True, int32_code h f p)"
proof -
  have t: "PB_ATYPE (ftype f) = PB_ATYPE_STATIC" "PB_HTYPE (ftype f) = PB_HTYPE_OPTIONAL"
    "PB_LTYPE (ftype f) = (if ftype f = 0x11 then PB_LTYPE_VARINT else PB_LTYPE_UVARINT)"
    using assms by (auto simp: optional_int32_def type_code_defs)
  have tag: "field_tag_code f = code_ok (tag_code PB_WT_VARINT (tag f))"
    by (simp add: field_tag_code_def wire_type_of_def t)
  have val: "value_code sub e h f p =
      code_ok (varint_code (if ftype f = 0x11 then scast (load32 h p) else ucast (load32 h p)))"
    using assms
    by (simp add: value_code_def t Let_def signed_code_def unsigned_code_def load_signed_def
        load_unsigned_def optional_int32_def)
  show ?thesis
    using assms
    by (simp add: field_code_def basic_field_code_def int32_code_def Let_def t tag val
        optional_int32_def code_ok_def code_seq_def)
qed

lemma unat_ucast_u32: "unat (ucast (w :: u32) :: u64) = unat w"
  by transfer (simp add: take_bit_take_bit)

lemma length_int32_code:
  assumes t: "length (tag_code PB_WT_VARINT (tag f)) = 1"
  shows "length (int32_code h f p) \<le> 11"
    and "\<lbrakk>ftype f = 0x12; unat (load32 h p) < 128\<rbrakk> \<Longrightarrow> length (int32_code h f p) \<le> 2"
proof -
  from t show "length (int32_code h f p) \<le> 11"
    using length_varint_code [of "scast (load32 h p)"] length_varint_code [of "ucast (load32 h p)"]
    by (simp add: int32_code_def)
  show "length (int32_code h f p) \<le> 2" if "ftype f = 0x12" "unat (load32 h p) < 128"
  proof -
    have "length (varint_code (ucast (load32 h p))) \<le> 1"
      using that(2) by (subst length_varint_code_le_iff) (simp_all add: unat_ucast_u32)
    with t show ?thesis by (simp add: int32_code_def that)
  qed
qed

lemma members_described:
  assumes "describes_code fs st ms"
  shows "members fs d = map (\<lambda>(f, m, aux). (f, d + of_int (c_offsetof st m))) (zip fs ms)"
proof -
  note d = describes_code [OF assms]
  have n: "n_fields fs = length ms" "length fs = Suc (length ms)"
    using assms by (simp_all add: describes_code_def)
  show ?thesis
    unfolding members_def n
    by (rule nth_equalityI) (use d n in \<open>simp_all add: describes_def list_all_length field_at_def split_beta\<close>)
qed

lemma two_int32_code:
  assumes "members fs d = [(f, p), (g, q)]" and "optional_int32 f" "optional_int32 g"
  shows "message_code (Suc n) cb xt e h fs d = Some (True, int32_code h f p @ int32_code h g q)"
proof -
  have "PB_LTYPE (ftype f) \<noteq> PB_LTYPE_EXTENSION" "PB_LTYPE (ftype g) \<noteq> PB_LTYPE_EXTENSION"
    using assms(2,3) by (auto simp: optional_int32_def type_code_defs)
  with assms show ?thesis
    by (simp add: Let_def field_code_int32 code_seq_def code_ok_def)
qed

lemma two_int32_size:
  assumes "members fs d = [(f, p), (g, q)]" and "optional_int32 f" "optional_int32 g"
    and tags: "length (tag_code PB_WT_VARINT (tag f)) = 1" "length (tag_code PB_WT_VARINT (tag g)) = 1"
    and small: "ftype f = 0x12 \<and> unat (load32 h p) < 128 \<or> ftype g = 0x12 \<and> unat (load32 h q) < 128"
  shows "\<exists>size. pb_get_encoded_size (Suc n) e h fs d = Some (Some size) \<and> unat size \<le> 13"
proof -
  let ?xs = "int32_code h f p @ int32_code h g q"
  have "length (int32_code h f p) \<le> 2 \<or> length (int32_code h g q) \<le> 2"
    using small length_int32_code(2) tags by blast
  with length_int32_code(1) [OF tags(1), of h p] length_int32_code(1) [OF tags(2), of h q]
  have n: "length ?xs \<le> 13" "length ?xs < 2 ^ 64" by auto
  then have "unat (of_nat (length ?xs) :: csize) \<le> 13"
    by (simp add: unat_of_nat take_bit_nat_eq_self del: of_nat_add length_append)
  with encoded_size [OF callbacks_realise_None two_int32_code [OF assms(1-3)] n(2), of n e]
  show ?thesis by blast
qed

text \<open>The address of a member of the structure at \<open>d\<close>.\<close>

definition member_at :: "'m c_struct \<Rightarrow> ptr \<Rightarrow> 'm \<Rightarrow> ptr" where
  "member_at st d m = d + of_int (c_offsetof st m)"

lemma network_info_members:
  "members (gdt_cct_NetworkConnectionInfo_fields lk) d =
     [(field_at (gdt_cct_NetworkConnectionInfo_fields lk) 0,
       member_at gdt_cct_NetworkConnectionInfo d NetworkConnectionInfo_network_type),
      (field_at (gdt_cct_NetworkConnectionInfo_fields lk) 1,
       member_at gdt_cct_NetworkConnectionInfo d NetworkConnectionInfo_mobile_subtype)]"
  unfolding members_described [OF cct_described(2)]
  by (simp add: gdt_cct_NetworkConnectionInfo_members_def gdt_cct_NetworkConnectionInfo_fields_def
      field_at_def member_at_def)

lemma qos_tier_members:
  "members (gdt_cct_QosTierConfiguration_fields lk) d =
     [(field_at (gdt_cct_QosTierConfiguration_fields lk) 0,
       member_at gdt_cct_QosTierConfiguration d QosTierConfiguration_qos_tier),
      (field_at (gdt_cct_QosTierConfiguration_fields lk) 1,
       member_at gdt_cct_QosTierConfiguration d QosTierConfiguration_log_source)]"
  unfolding members_described [OF cct_described(7)]
  by (simp add: gdt_cct_QosTierConfiguration_members_def gdt_cct_QosTierConfiguration_fields_def
      field_at_def member_at_def)

lemma two_int32_fields:
  "optional_int32 (field_at (gdt_cct_NetworkConnectionInfo_fields lk) 0)"
  "optional_int32 (field_at (gdt_cct_NetworkConnectionInfo_fields lk) 1)"
  "optional_int32 (field_at (gdt_cct_QosTierConfiguration_fields lk) 0)"
  "optional_int32 (field_at (gdt_cct_QosTierConfiguration_fields lk) 1)"
  by code_simp+

lemma network_info_size:
  assumes "load32 h (member_at gdt_cct_NetworkConnectionInfo d NetworkConnectionInfo_mobile_subtype)
      = of_int (gdt_cct_NetworkConnectionInfo_MobileSubtype_value subtype)"
  shows "\<exists>size. pb_get_encoded_size (Suc n) e h (gdt_cct_NetworkConnectionInfo_fields lk) d
      = Some (Some size) \<and> unat size \<le> 13"
proof (rule two_int32_size [OF network_info_members two_int32_fields(1,2)])
  let ?fs = "gdt_cct_NetworkConnectionInfo_fields lk"
  show "length (tag_code PB_WT_VARINT (tag (field_at ?fs 0))) = 1"
    "length (tag_code PB_WT_VARINT (tag (field_at ?fs 1))) = 1"
    by code_simp+
  have "ftype (field_at ?fs 1) = 0x12" by code_simp
  moreover have "unat (of_int (gdt_cct_NetworkConnectionInfo_MobileSubtype_value subtype) :: u32) < 128"
    by (cases subtype) simp_all
  ultimately show "ftype (field_at ?fs 0) = 0x12
      \<and> unat (load32 h (member_at gdt_cct_NetworkConnectionInfo d NetworkConnectionInfo_network_type)) < 128
    \<or> ftype (field_at ?fs 1) = 0x12
      \<and> unat (load32 h (member_at gdt_cct_NetworkConnectionInfo d NetworkConnectionInfo_mobile_subtype)) < 128"
    using assms by simp
qed

definition zero_heap :: heap where
  "zero_heap = \<lparr>hmem = \<lambda>_. 0, hblocks = \<lambda>_. None, hfault = False, hfixed = 0\<rparr>"

text \<open>A message in zeroed memory but for the first member, \<open>NONE\<close>, and both has members.\<close>

definition network_info_heap :: heap where
  "network_info_heap = store8 0x1000 1 (store32 0x1004 (- 1) (store8 0x1008 1 zero_heap))"

lemma qos_tier_size:
  assumes "load32 h (member_at gdt_cct_QosTierConfiguration d QosTierConfiguration_qos_tier)
      = of_int (gdt_cct_QosTierConfiguration_QosTier_value tier)"
  shows "\<exists>size. pb_get_encoded_size (Suc n) e h (gdt_cct_QosTierConfiguration_fields lk) d
      = Some (Some size) \<and> unat size \<le> 13"
proof (rule two_int32_size [OF qos_tier_members two_int32_fields(3,4)])
  let ?fs = "gdt_cct_QosTierConfiguration_fields lk"
  show "length (tag_code PB_WT_VARINT (tag (field_at ?fs 0))) = 1"
    "length (tag_code PB_WT_VARINT (tag (field_at ?fs 1))) = 1"
    by code_simp+
  have "ftype (field_at ?fs 0) = 0x12" by code_simp
  moreover have "unat (of_int (gdt_cct_QosTierConfiguration_QosTier_value tier) :: u32) < 128"
    by (cases tier) simp_all
  ultimately show "ftype (field_at ?fs 0) = 0x12
      \<and> unat (load32 h (member_at gdt_cct_QosTierConfiguration d QosTierConfiguration_qos_tier)) < 128
    \<or> ftype (field_at ?fs 1) = 0x12
      \<and> unat (load32 h (member_at gdt_cct_QosTierConfiguration d QosTierConfiguration_log_source)) < 128"
    using assms by simp
qed

text \<open>C16: the macros \<open>gdt_cct_NetworkConnectionInfo_size\<close> and \<open>gdt_cct_QosTierConfiguration_size\<close>: if the subtype
  and the tier hold one of their enum values, the encoding of each message takes at most 13 bytes, whatever
  the rest of memory holds.\<close>

theorem cct_message_sizes:
  assumes "load32 h (member_at gdt_cct_NetworkConnectionInfo d NetworkConnectionInfo_mobile_subtype)
      = of_int (gdt_cct_NetworkConnectionInfo_MobileSubtype_value subtype)"
    and "load32 h (member_at gdt_cct_QosTierConfiguration d' QosTierConfiguration_qos_tier)
      = of_int (gdt_cct_QosTierConfiguration_QosTier_value tier)"
  shows "(\<exists>size. pb_get_encoded_size (Suc n) e h (gdt_cct_NetworkConnectionInfo_fields lk) d
      = Some (Some size) \<and> unat size \<le> 13)
    \<and> (\<exists>size. pb_get_encoded_size (Suc n) e h (gdt_cct_QosTierConfiguration_fields lk) d'
      = Some (Some size) \<and> unat size \<le> 13)"
  using network_info_size [OF assms(1)] qos_tier_size [OF assms(2)] by (rule conjI)

theorem cct_message_sizes_witness:
  "(\<exists>size. pb_get_encoded_size 1 plain_env network_info_heap (gdt_cct_NetworkConnectionInfo_fields (\<lambda>_. 0)) 0x1000
      = Some (Some size) \<and> unat size \<le> 13)
   \<and> pb_get_encoded_size 1 plain_env network_info_heap (gdt_cct_NetworkConnectionInfo_fields (\<lambda>_. 0)) 0x1000
      = Some (Some 13)"
proof
  have "load32 network_info_heap (member_at gdt_cct_NetworkConnectionInfo 0x1000 NetworkConnectionInfo_mobile_subtype)
      = of_int (gdt_cct_NetworkConnectionInfo_MobileSubtype_value MobileSubtype_UNKNOWN_MOBILE_SUBTYPE)"
    by code_simp
  moreover have "load32 network_info_heap (member_at gdt_cct_QosTierConfiguration 0x2000 QosTierConfiguration_qos_tier)
      = of_int (gdt_cct_QosTierConfiguration_QosTier_value QosTier_DEFAULT)"
    by code_simp
  ultimately show "\<exists>size. pb_get_encoded_size 1 plain_env network_info_heap
      (gdt_cct_NetworkConnectionInfo_fields (\<lambda>_. 0)) 0x1000 = Some (Some size) \<and> unat size \<le> 13"
    using cct_message_sizes [of network_info_heap "0x1000" _ "0x2000" _ 0 plain_env "\<lambda>_. 0", THEN conjunct1]
    by (simp only: One_nat_def)
  show "pb_get_encoded_size 1 plain_env network_info_heap (gdt_cct_NetworkConnectionInfo_fields (\<lambda>_. 0)) 0x1000
      = Some (Some 13)"
    by code_simp
qed

subsection \<open>The bytes of the small messages\<close>

text \<open>An optional integer in the protocol buffer encoding: if it is there, the byte of its tag and a varint, of the
  64-bit sign extension for an \<open>int32\<close>.\<close>

definition optional_code :: "bool \<Rightarrow> byte \<Rightarrow> u64 \<Rightarrow> byte list" where
  "optional_code has tg v = (if has then tg # varint_code v else [])"

lemma length_optional_code: "length (optional_code has tg v) \<le> 11"
  using length_varint_code [of v] by (simp add: optional_code_def)

lemma int32_optional_code:
  assumes "tag_code PB_WT_VARINT (tag f) = [tg]" and "p + scast (size_offset f) = q"
  shows "int32_code h f p = optional_code (safe_read_bool h q) tg
    (if ftype f = 0x11 then scast (load32 h p) else ucast (load32 h p))"
  by (simp add: int32_code_def optional_code_def assms)

lemma network_info_fields:
  "tag_code PB_WT_VARINT (tag (field_at (gdt_cct_NetworkConnectionInfo_fields lk) 0)) = [0x08]"
  "tag_code PB_WT_VARINT (tag (field_at (gdt_cct_NetworkConnectionInfo_fields lk) 1)) = [0x10]"
  "ftype (field_at (gdt_cct_NetworkConnectionInfo_fields lk) 0) = 0x11"
  "ftype (field_at (gdt_cct_NetworkConnectionInfo_fields lk) 1) = 0x12"
  "of_int (c_offsetof gdt_cct_NetworkConnectionInfo NetworkConnectionInfo_network_type)
     + scast (size_offset (field_at (gdt_cct_NetworkConnectionInfo_fields lk) 0))
   = (of_int (c_offsetof gdt_cct_NetworkConnectionInfo NetworkConnectionInfo_has_network_type) :: ptr)"
  "of_int (c_offsetof gdt_cct_NetworkConnectionInfo NetworkConnectionInfo_mobile_subtype)
     + scast (size_offset (field_at (gdt_cct_NetworkConnectionInfo_fields lk) 1))
   = (of_int (c_offsetof gdt_cct_NetworkConnectionInfo NetworkConnectionInfo_has_mobile_subtype) :: ptr)"
  by code_simp+

lemma qos_tier_fields:
  "tag_code PB_WT_VARINT (tag (field_at (gdt_cct_QosTierConfiguration_fields lk) 0)) = [0x10]"
  "tag_code PB_WT_VARINT (tag (field_at (gdt_cct_QosTierConfiguration_fields lk) 1)) = [0x18]"
  "ftype (field_at (gdt_cct_QosTierConfiguration_fields lk) 0) = 0x12"
  "ftype (field_at (gdt_cct_QosTierConfiguration_fields lk) 1) = 0x11"
  "of_int (c_offsetof gdt_cct_QosTierConfiguration QosTierConfiguration_qos_tier)
     + scast (size_offset (field_at (gdt_cct_QosTierConfiguration_fields lk) 0))
   = (of_int (c_offsetof gdt_cct_QosTierConfiguration QosTierConfiguration_has_qos_tier) :: ptr)"
  "of_int (c_offsetof gdt_cct_QosTierConfiguration QosTierConfiguration_log_source)
     + scast (size_offset (field_at (gdt_cct_QosTierConfiguration_fields lk) 1))
   = (of_int (c_offsetof gdt_cct_QosTierConfiguration QosTierConfiguration_has_log_source) :: ptr)"
  by code_simp+

text \<open>The two messages: the members with their tags and types in the header.\<close>

definition network_info_code :: "heap \<Rightarrow> ptr \<Rightarrow> byte list" where
  "network_info_code h d =
     optional_code (safe_read_bool h (member_at gdt_cct_NetworkConnectionInfo d NetworkConnectionInfo_has_network_type))
       0x08 (scast (load32 h (member_at gdt_cct_NetworkConnectionInfo d NetworkConnectionInfo_network_type)))
     @ optional_code (safe_read_bool h (member_at gdt_cct_NetworkConnectionInfo d NetworkConnectionInfo_has_mobile_subtype))
       0x10 (ucast (load32 h (member_at gdt_cct_NetworkConnectionInfo d NetworkConnectionInfo_mobile_subtype)))"

definition qos_tier_code :: "heap \<Rightarrow> ptr \<Rightarrow> byte list" where
  "qos_tier_code h d =
     optional_code (safe_read_bool h (member_at gdt_cct_QosTierConfiguration d QosTierConfiguration_has_qos_tier))
       0x10 (ucast (load32 h (member_at gdt_cct_QosTierConfiguration d QosTierConfiguration_qos_tier)))
     @ optional_code (safe_read_bool h (member_at gdt_cct_QosTierConfiguration d QosTierConfiguration_has_log_source))
       0x18 (scast (load32 h (member_at gdt_cct_QosTierConfiguration d QosTierConfiguration_log_source)))"

lemma message_codes:
  "message_code (Suc n) cb xt e h (gdt_cct_NetworkConnectionInfo_fields lk) d = Some (True, network_info_code h d)"
  "message_code (Suc n) cb xt e h (gdt_cct_QosTierConfiguration_fields lk) d = Some (True, qos_tier_code h d)"
  unfolding two_int32_code [OF network_info_members two_int32_fields(1,2)]
    two_int32_code [OF qos_tier_members two_int32_fields(3,4)]
  by (simp_all add: int32_optional_code [OF network_info_fields(1) refl] int32_optional_code [OF network_info_fields(2) refl]
      int32_optional_code [OF qos_tier_fields(1) refl] int32_optional_code [OF qos_tier_fields(2) refl]
      network_info_fields qos_tier_fields member_at_def add.assoc network_info_code_def qos_tier_code_def
      del: One_nat_def)

lemma encode_fits:
  assumes "message_code n (\<lambda>_ _ _. None) (\<lambda>_ _. None) e h fs d = Some (True, xs)" and "length xs \<le> 22"
    and "22 \<le> unat bufsize"
  shows "\<exists>t. pb_encode n e h fs d (pb_ostream_from_buffer bufsize) = Some (True, t)
     \<and> os_sink t = Buf_write xs (unat bufsize - length xs)"
proof -
  have "ready (pb_ostream_from_buffer bufsize) (length xs)" using assms(2) by (intro ready_from_buffer) simp
  from realisesD [OF realises_message [OF callbacks_realise_None] assms(1) this] assms(2,3)
  show ?thesis by (simp add: outcome_def writes_from_buffer)
qed

text \<open>C15: the bytes of a network connection info and of a quality of service tier configuration. Whatever
  is in memory, \<open>pb_encode\<close> with the generated descriptor and a buffer of at least 22 bytes writes exactly the
  encoding of the members of the C structure at \<open>d\<close>: each member whose has member is set, in the
  order of the tags, as the byte of its tag and its value as a varint.\<close>

theorem cct_messages_encode:
  assumes "22 \<le> unat bufsize"
  shows "(\<exists>t. pb_encode (Suc n) e h (gdt_cct_NetworkConnectionInfo_fields lk) d (pb_ostream_from_buffer bufsize) = Some (True, t)
      \<and> os_sink t = Buf_write (network_info_code h d) (unat bufsize - length (network_info_code h d)))
    \<and> (\<exists>t. pb_encode (Suc n) e h (gdt_cct_QosTierConfiguration_fields lk) d (pb_ostream_from_buffer bufsize) = Some (True, t)
      \<and> os_sink t = Buf_write (qos_tier_code h d) (unat bufsize - length (qos_tier_code h d)))"
proof -
  have two: "length (optional_code a x v @ optional_code b y w) \<le> 22" for a b x y v w
    using length_optional_code [of a x v] length_optional_code [of b y w] by simp
  have "length (network_info_code h d) \<le> 22" "length (qos_tier_code h d) \<le> 22"
    unfolding network_info_code_def qos_tier_code_def by (rule two)+
  then show ?thesis using encode_fits [OF message_codes(1) _ assms] encode_fits [OF message_codes(2) _ assms] by blast
qed

theorem cct_messages_encode_witness:
  "(\<exists>t. pb_encode 1 plain_env network_info_heap (gdt_cct_NetworkConnectionInfo_fields (\<lambda>_. 0)) 0x1000
       (pb_ostream_from_buffer 32) = Some (True, t) \<and> os_sink t = Buf_write (network_info_code network_info_heap 0x1000) 19)
   \<and> network_info_code network_info_heap 0x1000
       = [0x08, 0xFF, 0xFF, 0xFF, 0xFF, 0xFF, 0xFF, 0xFF, 0xFF, 0xFF, 0x01, 0x10, 0x00]"
proof
  show code: "network_info_code network_info_heap 0x1000
       = [0x08, 0xFF, 0xFF, 0xFF, 0xFF, 0xFF, 0xFF, 0xFF, 0xFF, 0xFF, 0x01, 0x10, 0x00]"
    by code_simp
  have "22 \<le> unat (32 :: csize)" by simp
  from cct_messages_encode [OF this, of 0 plain_env network_info_heap "\<lambda>_. 0" "0x1000"]
  show "\<exists>t. pb_encode 1 plain_env network_info_heap (gdt_cct_NetworkConnectionInfo_fields (\<lambda>_. 0)) 0x1000
       (pb_ostream_from_buffer 32) = Some (True, t) \<and> os_sink t = Buf_write (network_info_code network_info_heap 0x1000) 19"
    by (simp add: code)
qed

end
