(* ===== verification/FBase64.thy ===== *)
theory FBase64 imports Prelude begin

text \<open>
  \<open>FirebaseDatabase/Sources/third_party/SocketRocket/fbase64.c\<close>: the base64 encoder \<open>f_b64_ntop\<close>
  and the decoder \<open>f_b64_pton\<close>, against the alphabet and the 24-bit groups that the comment of the
  file describes. The target buffer is the list of its bytes; \<open>None\<close> means that the code read or
  wrote outside an array.
\<close>

subsection \<open>The code: encoder\<close>

definition Base64 :: "byte list" where
  "Base64 = map of_char ''ABCDEFGHIJKLMNOPQRSTUVWXYZabcdefghijklmnopqrstuvwxyz0123456789+/''"

definition Pad64 :: byte where
  "Pad64 = of_char CHR ''=''"

text \<open>\<open>target[datalength++] = c\<close>, for each of the characters.\<close>

fun put_chars :: "byte list \<Rightarrow> csize \<Rightarrow> byte list \<Rightarrow> byte list option" where
  "put_chars target i [] = Some target"
| "put_chars target i (c # cs) =
     (case array_set target (unat i) c of None \<Rightarrow> None | Some target' \<Rightarrow> put_chars target' (i + 1) cs)"

text \<open>The four values \<open>output[0..3]\<close>.\<close>

definition output_values :: "byte \<Rightarrow> byte \<Rightarrow> byte \<Rightarrow> byte list" where
  "output_values i0 i1 i2 =
     [drop_bit 2 i0, push_bit 4 (i0 AND 0x03) + drop_bit 4 i1,
      push_bit 2 (i1 AND 0x0f) + drop_bit 6 i2, i2 AND 0x3f]"

text \<open>\<open>Base64[output[i]]\<close>\<close>

definition Base64_at :: "byte \<Rightarrow> byte" where
  "Base64_at v = Base64 ! unat v"

text \<open>The loop over groups of three bytes: whether it ran to its end (otherwise the code returns
  -1), the bytes that are left, \<open>datalength\<close> and the target.\<close>

fun ntop_loop :: "csize \<Rightarrow> byte list \<Rightarrow> csize \<Rightarrow> byte list
    \<Rightarrow> (bool \<times> byte list \<times> csize \<times> byte list) option" where
  "ntop_loop targsize (i0 # i1 # i2 # src) datalength target =
     (if targsize < datalength + 4 then Some (False, src, datalength, target)
      else case put_chars target datalength (map Base64_at (output_values i0 i1 i2)) of
        None \<Rightarrow> None
      | Some target' \<Rightarrow> ntop_loop targsize src (datalength + 4) target')"
| "ntop_loop targsize src datalength target = Some (True, src, datalength, target)"

text \<open>The last one or two bytes.\<close>

definition ntop_padding :: "csize \<Rightarrow> byte list \<Rightarrow> csize \<Rightarrow> byte list \<Rightarrow> (bool \<times> csize \<times> byte list) option" where
  "ntop_padding targsize src datalength target =
     (if src = [] then Some (True, datalength, target)
      else
        let out = output_values (src ! 0) (if 1 < length src then src ! 1 else 0) 0 in
        if targsize < datalength + 4 then Some (False, datalength, target)
        else map_option (\<lambda>target'. (True, datalength + 4, target'))
          (put_chars target datalength
             [Base64_at (out ! 0), Base64_at (out ! 1),
              if length src = 1 then Pad64 else Base64_at (out ! 2), Pad64]))"

text \<open>The value returned and the target. \<open>(int)(datalength)\<close> keeps the low 32 bits.\<close>

definition f_b64_ntop :: "byte list \<Rightarrow> byte list \<Rightarrow> csize \<Rightarrow> (int \<times> byte list) option" where
  "f_b64_ntop src target targsize =
     (case ntop_loop targsize src 0 target of
        None \<Rightarrow> None
      | Some (ok, rest, datalength, target) \<Rightarrow>
          if \<not> ok then Some (- 1, target)
          else case ntop_padding targsize rest datalength target of
            None \<Rightarrow> None
          | Some (ok, datalength, target) \<Rightarrow>
              if \<not> ok then Some (- 1, target)
              else if targsize \<le> datalength then Some (- 1, target)
              else map_option (\<lambda>target'. (sint (ucast datalength :: u32), target'))
                (array_set target (unat datalength) 0))"

subsection \<open>The code: decoder\<close>

text \<open>\<open>isspace\<close> in the C locale, on the value of a signed \<open>char\<close>.\<close>

definition isspace :: "byte \<Rightarrow> bool" where
  "isspace ch \<longleftrightarrow> ch = 32 \<or> (9 \<le> ch \<and> ch \<le> 13)"

text \<open>\<open>strchr(Base64, ch) - Base64\<close> for a character other than NUL.\<close>

definition Base64_index :: "byte \<Rightarrow> byte option" where
  "Base64_index ch = map_option of_nat (List.find (\<lambda>i. Base64 ! i = ch) [0..<64])"

text \<open>\<open>state\<close>, \<open>tarindex\<close> and the target, which can be NULL.\<close>

record pton =
  p_state :: nat
  p_tarindex :: u32
  p_target :: "byte list option"

text \<open>How a step goes on: \<open>return (-1)\<close>, or an access outside the target.\<close>

datatype 'a run = Next 'a | Reject pton | Outside

definition p_get :: "pton \<Rightarrow> u32 \<Rightarrow> byte option" where
  "p_get st i = (case p_target st of None \<Rightarrow> None | Some t \<Rightarrow> array_get t (unat i))"

definition p_set :: "pton \<Rightarrow> u32 \<Rightarrow> byte \<Rightarrow> pton run" where
  "p_set st i x =
     (case p_target st of
        None \<Rightarrow> Next st
      | Some t \<Rightarrow> (case array_set t (unat i) x of None \<Rightarrow> Outside
                  | Some t' \<Rightarrow> Next (st\<lparr>p_target := Some t'\<rparr>)))"

text \<open>\<open>target[i] |= x\<close>\<close>

definition p_or :: "pton \<Rightarrow> u32 \<Rightarrow> byte \<Rightarrow> pton run" where
  "p_or st i x =
     (case p_target st of
        None \<Rightarrow> Next st
      | Some t \<Rightarrow> (case array_get t (unat i) of None \<Rightarrow> Outside | Some y \<Rightarrow> p_set st i (y OR x)))"

definition run_then :: "'a run \<Rightarrow> ('a \<Rightarrow> 'b run) \<Rightarrow> 'b run" where
  "run_then r k = (case r of Next x \<Rightarrow> k x | Reject st \<Rightarrow> Reject st | Outside \<Rightarrow> Outside)"

text \<open>The \<open>switch (state)\<close> on one digit; \<open>tarindex\<close> is an \<open>unsigned int\<close>.\<close>

definition pton_digit :: "csize \<Rightarrow> byte \<Rightarrow> pton \<Rightarrow> pton run" where
  "pton_digit targsize d st =
     (let i = p_tarindex st in
      if p_state st = 0 then
        if p_target st \<noteq> None \<and> targsize \<le> ucast i then Reject st
        else run_then (p_set st i (push_bit 2 d)) (\<lambda>st. Next (st\<lparr>p_state := 1\<rparr>))
      else if p_state st = 1 then
        if p_target st \<noteq> None \<and> targsize \<le> ucast (i + 1) then Reject st
        else run_then (p_or st i (drop_bit 4 d)) (\<lambda>st.
             run_then (p_set st (i + 1) (push_bit 4 (d AND 0x0f))) (\<lambda>st.
             Next (st\<lparr>p_tarindex := i + 1, p_state := 2\<rparr>)))
      else if p_state st = 2 then
        if p_target st \<noteq> None \<and> targsize \<le> ucast (i + 1) then Reject st
        else run_then (p_or st i (drop_bit 2 d)) (\<lambda>st.
             run_then (p_set st (i + 1) (push_bit 6 (d AND 0x03))) (\<lambda>st.
             Next (st\<lparr>p_tarindex := i + 1, p_state := 3\<rparr>)))
      else if p_state st = 3 then
        if p_target st \<noteq> None \<and> targsize \<le> ucast i then Reject st
        else run_then (p_or st i d) (\<lambda>st. Next (st\<lparr>p_tarindex := i + 1, p_state := 0\<rparr>))
      else Next st)"

text \<open>The loop over the characters: the one that ended it, what follows that one, and the state.
  The string is the list of its characters, the NUL at the end included.\<close>

fun pton_loop :: "csize \<Rightarrow> byte list \<Rightarrow> pton \<Rightarrow> (byte \<times> byte list \<times> pton) run" where
  "pton_loop targsize [] st = Outside"
| "pton_loop targsize (ch # src) st =
     (if ch = 0 then Next (ch, src, st)
      else if isspace ch then pton_loop targsize src st
      else if ch = Pad64 then Next (ch, src, st)
      else case Base64_index ch of
        None \<Rightarrow> Reject st
      | Some d \<Rightarrow> run_then (pton_digit targsize d st) (pton_loop targsize src))"

text \<open>\<open>for (; ch != 0; ch = *src++) if (!isspace(ch)) break;\<close>: the character it stops at, and the
  rest after it.\<close>

fun skip_spaces :: "byte \<Rightarrow> byte list \<Rightarrow> (byte \<times> byte list) option" where
  "skip_spaces ch src =
     (if ch = 0 \<or> \<not> isspace ch then Some (ch, src)
      else case src of [] \<Rightarrow> None | ch' # src' \<Rightarrow> skip_spaces ch' src')"

declare skip_spaces.simps [simp del]

text \<open>From \<open>case 3\<close> on: only white space up to the end, and the extra bits are zero.\<close>

definition pton_trailing :: "byte \<Rightarrow> byte list \<Rightarrow> pton \<Rightarrow> unit run" where
  "pton_trailing ch src st =
     (case skip_spaces ch src of
        None \<Rightarrow> Outside
      | Some (ch', _) \<Rightarrow>
          if ch' \<noteq> 0 then Reject st
          else if p_target st = None then Next ()
          else case p_get st (p_tarindex st) of
            None \<Rightarrow> Outside
          | Some x \<Rightarrow> if x \<noteq> 0 then Reject st else Next ())"

text \<open>After the loop; \<open>c_next\<close> is \<open>ch = *src++\<close>.\<close>

definition c_next :: "byte list \<Rightarrow> (byte \<Rightarrow> byte list \<Rightarrow> 'a run) \<Rightarrow> 'a run" where
  "c_next src k = (case src of [] \<Rightarrow> Outside | ch # src' \<Rightarrow> k ch src')"

definition pton_finish :: "byte \<Rightarrow> byte list \<Rightarrow> pton \<Rightarrow> unit run" where
  "pton_finish ch src st =
     (if ch = Pad64 then
        c_next src (\<lambda>ch src.
          if p_state st = 0 \<or> p_state st = 1 then Reject st
          else if p_state st = 2 then
            (case skip_spaces ch src of
               None \<Rightarrow> Outside
             | Some (ch', src') \<Rightarrow>
                 if ch' \<noteq> Pad64 then Reject st
                 else c_next src' (\<lambda>ch src. pton_trailing ch src st))
          else if p_state st = 3 then pton_trailing ch src st
          else Next ())
      else if p_state st \<noteq> 0 then Reject st else Next ())"

definition f_b64_pton :: "byte list \<Rightarrow> byte list option \<Rightarrow> csize \<Rightarrow> (int \<times> byte list option) option" where
  "f_b64_pton src target targsize =
     (case pton_loop targsize src \<lparr>p_state = 0, p_tarindex = 0, p_target = target\<rparr> of
        Outside \<Rightarrow> None
      | Reject st \<Rightarrow> Some (- 1, p_target st)
      | Next (ch, rest, st) \<Rightarrow>
          (case pton_finish ch rest st of
             Outside \<Rightarrow> None
           | Reject st \<Rightarrow> Some (- 1, p_target st)
           | Next _ \<Rightarrow> Some (sint (p_tarindex st), p_target st)))"

subsection \<open>Reference encoding\<close>

definition quantum :: "nat \<Rightarrow> nat list" where
  "quantum n = [n div 2 ^ 18, n div 2 ^ 12 mod 2 ^ 6, n div 2 ^ 6 mod 2 ^ 6, n mod 2 ^ 6]"

definition group24 :: "byte \<Rightarrow> byte \<Rightarrow> byte \<Rightarrow> byte list" where
  "group24 a b c = map (\<lambda>k. Base64 ! k) (quantum (unat a * 2 ^ 16 + unat b * 2 ^ 8 + unat c))"

fun b64_text :: "byte list \<Rightarrow> byte list" where
  "b64_text [] = []"
| "b64_text [a] = take 2 (group24 a 0 0) @ [Pad64, Pad64]"
| "b64_text [a, b] = take 3 (group24 a b 0) @ [Pad64]"
| "b64_text (a # b # c # bs) = group24 a b c @ b64_text bs"

subsection \<open>The encoder\<close>

lemma unat_byte: "unat (b :: byte) < 256"
  using unsigned_less [of b, where 'a = nat] by simp

lemma unat_and_mask: "unat ((b :: 'a::len word) AND mask n) = unat b mod 2 ^ n"
  unfolding take_bit_eq_mask [symmetric] take_bit_eq_mod [symmetric]
  by (simp add: unsigned_take_bit_eq)

lemma unat_low_bits [simp]:
  "unat ((b :: byte) AND 0x03) = unat b mod 4" "unat (b AND 0x0f) = unat b mod 16"
  "unat (b AND 0x3f) = unat b mod 64"
  using unat_and_mask [of b 2] unat_and_mask [of b 4] unat_and_mask [of b 6]
  by (simp_all add: mask_eq_exp_minus_1)

lemma unat_push_bit_byte: "unat (push_bit n (b :: byte)) = unat b * 2 ^ n mod 256"
  by (simp add: unsigned_push_bit_eq push_bit_nat_def flip: take_bit_eq_mod [of 8, simplified])

lemma output_values_quantum:
  "map unat (output_values a b c) = quantum (unat a * 2 ^ 16 + unat b * 2 ^ 8 + unat c)"
proof -
  define A B C where "A = unat a" and "B = unat b" and "C = unat c"
  have lt: "A < 256" "B < 256" "C < 256" by (simp_all add: A_def B_def C_def unat_byte)
  have n: "A * 2 ^ 16 + B * 2 ^ 8 + C = (A * 256 + B) * 256 + C" by simp
  have d8: "((A * 256 + B) * 256 + C) div 256 = A * 256 + B"  "(A * 256 + B) div 256 = A" using lt by simp_all
  have 1: "((A * 256 + B) * 256 + C) div 2 ^ 18 = A div 4"
    using d8 by (simp add: div_mult2_eq [of _ 256 1024, simplified] div_mult2_eq [of _ 256 4, simplified])
  have 2: "((A * 256 + B) * 256 + C) div 2 ^ 12 = A * 16 + B div 16"
    using d8 by (simp add: div_mult2_eq [of _ 256 16, simplified])
  have 3: "((A * 256 + B) * 256 + C) div 2 ^ 6 = (A * 256 + B) * 4 + C div 64"
    by simp
  have 4: "(A * 16 + B div 16) mod 64 = A mod 4 * 16 + B div 16"
    using lt mod_mult2_eq [of "A * 16 + B div 16" 16 4] by simp
  have 5: "((A * 256 + B) * 4 + C div 64) mod 64 = B mod 16 * 4 + C div 64"
  proof -
    have "((A * 256 + B) * 4 + C div 64) div 4 = A * 256 + B"
      "((A * 256 + B) * 4 + C div 64) mod 4 = C div 64"
      using lt mod_mult_self3 [of "A * 256 + B" 4 "C div 64"] by simp_all
    moreover have "(A * 256 + B) mod 16 = B mod 16"
      using mod_mult_self3 [of "A * 16" 16 B] by (simp add: mult.assoc)
    ultimately show ?thesis
      using mod_mult2_eq [of "(A * 256 + B) * 4 + C div 64" 4 16] by simp
  qed
  have 6: "((A * 256 + B) * 256 + C) mod 64 = C mod 64"
    using mod_mult_self3 [of "(A * 256 + B) * 4" 64 C] by (simp add: mult.assoc)
  have 7: "A mod 4 * 16 + B div 16 < 256" "B mod 16 * 4 + C div 64 < 256"
    using lt mod_less_divisor [of 4 A] mod_less_divisor [of 16 B]
    by (linarith, linarith)
  have u1: "unat (push_bit 4 (a AND 0x03)) = A mod 4 * 16"
    using mod_less_divisor [of 4 A] by (simp only: unat_push_bit_byte unat_low_bits A_def) simp
  have u2: "unat (push_bit 2 (b AND 0x0f)) = B mod 16 * 4"
    using mod_less_divisor [of 16 B] by (simp only: unat_push_bit_byte unat_low_bits B_def) simp
  have d: "unat (drop_bit n w) = unat w div 2 ^ n" for n and w :: byte
    using unat_drop_bit_eq [of n w] by (simp add: drop_bit_nat_def)
  have m: "(A mod 4 * 16 + B div 16) mod 2 ^ LENGTH(8) = A mod 4 * 16 + B div 16"
    "(B mod 16 * 4 + C div 64) mod 2 ^ LENGTH(8) = B mod 16 * 4 + C div 64"
    using 7 by simp_all
  have p: "(2::nat) ^ 6 = 64" "(2::nat) ^ 2 = 4" "(2::nat) ^ 4 = 16" by simp_all
  show ?thesis
    unfolding output_values_def quantum_def A_def [symmetric] B_def [symmetric] C_def [symmetric] n 1 2 3
    by (simp only: list.map unat_word_ariths u1 u2 d unat_low_bits m 4 5 6 p
        A_def [symmetric] B_def [symmetric] C_def [symmetric])
qed

lemma Base64_at_values: "map Base64_at (output_values a b c) = group24 a b c"
proof -
  have "map Base64_at (output_values a b c) = map (\<lambda>k. Base64 ! k) (map unat (output_values a b c))"
    by (simp add: Base64_at_def)
  then show ?thesis by (simp only: output_values_quantum group24_def)
qed

lemma group24_nth:
  "map Base64_at (take 2 (output_values a b c)) = take 2 (group24 a b c)"
  "map Base64_at (take 3 (output_values a b c)) = take 3 (group24 a b c)"
  by (simp_all flip: take_map add: Base64_at_values)

lemma length_group24 [simp]: "length (group24 a b c) = 4"
  by (simp add: group24_def quantum_def)

lemma length_b64_text: "length (b64_text bs) = 4 * ((length bs + 2) div 3)"
proof (induction bs rule: b64_text.induct)
  case (4 a b c bs)
  have "(length bs + 2 + 3) div 3 = Suc ((length bs + 2) div 3)" by simp
  moreover have "length (a # b # c # bs) + 2 = length bs + 2 + 3" by simp
  ultimately show ?case using 4 by (simp only: b64_text.simps length_append length_group24 mult_Suc_right)
qed simp_all

lemma put_chars_ok:
  assumes "unat i + length cs \<le> length t" and "length t < 2 ^ 63"
  shows "put_chars t i cs = Some (take (unat i) t @ cs @ drop (unat i + length cs) t)"
  using assms
proof (induction cs arbitrary: t i)
  case (Cons c cs)
  have i: "unat i < length t" "unat (i + 1) = Suc (unat i)"
    using Cons.prems unat_plus_nat [of i 1] by simp_all
  have "put_chars (t[unat i := c]) (i + 1) cs
      = Some (take (unat (i + 1)) (t[unat i := c]) @ cs @ drop (unat (i + 1) + length cs) (t[unat i := c]))"
    using Cons.prems i by (intro Cons.IH) simp_all
  with i show ?case by (simp add: take_Suc_conv_app_nth)
qed simp

lemma put_chars_4:
  assumes "\<not> targsize < i + 4" "unat i \<le> unat targsize" "unat targsize \<le> length t" "length t < 2 ^ 63"
    and "length cs = 4"
  shows "put_chars t i cs = Some (take (unat i) t @ cs @ drop (unat i + 4) t)"
    "unat (i + 4) = unat i + 4" "unat i + 4 \<le> unat targsize"
proof -
  show 4: "unat (i + 4) = unat i + 4"
    using assms(2-4) unat_plus_nat [of i 4] by simp
  show le: "unat i + 4 \<le> unat targsize"
    using assms(1) 4 by (simp add: word_less_nat_alt)
  show "put_chars t i cs = Some (take (unat i) t @ cs @ drop (unat i + 4) t)"
    using put_chars_ok [of i cs t] assms le by simp
qed

text \<open>The encoder from the middle of its work: the rest of the source, \<open>datalength\<close>, the target.\<close>

definition ntop_from :: "csize \<Rightarrow> byte list \<Rightarrow> csize \<Rightarrow> byte list \<Rightarrow> (int \<times> byte list) option" where
  "ntop_from targsize src i target =
     (case ntop_loop targsize src i target of
        None \<Rightarrow> None
      | Some (ok, rest, datalength, target) \<Rightarrow>
          if \<not> ok then Some (- 1, target)
          else case ntop_padding targsize rest datalength target of
            None \<Rightarrow> None
          | Some (ok, datalength, target) \<Rightarrow>
              if \<not> ok then Some (- 1, target)
              else if targsize \<le> datalength then Some (- 1, target)
              else map_option (\<lambda>target'. (sint (ucast datalength :: u32), target'))
                (array_set target (unat datalength) 0))"

definition ntop_ok :: "csize \<Rightarrow> nat \<Rightarrow> byte list \<Rightarrow> byte list \<Rightarrow> (int \<times> byte list) option \<Rightarrow> bool" where
  "ntop_ok targsize i text t r \<longleftrightarrow>
     (if i + length text < unat targsize
      then r = Some (sint (of_nat (i + length text) :: u32),
                 take i t @ text @ [0] @ drop (i + length text + 1) t)
      else \<exists>t'. r = Some (- 1, t') \<and> length t' = length t
                 \<and> drop (unat targsize) t' = drop (unat targsize) t)"

lemma ntop_finish:
  assumes "unat i \<le> unat targsize" "unat targsize \<le> length t" "length t < 2 ^ 63"
  shows "ntop_ok targsize (unat i) [] t
     (if targsize \<le> i then Some (- 1, t)
      else map_option (\<lambda>target'. (sint (ucast i :: u32), target')) (array_set t (unat i) 0))"
proof (cases "targsize \<le> i")
  case True
  then show ?thesis by (auto simp: ntop_ok_def word_le_nat_alt)
next
  case False
  then have lt: "unat i < unat targsize" by (simp add: word_le_nat_alt)
  then have "t[unat i := 0] = take (unat i) t @ 0 # drop (Suc (unat i)) t"
    using assms by (simp add: upd_conv_take_nth_drop)
  with False lt assms show ?thesis
    by (simp add: ntop_ok_def)
qed

lemma ntop_ok_step:
  assumes "unat i + 4 \<le> unat targsize" "unat targsize \<le> length t" "length cs = 4"
    and "ntop_ok targsize (unat i + 4) text (take (unat i) t @ cs @ drop (unat i + 4) t) r"
  shows "ntop_ok targsize (unat i) (cs @ text) t r"
proof (cases "unat i + 4 + length text < unat targsize")
  case True
  have "drop (unat i + 4 + length text + 1 - (unat i + 4)) (drop (unat i + 4) t)
      = drop (unat i + length (cs @ text) + 1) t"
    using assms(3) by (simp add: add.commute)
  with True assms show ?thesis
    by (simp add: ntop_ok_def min_def add.assoc [symmetric])
next
  case False
  with assms show ?thesis by (auto simp: ntop_ok_def add.assoc)
qed

lemma ntop_ok_fail:
  assumes "\<not> unat i + 4 \<le> unat targsize" "4 \<le> length text"
  shows "ntop_ok targsize (unat i) text t (Some (- 1, t))"
  using assms by (auto simp: ntop_ok_def)

lemma ntop_last:
  assumes "src = [a] \<or> src = [a, b]"
    and "unat i \<le> unat targsize" "unat targsize \<le> length t" "length t < 2 ^ 63"
  shows "ntop_ok targsize (unat i) (b64_text src) t (ntop_from targsize src i t)"
proof -
  define out where "out = output_values (src ! 0) (if 1 < length src then src ! 1 else 0) 0"
  define cs where "cs = [Base64_at (out ! 0), Base64_at (out ! 1),
    if length src = 1 then Pad64 else Base64_at (out ! 2), Pad64]"
  have len: "length out = 4" by (simp add: out_def output_values_def)
  have enc: "b64_text src = cs" "length cs = 4"
    using assms(1) group24_nth [of a 0 0] group24_nth [of a b 0] len
    by (auto simp: cs_def out_def numeral_eq_Suc output_values_def)
  have loop: "ntop_loop targsize src i t = Some (True, src, i, t)" "src \<noteq> []"
    using assms(1) by auto
  show ?thesis
  proof (cases "targsize < i + 4")
    case True
    then have "\<not> unat i + 4 \<le> unat targsize"
      using assms unat_plus_nat [of i 4] by (simp add: word_less_nat_alt)
    then show ?thesis
      using True loop enc ntop_ok_fail [of i targsize cs t]
      by (simp add: ntop_from_def ntop_padding_def)
  next
    case False
    note p = put_chars_4 [OF False assms(2-4) enc(2)]
    have pad: "ntop_padding targsize src i t =
        Some (True, i + 4, take (unat i) t @ cs @ drop (unat i + 4) t)"
      unfolding ntop_padding_def Let_def out_def [symmetric] cs_def [symmetric]
      using False loop(2) p(1) by simp
    have eq: "ntop_from targsize src i t =
        (if targsize \<le> i + 4 then Some (- 1, take (unat i) t @ cs @ drop (unat i + 4) t)
         else map_option (\<lambda>target'. (sint (ucast (i + 4) :: u32), target'))
           (array_set (take (unat i) t @ cs @ drop (unat i + 4) t) (unat (i + 4)) 0))"
      unfolding ntop_from_def loop(1) by (simp add: pad)
    have "ntop_ok targsize (unat (i + 4)) [] (take (unat i) t @ cs @ drop (unat i + 4) t)
        (ntop_from targsize src i t)"
      unfolding eq using p assms enc by (intro ntop_finish) auto
    then show ?thesis
      using ntop_ok_step [of i targsize t cs "[]"] p(2,3) assms enc by simp
  qed
qed

lemma ntop_from_ok:
  assumes "unat i \<le> unat targsize" "unat targsize \<le> length t" "length t < 2 ^ 63"
  shows "ntop_ok targsize (unat i) (b64_text src) t (ntop_from targsize src i t)"
  using assms
proof (induction targsize src i t rule: ntop_loop.induct, goal_cases)
  case (1 targsize a b c src i t)
  show ?case
  proof (cases "targsize < i + 4")
    case True
    then have "\<not> unat i + 4 \<le> unat targsize"
      using 1 unat_plus_nat [of i 4] by (simp add: word_less_nat_alt)
    then show ?thesis using True ntop_ok_fail [of i targsize "b64_text (a # b # c # src)" t]
      by (simp add: ntop_from_def)
  next
    case False
    note p = put_chars_4 [OF False 1(2-4) length_group24 [of a b c]]
    show ?thesis
      using 1(1) [OF False] p 1(2-4) False
      by (simp add: ntop_from_def Base64_at_values ntop_ok_step del: put_chars.simps)
  qed
next
  case (2 targsize i t)
  then show ?case using ntop_finish [of i targsize t] by (simp add: ntop_from_def ntop_padding_def)
next
  case (3 targsize a i t)
  then show ?case
    using ntop_last [of "[a]" a 0 i targsize t] by simp
next
  case (4 targsize a b i t)
  then show ?case
    using ntop_last [of "[a, b]" a b i targsize t] by simp
qed

end
