(* ===== verification/FBase64_Decode.thy ===== *)
theory FBase64_Decode imports FBase64 begin

text \<open>
  What \<open>fbase64.c\<close> promises: the decoder's state between two characters (\<open>pton_inv\<close>), the strings it
  accepts, and that the base64 text determines the bytes.
\<close>

subsection \<open>The decoder\<close>

lemma Base64_table:
  "length Base64 = 64" "distinct Base64" "\<forall>c \<in> set Base64. c \<noteq> Pad64 \<and> c \<noteq> 0 \<and> \<not> isspace c"
  by code_simp+

lemma isspace_Pad64 [simp]: "\<not> isspace Pad64" "Pad64 \<noteq> 0"
  by code_simp+

lemma Base64_index_Some:
  "Base64_index c = Some d \<longleftrightarrow> unat d < 64 \<and> c = Base64_at d"
proof
  assume "Base64_index c = Some d"
  then obtain k where k: "k < 64" "Base64 ! k = c" "d = of_nat k"
    by (auto simp: Base64_index_def find_Some_iff)
  then have "unat d = k" by (simp add: unat_of_nat)
  with k show "unat d < 64 \<and> c = Base64_at d" by (simp add: Base64_at_def)
next
  assume d: "unat d < 64 \<and> c = Base64_at d"
  have "List.find (\<lambda>i. Base64 ! i = c) [0..<64] = Some (unat d)"
    unfolding find_Some_iff
    using d Base64_table(1,2)
    by (intro exI [of _ "unat d"]) (auto simp: Base64_at_def nth_eq_iff_index_eq)
  then show "Base64_index c = Some d" by (simp add: Base64_index_def)
qed

lemma b64_text_append:
  "length bs mod 3 = 0 \<Longrightarrow> b64_text (bs @ xs) = b64_text bs @ b64_text xs"
  by (induction bs rule: b64_text.induct) auto

text \<open>The six bits of a digit spread over two bytes and back.\<close>

lemma byte_eqI:
  assumes "\<And>n. n \<in> {0, 1, 2, 3, 4, 5, 6, 7} \<Longrightarrow> bit a n = bit b n"
  shows "a = (b :: byte)"
proof (rule bit_word_eqI)
  fix n assume "n < LENGTH(8)"
  then have "n \<in> {0, 1, 2, 3, 4, 5, 6, 7}" by auto
  then show "bit a n = bit b n" by (rule assms)
qed

lemma byte_high_bits [simp]: "\<not> bit (b :: byte) 8" "\<not> bit b 9" "\<not> bit b 10" "\<not> bit b 11" "\<not> bit b 12" "\<not> bit b 13"
  using bit_imp_le_length [of b 8] bit_imp_le_length [of b 9] bit_imp_le_length [of b 10]
    bit_imp_le_length [of b 11] bit_imp_le_length [of b 12] bit_imp_le_length [of b 13]
  by auto

lemma output_values_or:
  "output_values a b c = [drop_bit 2 a, push_bit 4 (a AND 0x03) OR drop_bit 4 b,
     push_bit 2 (b AND 0x0f) OR drop_bit 6 c, c AND 0x3f]"
proof -
  have "push_bit 4 (a AND 0x03) AND drop_bit 4 b = 0"
    by (rule byte_eqI) (auto simp: bit_simps bit_numeral_rec)
  moreover have "push_bit 2 (b AND 0x0f) AND drop_bit 6 c = 0"
    by (rule byte_eqI) (auto simp: bit_simps bit_numeral_rec)
  ultimately show ?thesis by (simp add: output_values_def disjunctive_add_eq_or del: push_bit_and)
qed

lemma digit_bits: "unat (d :: byte) < 64 \<Longrightarrow> \<not> bit d 6 \<and> \<not> bit d 7"
  using bit_unsigned_iff [of d 6, where 'a = nat] bit_unsigned_iff [of d 7, where 'a = nat]
  by (simp add: bit_iff_odd)

lemma join_bits:
  assumes "unat (d :: byte) < 64" "unat x < 64"
  shows "drop_bit 2 (push_bit 2 d OR drop_bit 4 x) = d"
    and "(push_bit 2 d OR drop_bit 4 x) AND 0x03 = drop_bit 4 x"
    and "push_bit 4 (drop_bit 4 x) OR drop_bit 4 (push_bit 4 (x AND 0x0f) OR drop_bit 2 d) = x"
    and "(push_bit 4 (x AND 0x0f) OR drop_bit 2 d) AND 0x0f = drop_bit 2 d"
    and "push_bit 2 (drop_bit 2 x) OR drop_bit 6 (push_bit 6 (x AND 0x03) OR d) = x"
    and "(push_bit 6 (x AND 0x03) OR d) AND 0x3f = d"
  using digit_bits [OF assms(1)] digit_bits [OF assms(2)]
  by (auto intro!: byte_eqI simp: bit_simps bit_numeral_rec)


text \<open>
  The decoder between two characters: \<open>bs\<close> are the bytes it has completed, \<open>cs\<close> the digits it has
  seen. A byte that is begun is in \<open>target[tarindex]\<close>.
\<close>

definition begun :: "nat \<Rightarrow> byte list \<Rightarrow> byte list \<Rightarrow> byte \<Rightarrow> bool" where
  "begun k bs cs x \<longleftrightarrow>
     (if k = 0 then length bs mod 3 = 0 \<and> cs = b64_text bs
      else if k = 1 then length bs mod 3 = 0
        \<and> (\<exists>d. unat d < 64 \<and> cs = b64_text bs @ [Base64_at d] \<and> x = push_bit 2 d)
      else if k = 2 then (\<exists>bs' a d. bs = bs' @ [a] \<and> length bs' mod 3 = 0 \<and> unat d < 64
        \<and> drop_bit 4 d = a AND 0x03 \<and> x = push_bit 4 (d AND 0x0f)
        \<and> cs = b64_text bs' @ [Base64_at (drop_bit 2 a), Base64_at d])
      else k = 3 \<and> (\<exists>bs' a b d. bs = bs' @ [a, b] \<and> length bs' mod 3 = 0 \<and> unat d < 64
        \<and> drop_bit 2 d = b AND 0x0f \<and> x = push_bit 6 (d AND 0x03)
        \<and> cs = b64_text bs' @ [Base64_at (drop_bit 2 a),
                 Base64_at (push_bit 4 (a AND 0x03) OR drop_bit 4 b), Base64_at d]))"

definition pton_inv :: "csize \<Rightarrow> byte list \<Rightarrow> byte list \<Rightarrow> byte list \<Rightarrow> pton \<Rightarrow> bool" where
  "pton_inv targsize t0 bs cs st \<longleftrightarrow>
     (\<exists>t. p_target st = Some t \<and> length t = length t0 \<and> p_tarindex st = of_nat (length bs)
        \<and> length bs \<le> unat targsize \<and> take (length bs) t = bs
        \<and> drop (Suc (length bs)) t = drop (Suc (length bs)) t0
        \<and> (p_state st = 0 \<or> length bs < unat targsize)
        \<and> begun (p_state st) bs cs (t ! length bs))"

lemma group24_or:
  "group24 a b c = [Base64_at (drop_bit 2 a), Base64_at (push_bit 4 (a AND 0x03) OR drop_bit 4 b),
     Base64_at (push_bit 2 (b AND 0x0f) OR drop_bit 6 c), Base64_at (c AND 0x3f)]"
  by (simp add: output_values_or flip: Base64_at_values del: push_bit_and)

lemma begun_cases:
  assumes "begun k bs cs x"
  shows "k < 4" "length cs mod 4 = k" "3 * length cs div 4 = length bs"
    "3 * Suc (length cs) div 4 = (if k = 0 then length bs else Suc (length bs))"
proof -
  have tl: "length bs' mod 3 = 0 \<Longrightarrow> \<exists>j. length bs' = 3 * j \<and> length (b64_text bs') = 4 * j" for bs'
    by (auto simp: length_b64_text)
  show "k < 4" using assms by (auto simp: begun_def split: if_splits)
  show "length cs mod 4 = k" "3 * length cs div 4 = length bs"
    "3 * Suc (length cs) div 4 = (if k = 0 then length bs else Suc (length bs))"
    using assms by (auto simp: begun_def split: if_splits dest!: tl; presburger)+
qed


lemma begun_digit:
  assumes "begun k bs cs x" and d: "unat d < 64"
  shows "k = 0 \<Longrightarrow> begun 1 bs (cs @ [Base64_at d]) (push_bit 2 d)"
    and "k = 1 \<Longrightarrow> begun 2 (bs @ [x OR drop_bit 4 d]) (cs @ [Base64_at d]) (push_bit 4 (d AND 0x0f))"
    and "k = 2 \<Longrightarrow> begun 3 (bs @ [x OR drop_bit 2 d]) (cs @ [Base64_at d]) (push_bit 6 (d AND 0x03))"
    and "k = 3 \<Longrightarrow> begun 0 (bs @ [x OR d]) (cs @ [Base64_at d]) y"
proof -
  note [simp del] = push_bit_and
  show "k = 0 \<Longrightarrow> begun 1 bs (cs @ [Base64_at d]) (push_bit 2 d)"
    using assms by (auto simp: begun_def)
  show "begun 2 (bs @ [x OR drop_bit 4 d]) (cs @ [Base64_at d]) (push_bit 4 (d AND 0x0f))" if k: "k = 1"
  proof -
    obtain e where 1: "length bs mod 3 = 0" "unat e < 64" "cs = b64_text bs @ [Base64_at e]"
        "x = push_bit 2 e"
      using assms(1) k by (auto simp: begun_def)
    show ?thesis
      unfolding begun_def using 1 d join_bits(1,2) [OF 1(2) d]
      by (auto intro!: exI [of _ bs] exI [of _ d] simp del: drop_bit_or)
  qed
  show "begun 3 (bs @ [x OR drop_bit 2 d]) (cs @ [Base64_at d]) (push_bit 6 (d AND 0x03))" if k: "k = 2"
  proof -
    obtain bs' a e where 1: "bs = bs' @ [a]" "length bs' mod 3 = 0" "unat e < 64"
        "drop_bit 4 e = a AND 0x03" "x = push_bit 4 (e AND 0x0f)"
        "cs = b64_text bs' @ [Base64_at (drop_bit 2 a), Base64_at e]"
      using assms(1) k by (auto simp: begun_def)
    show ?thesis
      using 1 d join_bits(3,4) [OF d 1(3)] unfolding begun_def by (simp, intro exI [of _ d]) simp
  qed
  show "begun 0 (bs @ [x OR d]) (cs @ [Base64_at d]) y" if k: "k = 3"
  proof -
    obtain bs' a b e where 1: "bs = bs' @ [a, b]" "length bs' mod 3 = 0" "unat e < 64"
        "drop_bit 2 e = b AND 0x0f" "x = push_bit 6 (e AND 0x03)"
        "cs = b64_text bs' @ [Base64_at (drop_bit 2 a),
                 Base64_at (push_bit 4 (a AND 0x03) OR drop_bit 4 b), Base64_at e]"
      using assms(1) k by (auto simp: begun_def)
    have "group24 a b (x OR d) = [Base64_at (drop_bit 2 a),
        Base64_at (push_bit 4 (a AND 0x03) OR drop_bit 4 b), Base64_at e, Base64_at d]"
      using join_bits(5,6) [OF d 1(3)] 1(4,5) by (simp add: group24_or)
    with 1(1,2,6) show ?thesis
      using b64_text_append [of bs' "[a, b, x OR d]"] unfolding begun_def by simp
  qed
qed

lemma pton_digit_inv:
  assumes inv: "pton_inv targsize t0 bs cs st" and d: "unat d < 64"
    and size: "unat targsize \<le> length t0" "length t0 < 2 ^ 31"
  shows "case pton_digit targsize d st of
      Outside \<Rightarrow> False
    | Reject _ \<Rightarrow> unat targsize \<le> 3 * Suc (length cs) div 4
    | Next st' \<Rightarrow> \<exists>bs'. pton_inv targsize t0 bs' (cs @ [Base64_at d]) st'"
proof -
  obtain t where t: "p_target st = Some t" "length t = length t0" "p_tarindex st = of_nat (length bs)"
      "length bs \<le> unat targsize" "take (length bs) t = bs"
      "drop (Suc (length bs)) t = drop (Suc (length bs)) t0"
      "p_state st = 0 \<or> length bs < unat targsize" "begun (p_state st) bs cs (t ! length bs)"
    using inv by (auto simp: pton_inv_def)
  let ?n = "length bs"
  have idx: "unat (p_tarindex st) = ?n" "unat (p_tarindex st + 1) = Suc ?n"
    "p_tarindex st + 1 = of_nat (Suc ?n)"
    using t(3,4) size by (simp_all add: unat_of_nat unat_word_ariths)
  have cmp: "targsize \<le> ucast (p_tarindex st) \<longleftrightarrow> unat targsize \<le> ?n"
    "targsize \<le> ucast (p_tarindex st + 1) \<longleftrightarrow> unat targsize \<le> Suc ?n"
    using idx(1,2) by (simp_all add: word_le_nat_alt)
  note bc = begun_cases [OF t(8)]
  note bd = begun_digit [OF t(8) d]
  have tk: "take (Suc ?n) (t[?n := a]) = bs @ [a]" if "?n < length t" for a
    using that t(5) by (simp add: take_Suc_conv_app_nth)
  have dr: "drop (Suc (Suc ?n)) t = drop (Suc (Suc ?n)) t0"
    using arg_cong [OF t(6), of "drop 1"] by simp
  have two: "\<exists>bs'. pton_inv targsize t0 bs' cs' st'"
    if "Suc ?n < unat targsize" "begun (p_state st') (bs @ [a]) cs' y"
      "p_target st' = Some (t[?n := a, Suc ?n := y])" "p_tarindex st' = of_nat (Suc ?n)" for a y cs' st'
    using that t(2) dr size tk [of a] by (intro exI [of _ "bs @ [a]"]) (simp add: pton_inv_def)
  have one: "\<exists>bs'. pton_inv targsize t0 bs' cs' st'"
    if "?n < unat targsize" "p_state st' = 0" "\<And>y. begun 0 (bs @ [a]) cs' y"
      "p_target st' = Some (t[?n := a])" "p_tarindex st' = of_nat (Suc ?n)" for a cs' st'
    using that t(2) dr size tk [of a] by (intro exI [of _ "bs @ [a]"]) (simp add: pton_inv_def)
  consider "p_state st = 0" | "p_state st = 1" | "p_state st = 2" | "p_state st = 3"
    using bc(1) by linarith
  then show ?thesis
  proof cases
    case 1
    then show ?thesis
      using t idx cmp bd(1) bc size
      by (auto simp: pton_digit_def Let_def p_set_def run_then_def pton_inv_def)
  next
    case 2
    then show ?thesis
      using t idx cmp bd(2) bc size
      by (auto simp: pton_digit_def Let_def p_set_def p_or_def run_then_def intro!: two)
  next
    case 3
    then show ?thesis
      using t idx cmp bd(3) bc size
      by (auto simp: pton_digit_def Let_def p_set_def p_or_def run_then_def intro!: two)
  next
    case 4
    then have n: "?n < unat targsize" using t(7) by simp
    have "pton_digit targsize d st = Next (st\<lparr>p_target := Some (t[?n := t ! ?n OR d]),
        p_tarindex := of_nat (Suc ?n), p_state := 0\<rparr>)"
      using 4 n t(1,2) idx cmp(1) size
      by (simp add: pton_digit_def Let_def p_set_def p_or_def run_then_def)
    then show ?thesis using one [OF n _ bd(4)] 4 by simp
  qed
qed

text \<open>A NUL-terminated string \<open>s @ 0 # rest\<close>: its digits, and what follows the first pad character.\<close>

abbreviation visible :: "byte list \<Rightarrow> byte list" where
  "visible \<equiv> filter (\<lambda>c. \<not> isspace c)"

definition b64_digits :: "byte list \<Rightarrow> byte list" where
  "b64_digits s = visible (takeWhile (\<lambda>c. c \<noteq> Pad64) s)"

definition after_pad :: "byte list \<Rightarrow> byte list" where
  "after_pad s = tl (dropWhile (\<lambda>c. c \<noteq> Pad64) s)"

lemma b64_digits_simps [simp]:
  "b64_digits [] = []"
  "b64_digits (c # s) = (if c = Pad64 then [] else if isspace c then b64_digits s else c # b64_digits s)"
  by (auto simp: b64_digits_def)

lemma visible_split:
  "visible s = b64_digits s @ (if Pad64 \<in> set s then Pad64 # visible (after_pad s) else [])"
  by (induction s) (auto simp: after_pad_def)

lemma set_after_pad: "set (after_pad s) \<subseteq> set s"
  by (induction s) (auto simp: after_pad_def)

lemma pton_loop_inv:
  assumes "pton_inv targsize t0 bs cs st" "0 \<notin> set s" "unat targsize \<le> length t0" "length t0 < 2 ^ 31"
  shows "case pton_loop targsize (s @ 0 # rest) st of
      Outside \<Rightarrow> False
    | Reject _ \<Rightarrow> (\<exists>c \<in> set (b64_digits s). Base64_index c = None)
                  \<or> unat targsize \<le> 3 * length (cs @ b64_digits s) div 4
    | Next (ch, src, st') \<Rightarrow>
        (\<exists>bs'. pton_inv targsize t0 bs' (cs @ b64_digits s) st')
        \<and> (if Pad64 \<in> set s then ch = Pad64 \<and> src = after_pad s @ 0 # rest
           else ch = 0 \<and> src = rest)"
  using assms
proof (induction s arbitrary: bs cs st)
  case Nil
  then show ?case by auto
next
  case (Cons c s)
  show ?case
  proof (cases "isspace c \<or> c = Pad64")
    case True
    then show ?thesis
      using Cons.IH [OF Cons.prems(1)] Cons.prems
      by (auto simp: after_pad_def split: run.splits prod.splits if_splits)
  next
    case False
    show ?thesis
    proof (cases "Base64_index c")
      case None
      with False Cons.prems show ?thesis by auto
    next
      case (Some d)
      then have d: "unat d < 64" "c = Base64_at d" by (auto simp: Base64_index_Some)
      note step = pton_digit_inv [OF Cons.prems(1) d(1) Cons.prems(3,4)]
      show ?thesis
      proof (cases "pton_digit targsize d st")
        case (Next st')
        then obtain bs' where "pton_inv targsize t0 bs' (cs @ [c]) st'" using step d by auto
        from Cons.IH [OF this] Cons.prems False Some Next show ?thesis
          by (auto simp: run_then_def after_pad_def split: run.splits prod.splits if_splits)
      next
        case (Reject st')
        then have "unat targsize \<le> 3 * Suc (length cs) div 4" using step by simp
        also have "\<dots> \<le> 3 * length (cs @ b64_digits (c # s)) div 4"
          using False by (intro div_le_mono) simp
        finally show ?thesis using False Some Reject Cons.prems by (auto simp: run_then_def)
      next
        case Outside
        with step show ?thesis by simp
      qed
    qed
  qed
qed

lemma skip_spaces_string:
  assumes "0 \<notin> set u" "u @ 0 # rest = ch # src"
  shows "skip_spaces ch src =
    Some (case dropWhile isspace u of [] \<Rightarrow> (0, rest) | c # u' \<Rightarrow> (c, u' @ 0 # rest))"
  using assms
proof (induction u arbitrary: ch src)
  case Nil
  then show ?case by (subst skip_spaces.simps) simp
next
  case (Cons c u)
  obtain ch' src' where tail: "u @ 0 # rest = ch' # src'" by (cases u) auto
  have "skip_spaces ch' src' =
    Some (case dropWhile isspace u of [] \<Rightarrow> (0, rest) | c # u' \<Rightarrow> (c, u' @ 0 # rest))"
    using Cons.prems tail by (intro Cons.IH) auto
  moreover have "src = ch' # src'" "c = ch" "ch \<noteq> 0" using Cons.prems tail by auto
  ultimately show ?case
    using Cons.prems tail by (cases "isspace ch") (simp_all add: skip_spaces.simps [of ch])
qed

lemma visible_Nil: "visible u = [] \<longleftrightarrow> dropWhile isspace u = []"
  by (induction u) auto

lemma visible_Cons: "visible u = c # v \<longleftrightarrow> (\<exists>u'. dropWhile isspace u = c # u' \<and> visible u' = v)"
  by (induction u) auto


text \<open>The byte that is begun when the characters end.\<close>

definition p_partial :: "byte list \<Rightarrow> pton \<Rightarrow> byte" where
  "p_partial bs st = (case p_target st of None \<Rightarrow> 0 | Some t \<Rightarrow> t ! length bs)"

lemma pton_trailing_string:
  assumes "0 \<notin> set u" "u @ 0 # rest = ch # src" "pton_inv targsize t0 bs cs st"
    "p_state st \<noteq> 0" "unat targsize \<le> length t0" "length t0 < 2 ^ 31"
  shows "pton_trailing ch src st \<noteq> Outside"
    "pton_trailing ch src st = Next () \<longleftrightarrow> visible u = [] \<and> p_partial bs st = 0"
proof -
  obtain t where t: "p_target st = Some t" "length t = length t0" "p_tarindex st = of_nat (length bs)"
    "length bs < unat targsize"
    using assms(3,4) by (auto simp: pton_inv_def)
  then have get: "p_get st (p_tarindex st) = Some (t ! length bs)"
    using assms(5,6) by (simp add: p_get_def unat_of_nat)
  have nz: "c \<noteq> 0" if "dropWhile isspace u = c # u'" for c u'
  proof -
    have "c \<in> set (dropWhile isspace u)" using that by simp
    then show ?thesis using assms(1) set_dropWhileD by fastforce
  qed
  note [simp del] = dropWhile_eq_Nil_conv filter_empty_conv
  have eq: "pton_trailing ch src st =
      (if visible u = [] \<and> t ! length bs = 0 then Next () else Reject st)"
  proof (cases "dropWhile isspace u")
    case Nil
    then show ?thesis
      using t(1) get by (simp add: pton_trailing_def skip_spaces_string [OF assms(1,2)] visible_Nil)
  next
    case (Cons c u')
    then have "visible u \<noteq> []" by (simp add: visible_Nil)
    with Cons nz [OF Cons] show ?thesis
      by (simp add: pton_trailing_def skip_spaces_string [OF assms(1,2)])
  qed
  show "pton_trailing ch src st \<noteq> Outside"
    "pton_trailing ch src st = Next () \<longleftrightarrow> visible u = [] \<and> p_partial bs st = 0"
    unfolding eq p_partial_def using t(1) by simp_all
qed

lemma string_head: obtains ch src where "u @ (0 :: byte) # rest = ch # src"
  by (cases u) auto

lemma pton_finish_string:
  assumes "0 \<notin> set s" "pton_inv targsize t0 bs cs st" "unat targsize \<le> length t0" "length t0 < 2 ^ 31"
    and "if Pad64 \<in> set s then ch = Pad64 \<and> src = after_pad s @ 0 # rest else ch = 0"
  shows "pton_finish ch src st \<noteq> Outside"
    "pton_finish ch src st = Next () \<longleftrightarrow>
       (if p_state st = 0 then Pad64 \<notin> set s
        else if p_state st = 1 then False
        else Pad64 \<in> set s \<and> p_partial bs st = 0
          \<and> visible (after_pad s) = (if p_state st = 2 then [Pad64] else []))"
proof -
  note [simp del] = dropWhile_eq_Nil_conv filter_empty_conv
  have st: "p_state st = 0 \<or> p_state st = 1 \<or> p_state st = 2 \<or> p_state st = 3"
    using assms(2) begun_cases(1) by (fastforce simp: pton_inv_def)
  have "pton_finish ch src st \<noteq> Outside \<and> (pton_finish ch src st = Next () \<longleftrightarrow>
       (if p_state st = 0 then Pad64 \<notin> set s
        else if p_state st = 1 then False
        else Pad64 \<in> set s \<and> p_partial bs st = 0
          \<and> visible (after_pad s) = (if p_state st = 2 then [Pad64] else [])))"
  proof (cases "Pad64 \<in> set s")
    case False
    with assms(5) st show ?thesis by (auto simp: pton_finish_def)
  next
    case True
    let ?u = "after_pad s"
    have u: "0 \<notin> set ?u"
      using assms(1) set_after_pad by blast
    obtain c v where cv: "?u @ 0 # rest = c # v" by (rule string_head)
    note ass = assms(2) _ assms(3,4)
    from st consider "p_state st = 0 \<or> p_state st = 1" | "p_state st = 3" | "p_state st = 2" by blast
    then show ?thesis
    proof cases
      case 1
      with True assms(5) cv show ?thesis by (auto simp: pton_finish_def c_next_def)
    next
      case 2
      with True assms(5) cv pton_trailing_string [OF u cv ass] show ?thesis
        by (auto simp: pton_finish_def c_next_def)
    next
      case 3
      show ?thesis
      proof (cases "dropWhile isspace ?u")
        case Nil
        then have "visible ?u \<noteq> [Pad64]" by (simp add: visible_Nil [symmetric])
        with Nil 3 True assms(5) cv skip_spaces_string [OF u cv] show ?thesis
          by (auto simp: pton_finish_def c_next_def)
      next
        case (Cons d w)
        then have w: "0 \<notin> set w" and vis: "visible ?u = [Pad64] \<longleftrightarrow> d = Pad64 \<and> visible w = []"
          using u set_dropWhileD [of _ isspace ?u] by (auto simp: visible_Cons)
        obtain c' v' where cv': "w @ 0 # rest = c' # v'" by (rule string_head)
        show ?thesis
          using Cons 3 True assms(5) cv skip_spaces_string [OF u cv] cv' vis
            pton_trailing_string [OF w cv' ass]
          by (auto simp: pton_finish_def c_next_def)
      qed
    qed
  qed
  then show "pton_finish ch src st \<noteq> Outside"
    "pton_finish ch src st = Next () \<longleftrightarrow>
       (if p_state st = 0 then Pad64 \<notin> set s
        else if p_state st = 1 then False
        else Pad64 \<in> set s \<and> p_partial bs st = 0
          \<and> visible (after_pad s) = (if p_state st = 2 then [Pad64] else []))"
    by blast+
qed

lemma split_bits:
  "push_bit 4 (drop_bit 4 d) OR (d AND 0x0f) = (d :: byte)"
  "push_bit 2 (drop_bit 2 d) OR (d AND 0x03) = d"
  "push_bit 4 (d AND 0x0f) = 0 \<longleftrightarrow> d AND 0x0f = 0"
  "unat d < 64 \<Longrightarrow> push_bit 6 (d AND 0x03) = 0 \<longleftrightarrow> d AND 0x03 = 0"
proof -
  show "push_bit 4 (drop_bit 4 d) OR (d AND 0x0f) = d" "push_bit 2 (drop_bit 2 d) OR (d AND 0x03) = d"
    by (auto intro!: byte_eqI simp: bit_simps bit_numeral_rec)
  have 4: "drop_bit 4 (push_bit 4 (d AND 0x0f)) = d AND 0x0f"
    and 6: "drop_bit 6 (push_bit 6 (d AND 0x03)) = d AND 0x03"
    by (auto intro!: byte_eqI simp: bit_simps bit_numeral_rec)
  show "push_bit 4 (d AND 0x0f) = 0 \<longleftrightarrow> d AND 0x0f = 0" using 4 by (metis drop_bit_of_0 push_bit_of_0)
  show "push_bit 6 (d AND 0x03) = 0 \<longleftrightarrow> d AND 0x03 = 0" using 6 by (metis drop_bit_of_0 push_bit_of_0)
qed

lemma begun_text:
  assumes "begun k bs cs x" "k \<noteq> 1" "k \<noteq> 0 \<Longrightarrow> x = 0"
  shows "b64_text bs = cs @ replicate (if k = 0 then 0 else 4 - k) Pad64"
proof -
  from begun_cases(1) [OF assms(1)] assms(2) consider "k = 0" | "k = 2" | "k = 3" by linarith
  then show ?thesis
  proof cases
    case 1
    with assms show ?thesis by (simp add: begun_def)
  next
    case 2
    then obtain bs' a d where 1: "bs = bs' @ [a]" "length bs' mod 3 = 0" "drop_bit 4 d = a AND 0x03"
        "push_bit 4 (d AND 0x0f) = 0" "cs = b64_text bs' @ [Base64_at (drop_bit 2 a), Base64_at d]"
      using assms(1,3) by (auto simp: begun_def)
    then have "push_bit 4 (a AND 0x03) = d"
      using split_bits(1) [of d] split_bits(3) [of d] by simp
    then have "take 2 (group24 a 0 0) = [Base64_at (drop_bit 2 a), Base64_at d]"
      by (simp add: group24_or del: push_bit_and)
    with 1(1,5) b64_text_append [OF 1(2), of "[a]"]
    have "b64_text bs = cs @ [Pad64, Pad64]" by simp
    with 2 show ?thesis by (simp add: numeral_2_eq_2)
  next
    case 3
    then obtain bs' a b d where 1: "bs = bs' @ [a, b]" "length bs' mod 3 = 0" "unat d < 64"
        "drop_bit 2 d = b AND 0x0f" "push_bit 6 (d AND 0x03) = 0"
        "cs = b64_text bs' @ [Base64_at (drop_bit 2 a),
                 Base64_at (push_bit 4 (a AND 0x03) OR drop_bit 4 b), Base64_at d]"
      using assms(1,3) by (auto simp: begun_def)
    then have "push_bit 2 (b AND 0x0f) = d"
      using split_bits(2) [of d] split_bits(4) [of d] by simp
    then have "take 3 (group24 a b 0) = [Base64_at (drop_bit 2 a),
        Base64_at (push_bit 4 (a AND 0x03) OR drop_bit 4 b), Base64_at d]"
      by (simp add: group24_or numeral_eq_Suc del: push_bit_and)
    with 1 3 b64_text_append [OF 1(2), of "[a, b]"] show ?thesis by simp
  qed
qed

definition pton_result_ok :: "byte list \<Rightarrow> byte list \<Rightarrow> csize \<Rightarrow> (int \<times> byte list option) option \<Rightarrow> bool" where
  "pton_result_ok s t0 targsize r \<longleftrightarrow>
     (\<exists>bs t. r = Some (int (length bs), Some t) \<and> visible s = b64_text bs
        \<and> (\<exists>k x. begun k bs (b64_digits s) x) \<and> length bs \<le> unat targsize \<and> length t = length t0 \<and> take (length bs) t = bs
        \<and> drop (Suc (length bs)) t = drop (Suc (length bs)) t0)"

lemma pton_accepts:
  assumes s: "0 \<notin> set s" and size: "unat targsize \<le> length t0" "length t0 < 2 ^ 31"
  obtains (accept) "pton_result_ok s t0 targsize (f_b64_pton (s @ 0 # rest) (Some t0) targsize)"
  | (reject) t where "f_b64_pton (s @ 0 # rest) (Some t0) targsize = Some (- 1, t)"
      "(\<exists>c \<in> set (b64_digits s). Base64_index c = None)
       \<or> unat targsize \<le> 3 * length (b64_digits s) div 4
       \<or> (\<exists>k bs x. begun k bs (b64_digits s) x \<and>
            \<not> (if k = 0 then Pad64 \<notin> set s
               else k \<noteq> 1 \<and> Pad64 \<in> set s \<and> x = 0
                 \<and> visible (after_pad s) = (if k = 2 then [Pad64] else [])))"
proof -
  define st0 where "st0 = \<lparr>p_state = 0, p_tarindex = 0, p_target = Some t0\<rparr>"
  have inv0: "pton_inv targsize t0 [] [] st0"
    by (simp add: pton_inv_def st0_def begun_def)
  note loop = pton_loop_inv [OF inv0 s size, of rest]
  have run: "f_b64_pton (s @ 0 # rest) (Some t0) targsize =
     (case pton_loop targsize (s @ 0 # rest) st0 of
        Outside \<Rightarrow> None
      | Reject st \<Rightarrow> Some (- 1, p_target st)
      | Next (ch, rest, st) \<Rightarrow>
          (case pton_finish ch rest st of
             Outside \<Rightarrow> None
           | Reject st \<Rightarrow> Some (- 1, p_target st)
           | Next _ \<Rightarrow> Some (sint (p_tarindex st), p_target st)))"
    by (simp add: f_b64_pton_def st0_def)
  show thesis
  proof (cases "pton_loop targsize (s @ 0 # rest) st0")
    case (Reject st)
    with loop run show thesis by (intro reject) auto
  next
    case Outside
    with loop show thesis by simp
  next
    case (Next r)
    obtain ch src st where r: "r = (ch, src, st)" by (cases r)
    then obtain bs where inv: "pton_inv targsize t0 bs (b64_digits s) st"
      and ends: "if Pad64 \<in> set s then ch = Pad64 \<and> src = after_pad s @ 0 # rest
                 else ch = 0 \<and> src = rest"
      using loop Next by auto
    then obtain t where t: "p_target st = Some t" "length t = length t0" "p_tarindex st = of_nat (length bs)"
      "length bs \<le> unat targsize" "take (length bs) t = bs"
      "drop (Suc (length bs)) t = drop (Suc (length bs)) t0"
      "begun (p_state st) bs (b64_digits s) (p_partial bs st)"
      by (auto simp: pton_inv_def p_partial_def)
    have "if Pad64 \<in> set s then ch = Pad64 \<and> src = after_pad s @ 0 # rest else ch = 0"
      using ends by (auto split: if_splits)
    note fin = pton_finish_string [OF s inv size this]
    show thesis
    proof (cases "pton_finish ch src st")
      case (Next u)
      then have n: "pton_finish ch src st = Next ()" by simp
      with fin(2) have c: "p_state st \<noteq> 1" "p_state st \<noteq> 0 \<Longrightarrow> p_partial bs st = 0"
        and vis: "visible s = b64_digits s @ replicate (if p_state st = 0 then 0 else 4 - p_state st) Pad64"
        using begun_cases(1) [OF t(7)] visible_split [of s]
        by (auto simp: numeral_eq_Suc less_Suc_eq split: if_splits)
      have len: "sint (of_nat (length bs) :: u32) = int (length bs)"
        using t(4) size by (intro sint_of_nat_u32) simp
      have "f_b64_pton (s @ 0 # rest) (Some t0) targsize = Some (int (length bs), Some t)"
        using run \<open>pton_loop _ _ _ = _\<close> r n t(1,3) len by simp
      moreover have "visible s = b64_text bs" unfolding vis by (rule begun_text [OF t(7) c, symmetric])
      ultimately show thesis
        using t by (intro accept) (auto simp: pton_result_ok_def)
    next
      case (Reject st')
      with fin(2) have "\<not> (if p_state st = 0 then Pad64 \<notin> set s
               else p_state st \<noteq> 1 \<and> Pad64 \<in> set s \<and> p_partial bs st = 0
                 \<and> visible (after_pad s) = (if p_state st = 2 then [Pad64] else []))"
        by (auto split: if_splits)
      with t(7) have bad: "\<exists>k bs x. begun k bs (b64_digits s) x \<and>
            \<not> (if k = 0 then Pad64 \<notin> set s
               else k \<noteq> 1 \<and> Pad64 \<in> set s \<and> x = 0
                 \<and> visible (after_pad s) = (if k = 2 then [Pad64] else []))"
        by blast
      show thesis
        using Reject run Next r bad by (intro reject [OF _ disjI2 [OF disjI2]]) simp_all
    next
      case Outside
      with fin(1) show thesis by simp
    qed
  qed
qed


subsection \<open>The encoding determines the bytes\<close>

lemma Base64_at_inj: "unat d < 64 \<Longrightarrow> unat e < 64 \<Longrightarrow> Base64_at d = Base64_at e \<longleftrightarrow> d = e"
  using Base64_table(1,2) by (simp add: Base64_at_def nth_eq_iff_index_eq flip: word_unat_eq_iff)

lemma output_values_lt:
  "v \<in> set (output_values a b c) \<Longrightarrow> unat v < 64"
proof -
  assume "v \<in> set (output_values a b c)"
  then have "unat v \<in> set (quantum (unat a * 2 ^ 16 + unat b * 2 ^ 8 + unat c))"
    unfolding output_values_quantum [symmetric] by simp
  moreover have "unat a * 2 ^ 16 + unat b * 2 ^ 8 + unat c < 64 * 2 ^ 18"
    using unat_byte [of a] unat_byte [of b] unat_byte [of c] by simp
  ultimately show ?thesis by (auto simp: quantum_def less_mult_imp_div_less)
qed

lemma group24_digits: "set (group24 a b c) \<subseteq> set Base64"
  using output_values_lt Base64_table(1)
  by (fastforce simp flip: Base64_at_values simp: Base64_at_def)

lemma rebuild_bytes:
  "push_bit 2 (drop_bit 2 a) OR drop_bit 4 (push_bit 4 (a AND 0x03) OR drop_bit 4 b) = (a :: byte)"
  "push_bit 4 (push_bit 4 (a AND 0x03) OR drop_bit 4 b) OR drop_bit 2 (push_bit 2 (b AND 0x0f) OR drop_bit 6 c) = b"
  "push_bit 6 (push_bit 2 (b AND 0x0f) OR drop_bit 6 c) OR (c AND 0x3f) = c"
  by (auto intro!: byte_eqI simp: bit_simps bit_numeral_rec)

lemma group24_inj:
  assumes "group24 a b c = group24 a' b' c'"
  shows "a = a' \<and> b = b' \<and> c = c'"
proof -
  have "inj_on Base64_at {v. unat v < 64}"
    by (simp add: inj_on_def Base64_at_inj)
  moreover have "set (output_values a b c) \<union> set (output_values a' b' c') \<subseteq> {v. unat v < 64}"
    using output_values_lt by blast
  ultimately have "inj_on Base64_at (set (output_values a b c) \<union> set (output_values a' b' c'))"
    by (rule inj_on_subset)
  moreover have "map Base64_at (output_values a b c) = map Base64_at (output_values a' b' c')"
    using assms by (simp only: Base64_at_values)
  ultimately have "output_values a b c = output_values a' b' c'"
    by (rule map_inj_on [rotated])
  then have q: "drop_bit 2 a = drop_bit 2 a'" "c AND 0x3f = c' AND 0x3f"
    "push_bit 4 (a AND 0x03) OR drop_bit 4 b = push_bit 4 (a' AND 0x03) OR drop_bit 4 b'"
    "push_bit 2 (b AND 0x0f) OR drop_bit 6 c = push_bit 2 (b' AND 0x0f) OR drop_bit 6 c'"
    by (simp_all only: output_values_or list.inject)
  have "a = a'" using rebuild_bytes(1) [of a b] rebuild_bytes(1) [of a' b'] unfolding q
    by (rule trans [OF sym])
  moreover have "b = b'" using rebuild_bytes(2) [of a b c] rebuild_bytes(2) [of a' b' c'] unfolding q
    by (rule trans [OF sym])
  moreover have "c = c'" using rebuild_bytes(3) [of b c] rebuild_bytes(3) [of b' c'] unfolding q
    by (rule trans [OF sym])
  ultimately show ?thesis by blast
qed

lemma group24_inj':
  "group24 a b c = group24 a' b' c' \<longleftrightarrow> a = a' \<and> b = b' \<and> c = c'"
  "take 3 (group24 a b 0) = take 3 (group24 a' b' 0) \<longleftrightarrow> a = a' \<and> b = b'"
  "take 2 (group24 a 0 0) = take 2 (group24 a' 0 0) \<longleftrightarrow> a = a'"
proof -
  have 3: "group24 a b 0 = take 3 (group24 a b 0) @ [Base64_at 0]"
    and 2: "group24 a 0 0 = take 2 (group24 a 0 0) @ [Base64_at 0, Base64_at 0]" for a b
    by (simp_all add: group24_or numeral_eq_Suc)
  show "group24 a b c = group24 a' b' c' \<longleftrightarrow> a = a' \<and> b = b' \<and> c = c'"
    using group24_inj by blast
  show "take 3 (group24 a b 0) = take 3 (group24 a' b' 0) \<longleftrightarrow> a = a' \<and> b = b'"
    using 3 group24_inj by metis
  show "take 2 (group24 a 0 0) = take 2 (group24 a' 0 0) \<longleftrightarrow> a = a'"
    using 2 group24_inj by metis
qed

lemma Pad64_not_digit: "Pad64 \<notin> set (group24 a b c)" "Pad64 \<notin> set (take n (group24 a b c))"
  using group24_digits Base64_table(3) set_take_subset by fast+


text \<open>The digits of an encoding, without its padding, and the number of bytes that they say.\<close>

lemma b64_text_inj:
  "length xs mod 3 = 0 \<Longrightarrow> length ys mod 3 = 0 \<Longrightarrow> b64_text xs = b64_text ys \<Longrightarrow> xs = ys"
proof (induction xs arbitrary: ys rule: b64_text.induct)
  case (1 ys)
  then show ?case by (cases ys rule: b64_text.cases) (auto dest: arg_cong [of _ _ length])
next
  case (4 a b c bs ys)
  then obtain a' b' c' ys' where ys: "ys = a' # b' # c' # ys'"
    by (cases ys rule: b64_text.cases) (auto dest: arg_cong [of _ _ length])
  then have "group24 a b c = group24 a' b' c'" "b64_text bs = b64_text ys'"
    using "4.prems"(3) by (auto simp: append_eq_append_conv)
  then show ?case using 4 ys by (simp add: group24_inj')
qed simp_all

lemma takeWhile_no_pad:
  "Pad64 \<notin> set ds \<Longrightarrow> takeWhile (\<lambda>c. c \<noteq> Pad64) (ds @ Pad64 # r) = ds"
  "Pad64 \<notin> set ds \<Longrightarrow> takeWhile (\<lambda>c. c \<noteq> Pad64) ds = ds"
  by (induction ds) auto

lemma b64_text_groups: "length g mod 3 = 0 \<Longrightarrow> set (b64_text g) \<subseteq> set Base64"
proof (induction g rule: b64_text.induct)
  case (4 a b c bs)
  then show ?case using group24_digits [of a b c] by simp
qed simp_all

lemma groups_of_3:
  obtains g r where "bs = g @ r" "length g mod 3 = 0" "length r < 3"
proof (rule that [of "take (length bs div 3 * 3) bs" "drop (length bs div 3 * 3) bs"])
  show "length (take (length bs div 3 * 3) bs) mod 3 = 0" by (simp add: min_def) presburger
  show "length (drop (length bs div 3 * 3) bs) < 3" by (simp add: minus_div_mult_eq_mod)
qed simp

lemma digit_parts:
  "drop_bit 4 (push_bit 4 (a AND 0x03)) = (a :: byte) AND 0x03"
  "push_bit 4 (push_bit 4 (a AND 0x03) AND 0x0f) = 0"
  "drop_bit 2 (push_bit 2 (a AND 0x0f)) = a AND 0x0f"
  "push_bit 6 (push_bit 2 (a AND 0x0f) AND 0x03) = 0"
  by (auto intro!: byte_eqI simp: bit_simps bit_numeral_rec)

lemma byte_parts:
  "push_bit 2 (drop_bit 2 a) OR (a AND 0x03) = (a :: byte)"
  "push_bit 4 (push_bit 4 (a AND 0x03) OR drop_bit 4 b) OR (b AND 0x0f) = b"
  by (auto intro!: byte_eqI simp: bit_simps bit_numeral_rec)

lemma begun_unique:
  assumes "begun k bs (takeWhile (\<lambda>c. c \<noteq> Pad64) (b64_text bsF)) x"
  shows "bs = bsF" "k \<noteq> 1" "k \<noteq> 0 \<Longrightarrow> x = 0"
    "b64_text bsF = takeWhile (\<lambda>c. c \<noteq> Pad64) (b64_text bsF) @ replicate (if k = 0 then 0 else 4 - k) Pad64"
proof -
  obtain g r where gr: "bsF = g @ r" "length g mod 3 = 0" "length r < 3" by (rule groups_of_3)
  let ?ds = "takeWhile (\<lambda>c. c \<noteq> Pad64) (b64_text bsF)"
  have np: "Pad64 \<notin> set (b64_text g)" using b64_text_groups [OF gr(2)] Base64_table(3) by blast
  have len: "(length (b64_text g) + 2) mod 4 = 2" "(length (b64_text g) + 3) mod 4 = 3"
    using gr(2) unfolding length_b64_text by presburger+
  have take_len: "length (take 2 (group24 a b c)) = 2" "length (take 3 (group24 a b c)) = 3" for a b c
    by simp_all
  have lt: "unat (drop_bit 2 a) < 64" "unat (push_bit 4 (a AND 0x03) OR drop_bit 4 b) < 64"
    "unat (push_bit 2 (b AND 0x0f) OR drop_bit 6 c) < 64" for a b c :: byte
    using output_values_lt [of _ a b c] by (simp_all add: output_values_or del: push_bit_and)
  consider (0) "r = []" | (1) a where "r = [a]" | (2) a b where "r = [a, b]"
    using gr(3) by (auto simp: less_Suc_eq numeral_3_eq_3 length_Suc_conv)
  then have "bs = bsF \<and> k \<noteq> 1 \<and> (k \<noteq> 0 \<longrightarrow> x = 0) \<and>
    b64_text bsF = ?ds @ replicate (if k = 0 then 0 else 4 - k) Pad64"
  proof cases
    case 0
    then have ds: "?ds = b64_text g" "length ?ds mod 4 = 0"
      using gr np by (simp_all add: takeWhile_no_pad length_b64_text)
    then have "k = 0" using begun_cases(2) [OF assms] by simp
    with assms ds gr 0 b64_text_inj [OF _ gr(2), of bs] show ?thesis
      unfolding ds(1) by (simp add: begun_def)
  next
    case 1
    then have enc: "b64_text bsF = (b64_text g @ take 2 (group24 a 0 0)) @ [Pad64, Pad64]"
      using b64_text_append [OF gr(2), of r] gr(1) by simp
    then have ds: "?ds = b64_text g @ take 2 (group24 a 0 0)"
      unfolding enc using np Pad64_not_digit(2) [of 2 a 0 0] by (intro takeWhile_no_pad) simp
    from begun_cases(2) [OF assms] have k: "k = 2" unfolding ds length_append take_len len ..
    then obtain bs' a' d where bs: "bs = bs' @ [a']" "length bs' mod 3 = 0" "unat d < 64"
        "drop_bit 4 d = a' AND 0x03" "x = push_bit 4 (d AND 0x0f)"
        "b64_text g @ take 2 (group24 a 0 0) = b64_text bs' @ [Base64_at (drop_bit 2 a'), Base64_at d]"
      using assms unfolding ds by (auto simp: begun_def)
    then have "b64_text g = b64_text bs'" "take 2 (group24 a 0 0) = [Base64_at (drop_bit 2 a'), Base64_at d]"
      by (simp_all add: append_eq_append_conv)
    then have g: "g = bs'" and a: "drop_bit 2 a = drop_bit 2 a'" and d: "push_bit 4 (a AND 0x03) = d"
      using b64_text_inj [OF gr(2) bs(2)] bs(3) lt(1) [of a] lt(1) [of a'] lt(2) [of a 0]
      by (simp_all add: group24_or Base64_at_inj del: push_bit_and)
    have and3: "a AND 0x03 = a' AND 0x03"
      using digit_parts(1) [of a] bs(4) unfolding d by (rule trans [OF sym])
    have "a = a'" using byte_parts(1) [of a] byte_parts(1) [of a'] unfolding a and3
      by (rule trans [OF sym])
    moreover have "x = 0"
      using bs(5) digit_parts(2) [of a] unfolding d by (rule trans)
    ultimately show ?thesis using g bs(1) gr(1) 1 k ds enc by (simp add: numeral_2_eq_2)
  next
    case 2
    then have enc: "b64_text bsF = (b64_text g @ take 3 (group24 a b 0)) @ [Pad64]"
      using b64_text_append [OF gr(2), of r] gr(1) by simp
    then have ds: "?ds = b64_text g @ take 3 (group24 a b 0)"
      unfolding enc using np Pad64_not_digit(2) [of 3 a b 0] by (intro takeWhile_no_pad) simp
    from begun_cases(2) [OF assms] have k: "k = 3" unfolding ds length_append take_len len ..
    then obtain bs' a' b' d where bs: "bs = bs' @ [a', b']" "length bs' mod 3 = 0" "unat d < 64"
        "drop_bit 2 d = b' AND 0x0f" "x = push_bit 6 (d AND 0x03)"
        "b64_text g @ take 3 (group24 a b 0) = b64_text bs' @ [Base64_at (drop_bit 2 a'),
                 Base64_at (push_bit 4 (a' AND 0x03) OR drop_bit 4 b'), Base64_at d]"
      using assms unfolding ds by (auto simp: begun_def)
    then have "b64_text g = b64_text bs'" "take 3 (group24 a b 0) = [Base64_at (drop_bit 2 a'),
                 Base64_at (push_bit 4 (a' AND 0x03) OR drop_bit 4 b'), Base64_at d]"
      by (simp_all add: append_eq_append_conv)
    then have g: "g = bs'" and a: "drop_bit 2 a = drop_bit 2 a'" and d: "push_bit 2 (b AND 0x0f) = d"
      and ab: "push_bit 4 (a AND 0x03) OR drop_bit 4 b = push_bit 4 (a' AND 0x03) OR drop_bit 4 b'"
      using b64_text_inj [OF gr(2) bs(2)] bs(3) lt(1) [of a] lt(1) [of a'] lt(2) [of a b]
        lt(2) [of a' b'] lt(3) [of b 0]
      by (simp_all add: group24_or Base64_at_inj numeral_3_eq_3 del: push_bit_and)
    have "a = a'" using rebuild_bytes(1) [of a b] rebuild_bytes(1) [of a' b'] unfolding ab a
      by (rule trans [OF sym])
    have and15: "b AND 0x0f = b' AND 0x0f"
      using digit_parts(3) [of b] bs(4) unfolding d by (rule trans [OF sym])
    have "b = b'" using byte_parts(2) [of a b] byte_parts(2) [of a' b'] unfolding ab and15
      by (rule trans [OF sym])
    moreover have "x = 0"
      using bs(5) digit_parts(4) [of b] unfolding d by (rule trans)
    moreover note \<open>a = a'\<close>
    ultimately show ?thesis using g bs(1) gr(1) 2 k ds enc by simp
  qed
  then show "bs = bsF" "k \<noteq> 1" "k \<noteq> 0 \<Longrightarrow> x = 0"
    "b64_text bsF = ?ds @ replicate (if k = 0 then 0 else 4 - k) Pad64" by blast+
qed


lemma visible_takeWhile: "visible (takeWhile (\<lambda>c. c \<noteq> Pad64) s) = takeWhile (\<lambda>c. c \<noteq> Pad64) (visible s)"
  by (induction s) auto

lemma b64_digits_of_text:
  assumes "visible s = b64_text bs"
  shows "b64_digits s = takeWhile (\<lambda>c. c \<noteq> Pad64) (b64_text bs)"
    and "\<forall>c \<in> set (b64_digits s). Base64_index c \<noteq> None"
    and "3 * length (b64_digits s) div 4 \<le> length bs"
proof -
  show ds: "b64_digits s = takeWhile (\<lambda>c. c \<noteq> Pad64) (b64_text bs)"
    unfolding b64_digits_def visible_takeWhile assms ..
  obtain g r where gr: "bs = g @ r" "length g mod 3 = 0" "length r < 3" by (rule groups_of_3)
  have np: "Pad64 \<notin> set (b64_text g)" using b64_text_groups [OF gr(2)] Base64_table(3) by blast
  obtain j where "length g = 3 * j" using gr(2) by (auto simp: mod_eq_0_iff_dvd)
  then have len: "length (b64_text g) = 4 * (length g div 3)"
    by (simp add: length_b64_text)
  consider "r = []" | a where "r = [a]" | a b where "r = [a, b]"
    using gr(3) by (auto simp: less_Suc_eq numeral_3_eq_3 length_Suc_conv)
  then have "\<exists>tl. b64_digits s = b64_text g @ tl \<and> set tl \<subseteq> set Base64
      \<and> 3 * length tl div 4 \<le> length r"
  proof cases
    case 1
    then show ?thesis using gr np by (intro exI [of _ "[]"]) (simp add: ds takeWhile_no_pad)
  next
    case (2 a)
    have "b64_text bs = (b64_text g @ take 2 (group24 a 0 0)) @ Pad64 # [Pad64]"
      using 2 b64_text_append [OF gr(2), of r] gr(1) by simp
    then have "b64_digits s = b64_text g @ take 2 (group24 a 0 0)"
      unfolding ds using np Pad64_not_digit(2) [of 2 a 0 0] by (simp only:) (intro takeWhile_no_pad, simp)
    moreover have "set (take 2 (group24 a 0 0)) \<subseteq> set Base64"
      using group24_digits [of a 0 0] set_take_subset by fast
    ultimately show ?thesis using 2 by (intro exI [of _ "take 2 (group24 a 0 0)"]) simp
  next
    case (3 a b)
    have "b64_text bs = (b64_text g @ take 3 (group24 a b 0)) @ Pad64 # []"
      using 3 b64_text_append [OF gr(2), of r] gr(1) by simp
    then have "b64_digits s = b64_text g @ take 3 (group24 a b 0)"
      unfolding ds using np Pad64_not_digit(2) [of 3 a b 0] by (simp only:) (intro takeWhile_no_pad, simp)
    moreover have "set (take 3 (group24 a b 0)) \<subseteq> set Base64"
      using group24_digits [of a b 0] set_take_subset by fast
    ultimately show ?thesis using 3 by (intro exI [of _ "take 3 (group24 a b 0)"]) simp
  qed
  then obtain tl where tl: "b64_digits s = b64_text g @ tl" "set tl \<subseteq> set Base64"
      "3 * length tl div 4 \<le> length r" by blast
  show "\<forall>c \<in> set (b64_digits s). Base64_index c \<noteq> None"
  proof
    fix c assume "c \<in> set (b64_digits s)"
    then have "c \<in> set Base64" using tl(1,2) b64_text_groups [OF gr(2)] by auto
    then obtain i where "i < 64" "c = Base64 ! i" using Base64_table(1) by (metis in_set_conv_nth)
    then have "unat (of_nat i :: byte) < 64 \<and> c = Base64_at (of_nat i)"
      by (simp add: Base64_at_def unat_of_nat)
    then show "Base64_index c \<noteq> None" using Base64_index_Some by blast
  qed
  have "3 * (4 * (length g div 3) + length tl) div 4 = 3 * (length g div 3) + 3 * length tl div 4"
    by presburger
  then show "3 * length (b64_digits s) div 4 \<le> length bs"
    using tl(3) gr(1) len by (simp add: tl(1))
qed

subsection \<open>Properties\<close>

text \<open>C11: \<open>f_b64_ntop\<close> computes the base64 text of its input. With room for the text and its NUL it
  returns the length (as a 32-bit \<open>int\<close>) and leaves the rest of the target alone; otherwise it
  returns -1, and in no case writes at or beyond \<open>targsize\<close>.\<close>

theorem f_b64_ntop_encodes:
  assumes "unat targsize \<le> length target" "length target < 2 ^ 63"
  shows "if length (b64_text src) < unat targsize
    then f_b64_ntop src target targsize =
      Some (sint (of_nat (length (b64_text src)) :: u32),
            b64_text src @ 0 # drop (length (b64_text src) + 1) target)
    else \<exists>t. f_b64_ntop src target targsize = Some (- 1, t) \<and> length t = length target
             \<and> drop (unat targsize) t = drop (unat targsize) target"
proof -
  have "f_b64_ntop src target targsize = ntop_from targsize src 0 target"
    by (simp add: f_b64_ntop_def ntop_from_def)
  with ntop_from_ok [of 0 targsize target src] assms show ?thesis
    by (simp add: ntop_ok_def)
qed

theorem f_b64_ntop_encodes_witness:
  "f_b64_ntop [77, 97, 110, 1] [7, 7, 7, 7, 7, 7, 7, 7, 7, 7, 7, 7] 12 =
     Some (8, [84, 87, 70, 117, 65, 81, 61, 61, 0, 7, 7, 7])"
proof -
  have "group24 77 97 110 = [84, 87, 70, 117]" "take 2 (group24 1 0 0) = [65, 81]"
    unfolding group24_or by code_simp+
  then have "b64_text [77, 97, 110, 1] = [84, 87, 70, 117, 65, 81, 61, 61]"
    by (simp add: Pad64_def)
  then show ?thesis
    using f_b64_ntop_encodes [of 12 "[7, 7, 7, 7, 7, 7, 7, 7, 7, 7, 7, 7]" "[77, 97, 110, 1]"]
    by simp
qed

text \<open>C12: round trip. A string whose visible characters are the base64 text of \<open>bs\<close>, with white space
  anywhere, is decoded to \<open>bs\<close>. The target needs one byte more than it gets.\<close>

theorem f_b64_pton_decodes:
  assumes "0 \<notin> set s" and "visible s = b64_text bs" and "length bs < unat targsize"
    and "unat targsize \<le> length target" and "length target < 2 ^ 31"
  shows "\<exists>t. f_b64_pton (s @ 0 # rest) (Some target) targsize = Some (int (length bs), Some t)
           \<and> take (length bs) t = bs"
proof (rule pton_accepts [OF assms(1,4,5), of rest])
  note d = b64_digits_of_text [OF assms(2)]
  {
    assume "pton_result_ok s target targsize (f_b64_pton (s @ 0 # rest) (Some target) targsize)"
    then show ?thesis using begun_unique(1) unfolding pton_result_ok_def d(1) by blast
  next
    fix t
    assume "(\<exists>c \<in> set (b64_digits s). Base64_index c = None)
       \<or> unat targsize \<le> 3 * length (b64_digits s) div 4
       \<or> (\<exists>k bs x. begun k bs (b64_digits s) x \<and>
            \<not> (if k = 0 then Pad64 \<notin> set s
               else k \<noteq> 1 \<and> Pad64 \<in> set s \<and> x = 0
                 \<and> visible (after_pad s) = (if k = 2 then [Pad64] else [])))"
    then obtain k b x where b: "begun k b (b64_digits s) x"
      and bad: "\<not> (if k = 0 then Pad64 \<notin> set s
               else k \<noteq> 1 \<and> Pad64 \<in> set s \<and> x = 0
                 \<and> visible (after_pad s) = (if k = 2 then [Pad64] else []))"
      using d(2,3) assms(3) by (meson le_trans not_le)
    note u = begun_unique [OF b [unfolded d(1)]]
    have "visible s = b64_digits s @ replicate (if k = 0 then 0 else 4 - k) Pad64"
      unfolding assms(2) d(1) by (rule u(4))
    with bad u(2,3) begun_cases(1) [OF b] visible_split [of s] show ?thesis
      by (auto simp: less_Suc_eq numeral_eq_Suc split: if_splits)
  }
qed

text \<open>C13: \<open>f_b64_pton\<close> accepts nothing else. Whatever the string, it stays inside the string and the
  target, and either returns -1 or the string, without its white space, is exactly the base64 text
  of the bytes it has stored: no other padding, no stray bits, no foreign character.\<close>

theorem f_b64_pton_canonical:
  assumes "0 \<notin> set s" and "unat targsize \<le> length target" and "length target < 2 ^ 31"
    and "f_b64_pton (s @ 0 # rest) (Some target) targsize = r"
  shows "(\<exists>t. r = Some (- 1, t))
     \<or> (\<exists>bs t. r = Some (int (length bs), Some t) \<and> take (length bs) t = bs
          \<and> visible s = b64_text bs \<and> length t = length target
          \<and> drop (Suc (length bs)) t = drop (Suc (length bs)) target)"
  by (rule pton_accepts [OF assms(1-3), of rest]) (auto simp: pton_result_ok_def assms(4))

theorem f_b64_pton_decodes_witness:
  "\<exists>t. f_b64_pton ([84, 87, 32, 70, 117, 65, 81, 61, 10, 61] @ 0 # []) (Some (replicate 8 7)) 8 =
         Some (int (length [77, 97, 110, 1 :: byte]), Some t)
       \<and> take (length [77, 97, 110, 1 :: byte]) t = [77, 97, 110, 1]"
proof (rule f_b64_pton_decodes)
  have "group24 77 97 110 = [84, 87, 70, 117]" "take 2 (group24 1 0 0) = [65, 81]"
    unfolding group24_or by code_simp+
  moreover have "visible [84, 87, 32, 70, 117, 65, 81, 61, 10, 61] = [84, 87, 70, 117, 65, 81, 61, 61]"
    by code_simp
  ultimately show "visible [84, 87, 32, 70, 117, 65, 81, 61, 10, 61] = b64_text [77, 97, 110, 1]"
    by (simp add: Pad64_def)
qed simp_all

theorem f_b64_pton_canonical_witness:
  "(\<exists>t. f_b64_pton ([65, 66, 61, 61] @ 0 # []) (Some (replicate 4 7)) 4 = Some (- 1, t))
     \<or> (\<exists>bs t. f_b64_pton ([65, 66, 61, 61] @ 0 # []) (Some (replicate 4 7)) 4
            = Some (int (length bs), Some t) \<and> take (length bs) t = bs
          \<and> visible [65, 66, 61, 61] = b64_text bs \<and> length t = length (replicate 4 (7 :: byte))
          \<and> drop (Suc (length bs)) t = drop (Suc (length bs)) (replicate 4 7))"
  by (rule f_b64_pton_canonical [OF _ _ _ refl]) simp_all

end
