(* ===== verification/Ldb_Coding.thy ===== *)
theory Ldb_Coding imports Prelude begin

text \<open>
  \<open>leveldb/util/coding.h\<close> and \<open>coding.cc\<close>: fixed and variable length integers and length-prefixed
  strings at the end of a \<open>std::string\<close> or the start of a \<open>Slice\<close>. Both are byte lists here; a reader
  over \<open>[p, limit)\<close> takes the bytes of that range and gives the value and the bytes from the new \<open>p\<close>
  on, and \<open>None\<close> for a null pointer or false. \<open>codec\<close> is the contract of a writer and its reader.
\<close>

type_synonym bytes = "byte list"

subsection \<open>Fixed length\<close>

text \<open>The build sets \<open>LEVELDB_IS_BIG_ENDIAN\<close> to 0; the other branch is the portable code.\<close>

definition kLittleEndian :: bool where
  "kLittleEndian = True"

definition EncodeFixed32_portable :: "u32 \<Rightarrow> bytes" where
  "EncodeFixed32_portable value =
     [ucast (value AND 0xff), ucast (drop_bit 8 value AND 0xff), ucast (drop_bit 16 value AND 0xff),
      ucast (drop_bit 24 value AND 0xff)]"

definition EncodeFixed32 :: "u32 \<Rightarrow> bytes" where
  "EncodeFixed32 value = (if kLittleEndian then le_bytes 4 value else EncodeFixed32_portable value)"

definition EncodeFixed64_portable :: "u64 \<Rightarrow> bytes" where
  "EncodeFixed64_portable value =
     [ucast (value AND 0xff), ucast (drop_bit 8 value AND 0xff), ucast (drop_bit 16 value AND 0xff),
      ucast (drop_bit 24 value AND 0xff), ucast (drop_bit 32 value AND 0xff),
      ucast (drop_bit 40 value AND 0xff), ucast (drop_bit 48 value AND 0xff),
      ucast (drop_bit 56 value AND 0xff)]"

definition EncodeFixed64 :: "u64 \<Rightarrow> bytes" where
  "EncodeFixed64 value = (if kLittleEndian then le_bytes 8 value else EncodeFixed64_portable value)"

text \<open>The readers look at the first four or eight bytes without a check that they are there: \<open>None\<close>
  stands for a read past the end.\<close>

definition DecodeFixed32_portable :: "bytes \<Rightarrow> u32" where
  "DecodeFixed32_portable p =
     ucast (p ! 0) OR push_bit 8 (ucast (p ! 1)) OR push_bit 16 (ucast (p ! 2))
       OR push_bit 24 (ucast (p ! 3))"

definition DecodeFixed32 :: "bytes \<Rightarrow> u32 option" where
  "DecodeFixed32 p =
     (if length p < 4 then None
      else Some (if kLittleEndian then le_word (take 4 p) else DecodeFixed32_portable p))"

definition DecodeFixed64_portable :: "bytes \<Rightarrow> u64" where
  "DecodeFixed64_portable p =
     (let lo = ucast (DecodeFixed32_portable p); hi = ucast (DecodeFixed32_portable (drop 4 p))
      in push_bit 32 hi OR lo)"

definition DecodeFixed64 :: "bytes \<Rightarrow> u64 option" where
  "DecodeFixed64 p =
     (if length p < 8 then None
      else Some (if kLittleEndian then le_word (take 8 p) else DecodeFixed64_portable p))"

definition PutFixed32 :: "bytes \<Rightarrow> u32 \<Rightarrow> bytes" where
  "PutFixed32 dst value = dst @ EncodeFixed32 value"

definition PutFixed64 :: "bytes \<Rightarrow> u64 \<Rightarrow> bytes" where
  "PutFixed64 dst value = dst @ EncodeFixed64 value"

subsection \<open>Variable length\<close>

definition EncodeVarint32 :: "u32 \<Rightarrow> bytes" where
  "EncodeVarint32 v =
     (if v < push_bit 7 1 then [ucast v]
      else if v < push_bit 14 1 then [ucast (v OR 128), ucast (drop_bit 7 v)]
      else if v < push_bit 21 1
      then [ucast (v OR 128), ucast (drop_bit 7 v OR 128), ucast (drop_bit 14 v)]
      else if v < push_bit 28 1
      then [ucast (v OR 128), ucast (drop_bit 7 v OR 128), ucast (drop_bit 14 v OR 128),
            ucast (drop_bit 21 v)]
      else [ucast (v OR 128), ucast (drop_bit 7 v OR 128), ucast (drop_bit 14 v OR 128),
            ucast (drop_bit 21 v OR 128), ucast (drop_bit 28 v)])"

lemma drop_bit_7_less:
  assumes "128 \<le> (v :: 'a::len word)" "(0 :: 'a word) < 128"
  shows "unat (drop_bit 7 v) < unat v"
proof -
  have "0 < unat v" using assms by (simp add: word_le_nat_alt word_less_nat_alt)
  moreover have "unat (drop_bit 7 v) = unat v div 128"
    by (simp only: unat_drop_bit_eq) (simp add: drop_bit_eq_div)
  ultimately show ?thesis by simp
qed

function EncodeVarint64 :: "u64 \<Rightarrow> bytes" where
  "EncodeVarint64 v =
     (if 128 \<le> v then ucast (v OR 128) # EncodeVarint64 (drop_bit 7 v) else [ucast v])"
  by auto
termination by (relation "measure unat") (auto intro!: drop_bit_7_less)

declare EncodeVarint64.simps [simp del]

definition PutVarint32 :: "bytes \<Rightarrow> u32 \<Rightarrow> bytes" where
  "PutVarint32 dst v = dst @ EncodeVarint32 v"

definition PutVarint64 :: "bytes \<Rightarrow> u64 \<Rightarrow> bytes" where
  "PutVarint64 dst v = dst @ EncodeVarint64 v"

text \<open>The length of a longer string is cut to 32 bits.\<close>

definition PutLengthPrefixedSlice :: "bytes \<Rightarrow> bytes \<Rightarrow> bytes" where
  "PutLengthPrefixedSlice dst value = PutVarint32 dst (of_nat (length value)) @ value"

function VarintLength :: "u64 \<Rightarrow> nat" where
  "VarintLength v = (if 128 \<le> v then Suc (VarintLength (drop_bit 7 v)) else 1)"
  by auto
termination by (relation "measure unat") (auto intro!: drop_bit_7_less)

declare VarintLength.simps [simp del]

text \<open>The loop of both readers, up to the shift \<open>maxshift\<close>.\<close>

fun varint_loop_upto :: "nat \<Rightarrow> 'a::len word \<Rightarrow> nat \<Rightarrow> bytes \<Rightarrow> ('a word \<times> bytes) option" where
  "varint_loop_upto maxshift result shift [] = None"
| "varint_loop_upto maxshift result shift (b # p) =
     (if shift \<le> maxshift
      then let byte = ucast b in
        if byte AND 128 \<noteq> 0
        then varint_loop_upto maxshift (result OR push_bit shift (byte AND 127)) (shift + 7) p
        else Some (result OR push_bit shift byte, p)
      else None)"

definition GetVarint32PtrFallback :: "bytes \<Rightarrow> (u32 \<times> bytes) option" where
  "GetVarint32PtrFallback p = varint_loop_upto 28 0 0 p"

definition GetVarint32Ptr :: "bytes \<Rightarrow> (u32 \<times> bytes) option" where
  "GetVarint32Ptr p =
     (case p of
        [] \<Rightarrow> GetVarint32PtrFallback p
      | b # q \<Rightarrow> if ucast b AND (128 :: u32) = 0 then Some (ucast b, q) else GetVarint32PtrFallback p)"

definition GetVarint64Ptr :: "bytes \<Rightarrow> (u64 \<times> bytes) option" where
  "GetVarint64Ptr p = varint_loop_upto 63 0 0 p"

definition GetVarint32 :: "bytes \<Rightarrow> (u32 \<times> bytes) option" where
  "GetVarint32 input = GetVarint32Ptr input"

definition GetVarint64 :: "bytes \<Rightarrow> (u64 \<times> bytes) option" where
  "GetVarint64 input = GetVarint64Ptr input"

text \<open>The variants on a pointer range and on a \<open>Slice\<close>.\<close>

definition GetLengthPrefixedSlice_ptr :: "bytes \<Rightarrow> (bytes \<times> bytes) option" where
  "GetLengthPrefixedSlice_ptr p =
     (case GetVarint32Ptr p of
        None \<Rightarrow> None
      | Some (len, p) \<Rightarrow>
          if length p < unat len then None else Some (take (unat len) p, drop (unat len) p))"

definition GetLengthPrefixedSlice :: "bytes \<Rightarrow> (bytes \<times> bytes) option" where
  "GetLengthPrefixedSlice input =
     (case GetVarint32 input of
        None \<Rightarrow> None
      | Some (len, input) \<Rightarrow>
          if unat len \<le> length input then Some (take (unat len) input, drop (unat len) input)
          else None)"


subsection \<open>What the writers put out\<close>

lemma EncodeVarint64_small: "unat v < 128 \<Longrightarrow> EncodeVarint64 v = [ucast v]"
  by (subst EncodeVarint64.simps) (simp add: word_le_nat_alt)

lemma EncodeVarint64_more:
  "128 \<le> unat v \<Longrightarrow> EncodeVarint64 v = ucast (v OR 128) # EncodeVarint64 (drop_bit 7 v)"
  by (subst EncodeVarint64.simps) (simp add: word_le_nat_alt)

lemma unat_drop_7: "unat (drop_bit 7 (v :: 'a::len word)) = unat v div 128"
  by (simp only: unat_drop_bit_eq) (simp add: drop_bit_eq_div)

lemma EncodeVarint64_not_Nil [simp]: "EncodeVarint64 v \<noteq> []"
  by (subst EncodeVarint64.simps) simp

text \<open>A value of at most \<open>7 * n\<close> bits takes at most \<open>n\<close> bytes.\<close>

lemma div_128_less: "m < 2 ^ (7 * Suc (Suc n)) \<Longrightarrow> m div 128 < (2 :: nat) ^ (7 * Suc n)"
  by (rule less_mult_imp_div_less) (simp add: power_add)

lemma length_EncodeVarint64_le:
  "unat v < 2 ^ (7 * Suc n) \<Longrightarrow> length (EncodeVarint64 v) \<le> Suc n"
proof (induction n arbitrary: v)
  case (Suc n)
  show ?case
  proof (cases "unat v < 128")
    case False
    have "unat (drop_bit 7 v) < 2 ^ (7 * Suc n)"
      unfolding unat_drop_7 by (rule div_128_less [OF Suc.prems])
    with Suc.IH [OF this] False show ?thesis by (simp add: EncodeVarint64_more)
  qed (simp add: EncodeVarint64_small)
qed (simp add: EncodeVarint64_small)

lemma length_EncodeVarint64: "length (EncodeVarint64 v) \<le> 10"
proof -
  have "unat v < 2 ^ (7 * Suc 9)" using unat_lt64 [of v] by simp
  from length_EncodeVarint64_le [OF this] show ?thesis by simp
qed

lemma ucast_u32_u64 [simp]: "ucast (ucast (v :: u32) :: u64) = v"
  by transfer (simp add: take_bit_take_bit)

lemma bit_first_group:
  "bit (ucast (ucast (v OR 128 :: u64) :: byte) AND 127 :: 'a::len word) n
     \<longleftrightarrow> n < 7 \<and> n < LENGTH('a) \<and> bit v n"
  by (auto simp: bit_and_0x7F bit_unsigned_iff bit_or_0x80)

lemma EncodeVarint64_loop_bits:
  "push_bit s (ucast (ucast (v OR 128 :: u64) :: byte) AND 127) OR push_bit (s + 7) (ucast (drop_bit 7 v))
     = push_bit s (ucast v :: 'a::len word)"
proof -
  define x where "x = (ucast (ucast (v OR 128 :: u64) :: byte) AND 127 :: 'a word)"
  have x: "bit x n \<longleftrightarrow> n < 7 \<and> n < LENGTH('a) \<and> bit v n" for n
    unfolding x_def by (rule bit_first_group)
  have "push_bit s x OR push_bit (s + 7) (ucast (drop_bit 7 v)) = push_bit s (ucast v)"
  proof (rule bit_word_eqI)
    fix n assume "n < LENGTH('a)"
    then show "bit (push_bit s x OR push_bit (s + 7) (ucast (drop_bit 7 v))) n
        = bit (push_bit s (ucast v :: 'a word)) n"
      by (cases "n < s + 7") (auto simp: bit_or_iff bit_push_bit_iff x bit_unsigned_iff bit_drop_bit_eq)
  qed
  then show ?thesis by (simp only: x_def)
qed

lemma bit_small_nat:
  assumes "unat (w :: 'a::len word) < 2 ^ k" and "bit w n"
  shows "n < k"
proof -
  have "bit (take_bit k (unat w)) n"
    using assms by (simp add: take_bit_nat_eq_self bit_unsigned_iff bit_imp_le_length)
  then show ?thesis by (simp add: bit_take_bit_iff)
qed

lemma and_128: "w AND 128 = 0 \<longleftrightarrow> \<not> bit (w :: 'a::len word) 7"
  using and_0x80 [of w] by simp

text \<open>The readers undo the writer, as long as the shift stays in range.\<close>

lemma varint_loop_small:
  assumes "7 < LENGTH('a)" and v: "unat v < 128" and "s \<le> m"
  shows "varint_loop_upto m r s (EncodeVarint64 v @ rest) = Some (r OR push_bit s (ucast v :: 'a::len word), rest)"
proof -
  have small: "n < 7" if "bit v n" for n using bit_small_nat [of v 7 n] v that by simp
  have "ucast (ucast v :: byte) = (ucast v :: 'a word)"
    by (rule bit_word_eqI) (auto simp: bit_unsigned_iff dest: small)
  moreover have "\<not> bit v 7" using small [of 7] by auto
  ultimately show ?thesis using assms
    by (simp add: EncodeVarint64_small and_128 bit_unsigned_iff)
qed

lemma varint_loop_EncodeVarint64:
  assumes "7 < LENGTH('a)"
  shows "unat v < 2 ^ (7 * Suc n) \<Longrightarrow> s + 7 * n \<le> m \<Longrightarrow>
    varint_loop_upto m r s (EncodeVarint64 v @ rest) = Some (r OR push_bit s (ucast v :: 'a::len word), rest)"
proof (induction n arbitrary: v r s)
  case 0
  then show ?case by (simp add: varint_loop_small assms)
next
  case (Suc n)
  show ?case
  proof (cases "unat v < 128")
    case True
    with Suc.prems(2) show ?thesis by (simp add: varint_loop_small assms)
  next
    case False
    have "unat (drop_bit 7 v) < 2 ^ (7 * Suc n)"
      unfolding unat_drop_7 by (rule div_128_less [OF Suc.prems(1)])
    with False Suc.IH [OF this, of "s + 7"] Suc.prems(2) assms show ?thesis
      by (simp add: EncodeVarint64_more and_128 bit_unsigned_iff bit_or_0x80 EncodeVarint64_loop_bits or.assoc
          del: push_bit_and)
  qed
qed

text \<open>The unrolled writer puts out the same bytes.\<close>

lemma EncodeVarint64_drop:
  "EncodeVarint64 (drop_bit k (ucast (v :: u32))) =
     (if unat v < 2 ^ (k + 7) then [ucast (drop_bit k v)]
      else ucast (drop_bit k v OR 128) # EncodeVarint64 (drop_bit (k + 7) (ucast v)))"
proof -
  have u: "unat (drop_bit k (ucast v :: u64)) = unat v div 2 ^ k"
    by (simp only: unat_drop_bit_eq unat_ucast_u64) (simp add: drop_bit_eq_div)
  have lt: "unat v div 2 ^ k < 128 \<longleftrightarrow> unat v < 2 ^ (k + 7)"
    by (simp add: div_less_iff_less_mult power_add mult.commute)
  have "ucast (drop_bit k (ucast v :: u64)) = (ucast (drop_bit k v) :: byte)"
    by (rule bit_word_eqI) (auto simp: bit_unsigned_iff bit_drop_bit_eq dest: bit_imp_le_length)
  moreover have "ucast (drop_bit k (ucast v :: u64) OR 128) = (ucast (drop_bit k v OR 128) :: byte)"
    by (rule bit_word_eqI)
      (auto simp: bit_unsigned_iff bit_drop_bit_eq bit_or_0x80 dest: bit_imp_le_length)
  ultimately show ?thesis
    using lt EncodeVarint64_small [of "drop_bit k (ucast v)"] EncodeVarint64_more [of "drop_bit k (ucast v)"]
    by (cases "unat v < 2 ^ (k + 7)") (simp_all add: u not_less drop_bit_drop_bit add.commute [of 7])
qed

lemma EncodeVarint32_eq: "EncodeVarint32 v = EncodeVarint64 (ucast v)"
proof -
  have "unat v < 2 ^ 35" using unat_lt32 [of v] by simp
  then have "EncodeVarint64 (ucast v) =
     (if unat v < 2 ^ 7 then [ucast v]
      else ucast (v OR 128) # (if unat v < 2 ^ 14 then [ucast (drop_bit 7 v)]
      else ucast (drop_bit 7 v OR 128) # (if unat v < 2 ^ 21 then [ucast (drop_bit 14 v)]
      else ucast (drop_bit 14 v OR 128) # (if unat v < 2 ^ 28 then [ucast (drop_bit 21 v)]
      else [ucast (drop_bit 21 v OR 128), ucast (drop_bit 28 v)]))))"
    using EncodeVarint64_drop [of 0 v] EncodeVarint64_drop [of 7 v] EncodeVarint64_drop [of 14 v]
      EncodeVarint64_drop [of 21 v] EncodeVarint64_drop [of 28 v]
    by simp
  then show ?thesis
    unfolding EncodeVarint32_def by (simp add: word_less_nat_alt)
qed

subsection \<open>The contract\<close>

text \<open>\<open>put v\<close> are the bytes that the writer appends. The reader takes them back, whatever follows, and
  never anything but the start of its input.\<close>

locale codec =
  fixes put :: "'a \<Rightarrow> bytes" and get :: "bytes \<Rightarrow> ('a \<times> bytes) option" and valid :: "'a \<Rightarrow> bool"
  assumes get_put: "valid v \<Longrightarrow> get (put v @ rest) = Some (v, rest)"
    and get_suffix: "get p = Some (v, q) \<Longrightarrow> \<exists>x. x \<noteq> [] \<and> p = x @ q"
begin

lemma get_put_Nil: "valid v \<Longrightarrow> get (put v) = Some (v, [])"
  using get_put [of v "[]"] by simp

lemma put_not_Nil: "valid v \<Longrightarrow> put v \<noteq> []"
  using get_suffix [OF get_put_Nil] by auto

lemma put_inject: "valid v \<Longrightarrow> valid w \<Longrightarrow> put v @ x = put w @ y \<longleftrightarrow> v = w \<and> x = y"
  by (metis get_put option.inject prod.inject)

lemma get_length: "get p = Some (v, q) \<Longrightarrow> length q < length p"
  using get_suffix by fastforce

lemma get_Nil: "get [] = None"
  using get_suffix [of "[]"] by (cases "get []") auto

end

text \<open>Two values one after the other.\<close>

definition put_pair :: "('a \<Rightarrow> bytes) \<Rightarrow> ('b \<Rightarrow> bytes) \<Rightarrow> 'a \<times> 'b \<Rightarrow> bytes" where
  "put_pair put1 put2 = (\<lambda>(a, b). put1 a @ put2 b)"

definition get_pair ::
  "(bytes \<Rightarrow> ('a \<times> bytes) option) \<Rightarrow> (bytes \<Rightarrow> ('b \<times> bytes) option) \<Rightarrow> bytes \<Rightarrow> (('a \<times> 'b) \<times> bytes) option" where
  "get_pair get1 get2 p = (case get1 p of None \<Rightarrow> None
     | Some (a, q) \<Rightarrow> map_option (\<lambda>(b, r). ((a, b), r)) (get2 q))"

locale codec_pair = fst: codec put1 get1 valid1 + snd: codec put2 get2 valid2
  for put1 :: "'a \<Rightarrow> bytes" and get1 valid1 and put2 :: "'b \<Rightarrow> bytes" and get2 valid2

sublocale codec_pair \<subseteq> codec "put_pair put1 put2" "get_pair get1 get2" "\<lambda>(a, b). valid1 a \<and> valid2 b"
proof unfold_locales
  fix v :: "'a \<times> 'b" and rest
  assume "case v of (a, b) \<Rightarrow> valid1 a \<and> valid2 b"
  then show "get_pair get1 get2 (put_pair put1 put2 v @ rest) = Some (v, rest)"
    by (cases v) (simp add: put_pair_def get_pair_def fst.get_put snd.get_put)
next
  fix p :: bytes and v :: "'a \<times> 'b" and q
  assume "get_pair get1 get2 p = Some (v, q)"
  then obtain a r b where r: "get1 p = Some (a, r)" "get2 r = Some (b, q)"
    by (auto simp: get_pair_def split: option.splits)
  show "\<exists>x. x \<noteq> [] \<and> p = x @ q"
    using fst.get_suffix [OF r(1)] snd.get_suffix [OF r(2)] by force
qed

lemma varint_loop_suffix:
  "varint_loop_upto m r s p = Some (v, q) \<Longrightarrow> \<exists>x. x \<noteq> [] \<and> p = x @ q"
proof (induction p arbitrary: r s)
  case (Cons b p)
  show ?case
  proof (cases "varint_loop_upto m (r OR push_bit s (ucast b AND 127)) (s + 7) p = Some (v, q)")
    case True
    from Cons.IH [OF this] show ?thesis by force
  next
    case False
    with Cons.prems show ?thesis by (auto simp: Let_def split: if_splits intro: exI [of _ "[b]"])
  qed
qed simp

lemma GetVarint32Ptr_fallback: "GetVarint32Ptr p = GetVarint32PtrFallback p"
proof (cases p)
  case (Cons b q)
  then show ?thesis
    by (auto simp: GetVarint32Ptr_def GetVarint32PtrFallback_def and_128 bit_unsigned_iff)
qed (simp add: GetVarint32Ptr_def)

interpretation varint64: codec EncodeVarint64 GetVarint64 "\<lambda>_. True"
proof unfold_locales
  fix v :: u64 and rest
  have "unat v < 2 ^ (7 * Suc 9)" using unat_lt64 [of v] by simp
  from varint_loop_EncodeVarint64 [where 'a = 64, OF _ this, of 0 63 0 rest]
  show "GetVarint64 (EncodeVarint64 v @ rest) = Some (v, rest)"
    by (simp add: GetVarint64_def GetVarint64Ptr_def)
qed (simp add: GetVarint64_def GetVarint64Ptr_def varint_loop_suffix)

interpretation varint32: codec EncodeVarint32 GetVarint32 "\<lambda>_. True"
proof unfold_locales
  fix v :: u32 and rest
  have "unat (ucast v :: u64) < 2 ^ (7 * Suc 4)" using unat_lt32 [of v] by simp
  from varint_loop_EncodeVarint64 [where 'a = 32, OF _ this, of 0 28 0 rest]
  show "GetVarint32 (EncodeVarint32 v @ rest) = Some (v, rest)"
    by (simp add: GetVarint32_def GetVarint32Ptr_fallback GetVarint32PtrFallback_def EncodeVarint32_eq)
qed (simp add: GetVarint32_def GetVarint32Ptr_fallback GetVarint32PtrFallback_def varint_loop_suffix)

definition length_prefixed :: "bytes \<Rightarrow> bytes" where
  "length_prefixed value = PutLengthPrefixedSlice [] value"

lemma PutLengthPrefixedSlice_append: "PutLengthPrefixedSlice dst value = dst @ length_prefixed value"
  by (simp add: length_prefixed_def PutLengthPrefixedSlice_def PutVarint32_def)

interpretation slice: codec length_prefixed GetLengthPrefixedSlice "\<lambda>v. length v < 2 ^ 32"
proof unfold_locales
  fix v :: bytes and rest
  assume "length v < 2 ^ 32"
  then show "GetLengthPrefixedSlice (length_prefixed v @ rest) = Some (v, rest)"
    by (simp add: length_prefixed_def PutLengthPrefixedSlice_def PutVarint32_def
        GetLengthPrefixedSlice_def varint32.get_put unat_of_nat take_bit_nat_eq_self)
next
  fix p v q
  assume "GetLengthPrefixedSlice p = Some (v, q)"
  then obtain n r where n: "GetVarint32 p = Some (n, r)" "q = drop (unat n) r"
    by (auto simp: GetLengthPrefixedSlice_def split: option.splits if_splits)
  from varint32.get_suffix [OF n(1)] obtain x where "x \<noteq> []" "p = x @ r" by blast
  then show "\<exists>x. x \<noteq> [] \<and> p = x @ q"
    by (intro exI [of _ "x @ take (unat n) r"]) (simp add: n(2))
qed


subsection \<open>Properties\<close>

lemma take_4_append: "take 4 (le_bytes 4 v @ rest) = le_bytes 4 v"
  by simp

lemma DecodeFixed32_le [simp]: "4 \<le> length p \<Longrightarrow> DecodeFixed32 p = Some (le_word (take 4 p))"
  by (simp add: DecodeFixed32_def kLittleEndian_def)

lemma DecodeFixed64_le [simp]: "8 \<le> length p \<Longrightarrow> DecodeFixed64 p = Some (le_word (take 8 p))"
  by (simp add: DecodeFixed64_def kLittleEndian_def)

lemma EncodeFixed32_le [simp]: "EncodeFixed32 v = le_bytes 4 v"
  by (simp add: EncodeFixed32_def kLittleEndian_def)

lemma EncodeFixed64_le [simp]: "EncodeFixed64 v = le_bytes 8 v"
  by (simp add: EncodeFixed64_def kLittleEndian_def)

lemma ucast_and_0xff: "ucast (w AND 0xff :: 'a::len word) = (ucast w :: byte)"
proof (rule bit_word_eqI)
  fix n assume "n < LENGTH(8)"
  have eq: "(0xff :: 'a word) = mask 8" by (simp add: mask_eq_exp_minus_1)
  show "bit (ucast (w AND 0xff) :: byte) n = bit (ucast w :: byte) n"
    unfolding eq by (auto simp: bit_unsigned_iff bit_and_iff bit_mask_iff dest: bit_imp_le_length)
qed

lemma upt_4: "[0..<4] = [0, 1, 2, 3 :: nat]" and upt_8: "[0..<8] = [0, 1, 2, 3, 4, 5, 6, 7 :: nat]"
  by (simp_all add: upt_rec)

lemma take_4_nth: "4 \<le> length p \<Longrightarrow> take 4 p = [p ! 0, p ! 1, p ! 2, p ! 3]"
  by (rule nth_equalityI) (auto simp: less_Suc_eq numeral_eq_Suc)

lemma DecodeFixed32_portable_eq: "4 \<le> length p \<Longrightarrow> DecodeFixed32_portable p = le_word (take 4 p)"
  by (simp add: DecodeFixed32_portable_def take_4_nth push_bit_or or.assoc)

lemma DecodeFixed64_portable_eq:
  assumes "8 \<le> length p"
  shows "DecodeFixed64_portable p = le_word (take 8 p)"
proof -
  have eq: "DecodeFixed64_portable p
      = push_bit 32 (ucast (le_word (take 4 (drop 4 p)) :: u32)) OR ucast (le_word (take 4 p) :: u32)"
    using assms by (simp add: DecodeFixed64_portable_def DecodeFixed32_portable_eq)
  show ?thesis
  proof (rule bit_word_eqI)
    fix n assume n: "n < LENGTH(64)"
    show "bit (DecodeFixed64_portable p) n = bit (le_word (take 8 p) :: u64) n"
    proof (cases "n < 32")
      case True
      then have "n div 8 < 4" by simp
      with True n assms show ?thesis
        by (simp add: eq bit_or_iff bit_push_bit_iff bit_unsigned_iff bit_le_word)
    next
      case False
      then obtain m where m: "n = m + 32" by (metis add.commute le_add_diff_inverse not_less)
      with n have "m < 32" by simp
      moreover have "(m + 32) div 8 = m div 8 + 4" "(m + 32) mod 8 = m mod 8" by presburger+
      ultimately show ?thesis using assms
        by (simp add: m eq bit_or_iff bit_push_bit_iff bit_unsigned_iff bit_le_word add.commute)
    qed
  qed
qed

text \<open>C21: the two branches of the endian test are the same code: the portable writers and readers of the
  fixed-width integers agree with the plain stores and loads of a little-endian machine.\<close>

theorem ldb_fixed_portable:
  "EncodeFixed32_portable v = le_bytes 4 v \<and> EncodeFixed64_portable w = le_bytes 8 w
   \<and> DecodeFixed32_portable (le_bytes 4 v @ rest) = v \<and> DecodeFixed64_portable (le_bytes 8 w @ rest) = w
   \<and> DecodeFixed32 (PutFixed32 [] v @ rest) = Some v \<and> DecodeFixed64 (PutFixed64 [] w @ rest) = Some w"
proof (intro conjI)
  show "EncodeFixed32_portable v = le_bytes 4 v" "EncodeFixed64_portable w = le_bytes 8 w"
    by (simp_all add: EncodeFixed32_portable_def EncodeFixed64_portable_def le_bytes_def upt_4 upt_8
        ucast_and_0xff)
  show "DecodeFixed32_portable (le_bytes 4 v @ rest) = v" "DecodeFixed64_portable (le_bytes 8 w @ rest) = w"
    by (simp_all add: DecodeFixed32_portable_eq DecodeFixed64_portable_eq)
qed (simp_all add: PutFixed32_def PutFixed64_def)


lemma fold_PutFixed32: "fold (\<lambda>off r. r @ le_bytes 4 off) ws r = r @ concat (map (le_bytes 4) ws)"
  by (induction ws arbitrary: r) simp_all

lemma VarintLength_eq: "VarintLength v = length (EncodeVarint64 v)"
  by (induction v rule: VarintLength.induct)
    (subst VarintLength.simps, subst EncodeVarint64.simps, simp)

text \<open>C20: every 32- and 64-bit integer is read back from its variable length code, which has
  \<open>VarintLength\<close> bytes, at most ten, and is the same code for both widths.\<close>

theorem ldb_varint_roundtrip:
  "GetVarint32 (PutVarint32 [] v @ rest) = Some (v, rest)
   \<and> GetVarint64 (PutVarint64 [] w @ rest) = Some (w, rest)
   \<and> PutVarint64 dst w = dst @ PutVarint64 [] w \<and> PutVarint32 dst v = PutVarint64 dst (ucast v)
   \<and> length (PutVarint64 [] w) = VarintLength w \<and> VarintLength w \<le> 10"
  by (simp add: PutVarint32_def PutVarint64_def varint32.get_put varint64.get_put
      varint32.get_put [unfolded EncodeVarint32_eq] EncodeVarint32_eq VarintLength_eq length_EncodeVarint64)


lemma varint_loop_None:
  assumes "7 < LENGTH('a)"
  shows "varint_loop_upto (7 * k) (r :: 'a::len word) (7 * j) p = None
    \<longleftrightarrow> list_all (\<lambda>b. bit b 7) (take (Suc k - j) p)"
proof (induction p arbitrary: r j)
  case (Cons b p)
  have IH: "varint_loop_upto (7 * k) r (7 * j + 7) p = None \<longleftrightarrow> list_all (\<lambda>b. bit b 7) (take (k - j) p)" for r :: "'a word"
    using Cons.IH [of r "Suc j"] by (simp add: add.commute)
  show ?case
  proof (cases "j \<le> k")
    case True
    then have "take (Suc k - j) (b # p) = b # take (k - j) p" by (simp add: Suc_diff_le)
    then show ?thesis
      using True assms by (simp add: Let_def and_128 bit_unsigned_iff IH)
  qed simp
qed simp

text \<open>C22: the readers fail just where no byte among the first five or ten ends the code, and a
  successful read takes a non-empty start of the input; a string lies within the input.\<close>

theorem ldb_get_errors:
  "(GetVarint32 p = None \<longleftrightarrow> list_all (\<lambda>b. bit b 7) (take 5 p))
   \<and> (GetVarint64 p = None \<longleftrightarrow> list_all (\<lambda>b. bit b 7) (take 10 p))
   \<and> (\<nexists>v q. GetLengthPrefixedSlice p = Some (v, q) \<and> (\<nexists>x. p = x @ v @ q))
   \<and> GetLengthPrefixedSlice_ptr p = GetLengthPrefixedSlice p"
proof (intro conjI notI)
  show "GetVarint32 p = None \<longleftrightarrow> list_all (\<lambda>b. bit b 7) (take 5 p)"
    using varint_loop_None [where 'a = 32, of 4 0 0 p]
    by (simp add: GetVarint32_def GetVarint32Ptr_fallback GetVarint32PtrFallback_def)
  show "GetVarint64 p = None \<longleftrightarrow> list_all (\<lambda>b. bit b 7) (take 10 p)"
    using varint_loop_None [where 'a = 64, of 9 0 0 p]
    by (simp add: GetVarint64_def GetVarint64Ptr_def)
next
  assume "\<exists>v q. GetLengthPrefixedSlice p = Some (v, q) \<and> (\<nexists>x. p = x @ v @ q)"
  then obtain v q where v: "GetLengthPrefixedSlice p = Some (v, q)" "\<nexists>x. p = x @ v @ q" by blast
  then obtain n r where n: "GetVarint32 p = Some (n, r)" "v = take (unat n) r" "q = drop (unat n) r"
    by (auto simp: GetLengthPrefixedSlice_def split: option.splits if_splits)
  from varint32.get_suffix [OF n(1)] v(2) show False by (auto simp: n(2,3))
qed (auto simp: GetLengthPrefixedSlice_ptr_def GetLengthPrefixedSlice_def GetVarint32_def split: option.split)

end
