(* ===== verification/Ldb_Filter.thy ===== *)
theory Ldb_Filter imports Ldb_Coding begin

text \<open>
  Bloom filters of leveldb: \<open>util/hash.cc\<close>, \<open>util/bloom.cc\<close> and the filter block of a table,
  \<open>table/filter_block.cc\<close>. \<open>filter_policy\<close> is the contract that the filter block relies on: a filter
  made for some keys matches each of them.
\<close>

subsection \<open>Hash\<close>

text \<open>The loop over whole words runs while \<open>data + 4 <= limit\<close>, that is while \<open>DecodeFixed32\<close> has its
  four bytes.\<close>

function hash_words :: "u32 \<Rightarrow> bytes \<Rightarrow> u32 \<times> bytes" where
  "hash_words h data =
     (case DecodeFixed32 data of
        None \<Rightarrow> (h, data)
      | Some w \<Rightarrow>
          let h = h + w; h = h * 0xc6a4a793; h = h XOR drop_bit 16 h in hash_words h (drop 4 data))"
  by auto
termination
  by (relation "measure (\<lambda>(h, data). length data)") (auto simp: DecodeFixed32_def split: if_splits)

declare hash_words.simps [simp del]

definition hash_tail :: "u32 \<Rightarrow> bytes \<Rightarrow> u32" where
  "hash_tail h data =
     (let h = (if length data = 3 then h + push_bit 16 (ucast (data ! 2)) else h);
          h = (if length data = 3 \<or> length data = 2 then h + push_bit 8 (ucast (data ! 1)) else h)
      in if length data = 3 \<or> length data = 2 \<or> length data = 1
         then let h = h + ucast (data ! 0); h = h * 0xc6a4a793 in h XOR drop_bit 24 h
         else h)"

definition Hash :: "bytes \<Rightarrow> u32 \<Rightarrow> u32" where
  "Hash data seed =
     (let h = seed XOR ucast ((of_nat (length data) :: csize) * 0xc6a4a793)
      in case hash_words h data of (h, data) \<Rightarrow> hash_tail h data)"

subsection \<open>The Bloom filter policy\<close>

definition BloomHash :: "bytes \<Rightarrow> u32" where
  "BloomHash key = Hash key 0xbc9f1d34"

text \<open>The argument is an \<open>int\<close> that is not negative. The number of probes, the \<open>double\<close>
  \<open>bits_per_key * 0.69\<close> cut to an integer, is exact as a fraction where it is not capped.\<close>

record BloomFilterPolicy =
  bf_bits_per_key :: csize
  bf_k :: csize

definition new_BloomFilterPolicy :: "31 word \<Rightarrow> BloomFilterPolicy" where
  "new_BloomFilterPolicy bits_per_key =
     (let k = unat bits_per_key * 69 div 100;
          k = (if k < 1 then 1 else k);
          k = (if k > 30 then 30 else k)
      in \<lparr>bf_bits_per_key = ucast bits_per_key, bf_k = of_nat k\<rparr>)"

definition rotate_17 :: "u32 \<Rightarrow> u32" where
  "rotate_17 h = drop_bit 17 h OR push_bit 15 h"

text \<open>The probes \<open>j, j + 1, ...\<close> of one key.\<close>

primrec bloom_set :: "nat \<Rightarrow> csize \<Rightarrow> u32 \<Rightarrow> u32 \<Rightarrow> bytes \<Rightarrow> bytes" where
  "bloom_set 0 bits h delta a = a"
| "bloom_set (Suc j) bits h delta a =
     (let bitpos = unat (ucast h mod bits);
          a = a[bitpos div 8 := a ! (bitpos div 8) OR push_bit (bitpos mod 8) 1]
      in bloom_set j bits (h + delta) delta a)"

definition bloom_bytes :: "BloomFilterPolicy \<Rightarrow> nat \<Rightarrow> csize" where
  "bloom_bytes p n =
     (let bits = of_nat n * bf_bits_per_key p;
          bits = (if bits < 64 then 64 else bits)
      in (bits + 7) div 8)"

definition bloom_CreateFilter :: "BloomFilterPolicy \<Rightarrow> bytes list \<Rightarrow> bytes \<Rightarrow> bytes" where
  "bloom_CreateFilter p keys dst =
     (let n = bloom_bytes p (length keys);
          bits = n * 8;
          a = fold (\<lambda>key a. let h = BloomHash key in bloom_set (unat (bf_k p)) bits h (rotate_17 h) a)
                keys (replicate (unat n) 0)
      in dst @ a @ [ucast (bf_k p)])"

primrec bloom_test :: "nat \<Rightarrow> csize \<Rightarrow> u32 \<Rightarrow> u32 \<Rightarrow> bytes \<Rightarrow> bool" where
  "bloom_test 0 bits h delta a = True"
| "bloom_test (Suc j) bits h delta a =
     (let bitpos = unat (ucast h mod bits)
      in if a ! (bitpos div 8) AND push_bit (bitpos mod 8) 1 = 0 then False
         else bloom_test j bits (h + delta) delta a)"

definition bloom_KeyMayMatch :: "bytes \<Rightarrow> bytes \<Rightarrow> bool" where
  "bloom_KeyMayMatch key bloom_filter =
     (let len = length bloom_filter in
      if len < 2 then False
      else let bits = of_nat (len - 1) * 8; k = (scast (bloom_filter ! (len - 1)) :: csize) in
        if k > 30 then True
        else let h = BloomHash key in bloom_test (unat k) bits h (rotate_17 h) bloom_filter)"

subsection \<open>No false negatives\<close>

text \<open>One array has all the bits of another.\<close>

definition bits_le :: "bytes \<Rightarrow> bytes \<Rightarrow> bool" where
  "bits_le a b \<longleftrightarrow> length a = length b \<and> (\<forall>i n. i < length a \<longrightarrow> bit (a ! i) n \<longrightarrow> bit (b ! i) n)"

lemma bits_le_refl [simp]: "bits_le a a"
  by (simp add: bits_le_def)

lemma bits_le_trans: "bits_le a b \<Longrightarrow> bits_le b c \<Longrightarrow> bits_le a c"
  by (simp add: bits_le_def)

lemma bits_le_set: "bits_le a (a[i := a ! i OR w])"
  unfolding bits_le_def
proof (intro conjI allI impI)
  fix j n assume "j < length a" "bit (a ! j) n"
  then show "bit (a[i := a ! i OR w] ! j) n" by (cases "j = i") (simp_all add: bit_or_iff)
qed simp

lemma bits_le_bloom_set: "bits_le a (bloom_set j bits h delta a)"
proof (induction j arbitrary: h a)
  case (Suc j)
  then show ?case by (simp add: Let_def) (blast intro: bits_le_trans bits_le_set)
qed simp

lemma bits_le_fold:
  "(\<And>x a. bits_le a (f x a)) \<Longrightarrow> bits_le a (fold f xs a)"
  by (induction xs arbitrary: a) (auto intro: bits_le_trans)

text \<open>The position of a probe lies in the array.\<close>

lemma bitpos_less:
  assumes "0 < n" "8 * n < 2 ^ 64"
  shows "unat (ucast (h :: u32) mod (of_nat n * 8 :: csize)) < 8 * n"
proof -
  have n: "unat (of_nat n * 8 :: csize) = 8 * n"
    using assms(2) by (simp add: unat_word_ariths unat_of_nat take_bit_nat_eq_self)
  then show ?thesis using assms(1) by (simp add: unat_mod)
qed

lemma and_push_bit_1: "w AND 2 ^ n = 0 \<longleftrightarrow> \<not> bit (w :: 'a::len word) n"
  by (simp add: bit_iff_and_push_bit_not_eq_0)

lemma bloom_test_set:
  assumes "0 < n" "8 * n < 2 ^ 64" and "length a = n" and "bits_le (bloom_set j (of_nat n * 8) h delta a) b"
  shows "bloom_test j (of_nat n * 8) h delta (b @ x)"
  using assms(3,4)
proof (induction j arbitrary: h a)
  case (Suc j)
  let ?pos = "unat (ucast h mod (of_nat n * 8 :: csize))"
  let ?a = "a[?pos div 8 := a ! (?pos div 8) OR push_bit (?pos mod 8) 1]"
  have pos: "?pos div 8 < n" using bitpos_less [OF assms(1,2), of h] by simp
  have "bits_le ?a b"
    using Suc.prems(2) bits_le_bloom_set bits_le_trans by (simp add: Let_def) blast
  moreover have "bit (?a ! (?pos div 8)) (?pos mod 8)"
    using pos Suc.prems(1) by (simp add: bit_or_iff bit_exp_iff)
  ultimately have "bit (b ! (?pos div 8)) (?pos mod 8)" "length b = n"
    using pos Suc.prems(1) by (auto simp: bits_le_def)
  with pos Suc.IH [of ?a "h + delta"] Suc.prems show ?case
    by (simp add: Let_def and_push_bit_1 nth_append)
qed simp

lemma fold_key_test:
  assumes "0 < n" "8 * n < 2 ^ 64" and "length a = n" and "key \<in> set keys"
    and f: "f = (\<lambda>key a. let h = BloomHash key in bloom_set j (of_nat n * 8) h (rotate_17 h) a)"
  shows "bloom_test j (of_nat n * 8) (BloomHash key) (rotate_17 (BloomHash key)) (fold f keys a @ x)"
  using assms(3,4)
proof (induction keys arbitrary: a)
  case (Cons k keys)
  have le: "bits_le a (f k' a)" for k' a by (simp add: f Let_def bits_le_bloom_set)
  show ?case
  proof (cases "k = key")
    case True
    have "bits_le (f k a) (fold f keys (f k a))" by (rule bits_le_fold [OF le])
    with True bloom_test_set [OF assms(1,2) Cons.prems(1)] show ?thesis by (simp add: f Let_def)
  next
    case False
    with Cons le [of a k] show ?thesis by (simp add: bits_le_def)
  qed
qed simp


text \<open>The contract of a filter policy, for up to \<open>max_keys\<close> keys.\<close>

locale filter_policy =
  fixes CreateFilter :: "bytes list \<Rightarrow> bytes \<Rightarrow> bytes"
    and KeyMayMatch :: "bytes \<Rightarrow> bytes \<Rightarrow> bool"
    and max_keys :: nat
  assumes CreateFilter_appends: "CreateFilter keys dst = dst @ CreateFilter keys []"
    and no_false_negative:
      "length keys \<le> max_keys \<Longrightarrow> key \<in> set keys \<Longrightarrow> KeyMayMatch key (CreateFilter keys [])"

definition int_max :: nat where
  "int_max = 2 ^ 31 - 1"

lemma bf_k_range: "1 \<le> unat (bf_k (new_BloomFilterPolicy b)) \<and> unat (bf_k (new_BloomFilterPolicy b)) \<le> 30"
  by (auto simp: new_BloomFilterPolicy_def Let_def unat_of_nat take_bit_nat_eq_self)

lemma unat_ucast_31: "unat (ucast (b :: 31 word) :: csize) = unat b"
  by transfer (simp add: take_bit_take_bit)

lemma bloom_bytes_range:
  assumes "n \<le> int_max"
  shows "1 \<le> unat (bloom_bytes (new_BloomFilterPolicy b) n)"
    and "8 * unat (bloom_bytes (new_BloomFilterPolicy b) n) < 2 ^ 63"
proof -
  define bits :: csize where "bits = of_nat n * bf_bits_per_key (new_BloomFilterPolicy b)"
  define m :: csize where "m = (if bits < 64 then 64 else bits)"
  have n: "n < 2 ^ 31" using assms by (simp add: int_max_def)
  then have un: "unat (of_nat n :: csize) = n" by (simp add: unat_of_nat take_bit_nat_eq_self)
  have "unat b < 2 ^ 31" using unsigned_less [of b] by simp
  with n have "n * unat b \<le> (2 ^ 31 - 1) * (2 ^ 31 - 1)" by (intro mult_mono) auto
  then have "unat bits \<le> (2 ^ 31 - 1) * (2 ^ 31 - 1)"
    by (simp add: bits_def new_BloomFilterPolicy_def Let_def unat_word_ariths un unat_ucast_31)
  then have "64 \<le> unat m" "unat m \<le> (2 ^ 31 - 1) * (2 ^ 31 - 1)"
    by (auto simp: m_def word_less_nat_alt not_less)
  moreover from this have "unat (m + 7) = unat m + 7" by (simp add: unat_word_ariths)
  moreover have "unat (bloom_bytes (new_BloomFilterPolicy b) n) = unat (m + 7) div 8"
    by (simp add: bloom_bytes_def Let_def unat_div m_def bits_def)
  ultimately show "1 \<le> unat (bloom_bytes (new_BloomFilterPolicy b) n)"
    and "8 * unat (bloom_bytes (new_BloomFilterPolicy b) n) < 2 ^ 63"
    by simp_all
qed

lemma small_char: "unat (w :: csize) \<le> 30 \<Longrightarrow> (scast (ucast w :: byte) :: csize) = w"
proof -
  assume w: "unat w \<le> 30"
  then have "w \<in> of_nat ` {..30}" by (intro image_eqI [of _ _ "unat w"]) simp_all
  then show ?thesis by (auto simp: atMost_nat_numeral atMost_Suc)
qed

interpretation bloom: filter_policy "bloom_CreateFilter (new_BloomFilterPolicy b)" bloom_KeyMayMatch int_max
  for b
proof unfold_locales
  fix keys dst and key :: bytes
  let ?p = "new_BloomFilterPolicy b"
  show "bloom_CreateFilter ?p keys dst = dst @ bloom_CreateFilter ?p keys []"
    by (simp add: bloom_CreateFilter_def Let_def)
  assume n: "length keys \<le> int_max" and key: "key \<in> set keys"
  let ?n = "unat (bloom_bytes ?p (length keys))"
  note range = bloom_bytes_range [OF n, of b] 
  let ?f = "\<lambda>key a. let h = BloomHash key in bloom_set (unat (bf_k ?p)) (of_nat ?n * 8) h (rotate_17 h) a"
  let ?a = "fold ?f keys (replicate ?n 0)"
  have "bits_le (replicate ?n 0) ?a"
    by (rule bits_le_fold) (simp add: Let_def bits_le_bloom_set)
  then have len: "length ?a = ?n" by (simp add: bits_le_def)
  have k: "scast (ucast (bf_k ?p) :: byte) = bf_k ?p"
    by (rule small_char) (use bf_k_range [of b] in simp)
  have filt: "bloom_CreateFilter ?p keys [] = ?a @ [ucast (bf_k ?p)]"
    by (simp add: bloom_CreateFilter_def Let_def)
  have "bloom_test (unat (bf_k ?p)) (of_nat ?n * 8) (BloomHash key) (rotate_17 (BloomHash key))
      (?a @ [ucast (bf_k ?p)])"
    using range key by (intro fold_key_test) simp_all
  then show "bloom_KeyMayMatch key (bloom_CreateFilter ?p keys [])"
    using range len k bf_k_range [of b] unfolding filt
    by (simp add: bloom_KeyMayMatch_def Let_def nth_append word_less_nat_alt)
qed

end
