(* ===== verification/Ldb_Filter_Block.thy ===== *)
theory Ldb_Filter_Block imports Ldb_Filter begin

text \<open>
  The filter block of a table, \<open>leveldb/table/filter_block.cc\<close>: one filter for each 2 KB of file
  offsets, an array of their offsets, its own offset and the logarithm of 2 KB. The policy's two
  functions are arguments. \<open>None\<close> is a read outside the block or a shift past the word.
\<close>

subsection \<open>The builder\<close>

text \<open>The keys of the current filter lie one after the other in \<open>fbb_keys\<close>.\<close>

record FilterBlockBuilder =
  fbb_keys :: bytes
  fbb_start :: "nat list"
  fbb_result :: bytes
  fbb_filter_offsets :: "u32 list"

definition new_FilterBlockBuilder :: FilterBlockBuilder where
  "new_FilterBlockBuilder =
     \<lparr>fbb_keys = [], fbb_start = [], fbb_result = [], fbb_filter_offsets = []\<rparr>"

definition kFilterBaseLg :: nat where
  "kFilterBaseLg = 11"

definition kFilterBase :: u64 where
  "kFilterBase = push_bit kFilterBaseLg 1"

definition GenerateFilter ::
  "(bytes list \<Rightarrow> bytes \<Rightarrow> bytes) \<Rightarrow> FilterBlockBuilder \<Rightarrow> FilterBlockBuilder" where
  "GenerateFilter CreateFilter b =
     (let num_keys = length (fbb_start b);
          offsets = fbb_filter_offsets b @ [of_nat (length (fbb_result b))] in
      if num_keys = 0 then b\<lparr>fbb_filter_offsets := offsets\<rparr>
      else let start = fbb_start b @ [length (fbb_keys b)];
               tmp_keys = map (\<lambda>i. take (start ! (i + 1) - start ! i) (drop (start ! i) (fbb_keys b)))
                            [0..<num_keys]
        in \<lparr>fbb_keys = [], fbb_start = [], fbb_result = CreateFilter tmp_keys (fbb_result b),
            fbb_filter_offsets = offsets\<rparr>)"

lemma length_offsets_GenerateFilter [simp]:
  "length (fbb_filter_offsets (GenerateFilter c b)) = Suc (length (fbb_filter_offsets b))"
  by (simp add: GenerateFilter_def Let_def)

function generate_until ::
  "(bytes list \<Rightarrow> bytes \<Rightarrow> bytes) \<Rightarrow> nat \<Rightarrow> FilterBlockBuilder \<Rightarrow> FilterBlockBuilder" where
  "generate_until c filter_index b =
     (if length (fbb_filter_offsets b) < filter_index
      then generate_until c filter_index (GenerateFilter c b) else b)"
  by auto
termination by (relation "measure (\<lambda>(c, i, b). i - length (fbb_filter_offsets b))") auto

declare generate_until.simps [simp del]

definition StartBlock ::
  "(bytes list \<Rightarrow> bytes \<Rightarrow> bytes) \<Rightarrow> u64 \<Rightarrow> FilterBlockBuilder \<Rightarrow> FilterBlockBuilder" where
  "StartBlock c block_offset b = generate_until c (unat (block_offset div kFilterBase)) b"

definition AddKey :: "bytes \<Rightarrow> FilterBlockBuilder \<Rightarrow> FilterBlockBuilder" where
  "AddKey key b =
     b\<lparr>fbb_start := fbb_start b @ [length (fbb_keys b)], fbb_keys := fbb_keys b @ key\<rparr>"

definition Finish :: "(bytes list \<Rightarrow> bytes \<Rightarrow> bytes) \<Rightarrow> FilterBlockBuilder \<Rightarrow> bytes" where
  "Finish c b =
     (let b = (if fbb_start b \<noteq> [] then GenerateFilter c b else b);
          array_offset = of_nat (length (fbb_result b));
          result = fold (\<lambda>off r. PutFixed32 r off) (fbb_filter_offsets b) (fbb_result b)
      in PutFixed32 result array_offset @ [of_nat kFilterBaseLg])"

subsection \<open>The reader\<close>

text \<open>\<open>fbr_data\<close> is the block, and \<open>fbr_offset\<close> the position of the offset array in it.\<close>

record FilterBlockReader =
  fbr_data :: bytes
  fbr_offset :: nat
  fbr_num :: nat
  fbr_base_lg :: csize

definition new_FilterBlockReader :: "bytes \<Rightarrow> FilterBlockReader option" where
  "new_FilterBlockReader contents =
     (let n = length contents;
          none = \<lparr>fbr_data = [], fbr_offset = 0, fbr_num = 0, fbr_base_lg = 0\<rparr> in
      if n < 5 then Some none
      else let base_lg = scast (contents ! (n - 1)) in
        case DecodeFixed32 (drop (n - 5) contents) of
          None \<Rightarrow> None
        | Some last_word \<Rightarrow>
            if n - 5 < unat last_word then Some (none\<lparr>fbr_base_lg := base_lg\<rparr>)
            else Some \<lparr>fbr_data = contents, fbr_offset = unat last_word,
                       fbr_num = (n - 5 - unat last_word) div 4, fbr_base_lg = base_lg\<rparr>)"

text \<open>\<open>Slice(data_ + start, n)\<close>, which is handed to the policy to read; \<open>None\<close> if it is not inside the block.\<close>

definition block_slice :: "bytes \<Rightarrow> u32 \<Rightarrow> u32 \<Rightarrow> bytes option" where
  "block_slice data start n =
     (if unat start + unat n \<le> length data then Some (take (unat n) (drop (unat start) data)) else None)"

definition filter_block_KeyMayMatch ::
  "(bytes \<Rightarrow> bytes \<Rightarrow> bool) \<Rightarrow> FilterBlockReader \<Rightarrow> u64 \<Rightarrow> bytes \<Rightarrow> bool option" where
  "filter_block_KeyMayMatch KeyMayMatch r block_offset key =
     (if 64 \<le> fbr_base_lg r then None
      else let index = unat (drop_bit (unat (fbr_base_lg r)) block_offset) in
        if index < fbr_num r then
          do { start \<leftarrow> DecodeFixed32 (drop (fbr_offset r + index * 4) (fbr_data r));
               limit \<leftarrow> DecodeFixed32 (drop (fbr_offset r + index * 4 + 4) (fbr_data r));
               if start \<le> limit \<and> unat limit \<le> fbr_offset r
               then map_option (KeyMayMatch key) (block_slice (fbr_data r) start (limit - start))
               else Some (start \<noteq> limit) }
        else Some True)"

lemma scast_small:
  assumes "unat (b :: byte) < 128"
  shows "(scast b :: csize) = ucast b"
proof (rule bit_word_eqI)
  have small: "n < 7" if "bit b n" for n using bit_small_nat [of b 7 n] assms that by simp
  fix n assume "n < LENGTH(64)"
  show "bit (scast b :: csize) n = bit (ucast b :: csize) n"
    by (cases "n < 7") (auto simp: bit_signed_iff bit_unsigned_iff min_def dest: small)
qed

text \<open>A slice between two offsets that pass the test of the reader is inside the block.\<close>

lemma block_slice_inside:
  "start \<le> limit \<Longrightarrow> unat limit \<le> length data \<Longrightarrow>
    block_slice data start (limit - start) = Some (take (unat limit - unat start) (drop (unat start) data))"
  by (simp add: block_slice_def word_le_nat_alt unat_sub)

text \<open>C19: the reader of a filter block whose last byte is below 64 (a shift that fits the word) never reads
  outside the block, whatever its other bytes: neither the array of offsets nor the slice that it hands to
  the policy is ever outside.\<close>

theorem ldb_filter_reader_in_bounds:
  assumes "contents = [] \<or> last contents < 64"
  shows "\<exists>r m. new_FilterBlockReader contents = Some r
    \<and> filter_block_KeyMayMatch KeyMayMatch r block_offset key = Some m"
proof (cases "length contents < 5")
  case True
  then show ?thesis by (auto simp: new_FilterBlockReader_def filter_block_KeyMayMatch_def)
next
  case False
  let ?n = "length contents" and ?lg = "scast (contents ! (length contents - 1)) :: csize"
  from False have "contents \<noteq> []" by auto
  with assms have "unat (contents ! (?n - 1)) < 64" by (simp add: last_conv_nth word_less_nat_alt)
  then have lg: "?lg < 64" by (simp add: scast_small word_less_nat_alt)
  obtain w where w: "DecodeFixed32 (drop (?n - 5) contents) = Some w" using False by simp
  show ?thesis
  proof (cases "?n - 5 < unat w")
    case True
    with False w lg show ?thesis
      by (auto simp: new_FilterBlockReader_def filter_block_KeyMayMatch_def Let_def)
  next
    case low: False
    define r where "r = \<lparr>fbr_data = contents, fbr_offset = unat w, fbr_num = (?n - 5 - unat w) div 4,
      fbr_base_lg = ?lg\<rparr>"
    have r: "new_FilterBlockReader contents = Some r"
      using False w low by (simp add: new_FilterBlockReader_def Let_def r_def)
    let ?i = "unat (drop_bit (unat ?lg) block_offset)"
    have "\<exists>m. filter_block_KeyMayMatch KeyMayMatch r block_offset key = Some m"
    proof (cases "?i < (?n - 5 - unat w) div 4")
      case True
      then have "unat w + ?i * 4 + 9 \<le> ?n" using False low by linarith
      then obtain start limit where "DecodeFixed32 (drop (unat w + ?i * 4) contents) = Some start"
        "DecodeFixed32 (drop (unat w + ?i * 4 + 4) contents) = Some limit"
        by (simp add: add.assoc)
      moreover have "start \<le> limit \<Longrightarrow> unat limit \<le> unat w \<Longrightarrow>
          block_slice contents start (limit - start) \<noteq> None"
        using low by (simp add: block_slice_inside)
      ultimately show ?thesis
        using lg True by (auto simp: filter_block_KeyMayMatch_def Let_def r_def not_le)
    qed (use lg in \<open>auto simp: filter_block_KeyMayMatch_def Let_def r_def not_le\<close>)
    with r show ?thesis by blast
  qed
qed

subsection \<open>What the builder does\<close>

text \<open>\<open>gs\<close> are the closed filters with their keys, \<open>ps\<close> the keys of the current one.\<close>

definition prefix_lengths :: "bytes list \<Rightarrow> nat list" where
  "prefix_lengths xs = map (\<lambda>i. length (concat (take i xs))) [0..<length xs]"

lemma prefix_lengths_snoc: "prefix_lengths (xs @ [x]) = prefix_lengths xs @ [length (concat xs)]"
  by (simp add: prefix_lengths_def)

lemma length_prefix_lengths [simp]: "length (prefix_lengths xs) = length xs"
  by (simp add: prefix_lengths_def)

lemma nth_prefix_lengths:
  "i \<le> length xs \<Longrightarrow> (prefix_lengths xs @ [length (concat xs)]) ! i = length (concat (take i xs))"
  by (cases "i = length xs") (simp_all add: prefix_lengths_def nth_append)

lemma piece_of_concat:
  assumes "i < length xs"
  shows "take (length (concat (take (Suc i) xs)) - length (concat (take i xs)))
           (drop (length (concat (take i xs))) (concat xs)) = xs ! i"
proof -
  have "concat xs = concat (take i xs) @ xs ! i @ concat (drop (Suc i) xs)"
    using assms by (metis concat.simps(2) concat_append id_take_nth_drop)
  moreover have "length (concat (take (Suc i) xs)) = length (concat (take i xs)) + length (xs ! i)"
    using assms by (simp add: take_Suc_conv_app_nth)
  ultimately show ?thesis by simp
qed

text \<open>\<open>A\<close> says which key went to the filter of which index.\<close>

definition filters_ok ::
  "(bytes \<Rightarrow> bytes \<Rightarrow> bool) \<Rightarrow> (nat \<times> bytes) set \<Rightarrow> FilterBlockBuilder \<Rightarrow> (bytes \<times> bytes list) list
     \<Rightarrow> bytes list \<Rightarrow> bool" where
  "filters_ok may A b gs ps \<longleftrightarrow>
     fbb_result b = concat (map fst gs)
     \<and> fbb_filter_offsets b = map of_nat (prefix_lengths (map fst gs))
     \<and> fbb_keys b = concat ps \<and> fbb_start b = prefix_lengths ps
     \<and> (\<forall>(f, ks) \<in> set gs. \<forall>k \<in> set ks. may k f)
     \<and> (\<forall>(i, k) \<in> A. if i < length gs then k \<in> set (snd (gs ! i)) else i = length gs \<and> k \<in> set ps)"

lemma filters_ok_new: "filters_ok may {} new_FilterBlockBuilder [] []"
  by (simp add: filters_ok_def new_FilterBlockBuilder_def prefix_lengths_def)

lemma filters_ok_AddKey:
  "filters_ok may A b gs ps \<Longrightarrow> filters_ok may (insert (length gs, k) A) (AddKey k b) gs (ps @ [k])"
  by (fastforce simp: filters_ok_def AddKey_def prefix_lengths_snoc)

lemma filters_ok_length: "filters_ok may A b gs ps \<Longrightarrow> length (fbb_filter_offsets b) = length gs"
  by (simp add: filters_ok_def)

context filter_policy
begin

lemma filters_ok_GenerateFilter:
  assumes ok: "filters_ok KeyMayMatch A b gs ps" and "length ps \<le> max_keys"
  shows "filters_ok KeyMayMatch A (GenerateFilter CreateFilter b)
    (gs @ [(if ps = [] then [] else CreateFilter ps [], ps)]) []"
proof -
  have A: "\<forall>(i, k) \<in> A. if i < length (gs @ [(f, ps)]) then k \<in> set (snd ((gs @ [(f, ps)]) ! i))
      else i = length (gs @ [(f, ps)]) \<and> k \<in> set []" for f
    using ok by (fastforce simp: filters_ok_def nth_append less_Suc_eq split: if_splits)
  show ?thesis
  proof (cases "ps = []")
    case True
    show ?thesis
      using ok A [of "[]"] unfolding True
      by (simp add: filters_ok_def GenerateFilter_def prefix_lengths_snoc Let_def prefix_lengths_def [of "[]"])
  next
    case False
    let ?start = "prefix_lengths ps @ [length (concat ps)]"
    have "map (\<lambda>i. take (?start ! (i + 1) - ?start ! i) (drop (?start ! i) (concat ps))) [0..<length ps] = ps"
      by (rule nth_equalityI) (simp_all add: nth_prefix_lengths piece_of_concat)
    moreover have "prefix_lengths ps \<noteq> []" using False by (metis length_prefix_lengths length_0_conv)
    ultimately show ?thesis
      using ok A [of "CreateFilter ps []"] False CreateFilter_appends [of ps "concat (map fst gs)"]
        no_false_negative [OF assms(2)]
      by (simp add: filters_ok_def GenerateFilter_def prefix_lengths_snoc Let_def prefix_lengths_def [of "[]"])
  qed
qed

lemma filters_ok_generate_until:
  assumes "filters_ok KeyMayMatch A b gs ps" and "length ps \<le> max_keys"
  shows "\<exists>gs' ps'. filters_ok KeyMayMatch A (generate_until CreateFilter i b) gs' ps'
    \<and> length gs' = max (length gs) i \<and> length ps' \<le> length ps"
  using assms
proof (induction "i - length gs" arbitrary: b gs ps)
  case 0
  then have "generate_until CreateFilter i b = b"
    by (subst generate_until.simps) (simp add: filters_ok_length)
  with 0 show ?case by (intro exI [of _ gs] exI [of _ ps]) simp
next
  case (Suc n)
  let ?gs = "gs @ [(if ps = [] then [] else CreateFilter ps [], ps)]"
  have "filters_ok KeyMayMatch A (GenerateFilter CreateFilter b) ?gs []"
    using Suc.prems by (rule filters_ok_GenerateFilter)
  moreover have "n = i - length ?gs" using Suc.hyps(2) by simp
  ultimately have "\<exists>gs' ps'. filters_ok KeyMayMatch A
      (generate_until CreateFilter i (GenerateFilter CreateFilter b)) gs' ps'
    \<and> length gs' = max (length ?gs) i \<and> length ps' \<le> length ([] :: bytes list)"
    by (intro Suc.hyps(1)) simp_all
  moreover have "generate_until CreateFilter i b
      = generate_until CreateFilter i (GenerateFilter CreateFilter b)"
    using Suc.hyps(2) Suc.prems(1) by (subst generate_until.simps) (simp add: filters_ok_length)
  moreover have "max (length ?gs) i = max (length gs) i" using Suc.hyps(2) by simp
  ultimately show ?case by fastforce
qed

end

subsection \<open>Blocks built by a table\<close>

text \<open>The calls a table builder makes, and the offset that is current when each key comes.\<close>

datatype filter_op = Start_block u64 | Add_key bytes

primrec run_filter_op :: "(bytes list \<Rightarrow> bytes \<Rightarrow> bytes) \<Rightarrow> filter_op \<Rightarrow> FilterBlockBuilder \<Rightarrow> FilterBlockBuilder" where
  "run_filter_op c (Start_block off) b = StartBlock c off b"
| "run_filter_op c (Add_key k) b = AddKey k b"

fun added_keys :: "u64 \<Rightarrow> filter_op list \<Rightarrow> (u64 \<times> bytes) list" where
  "added_keys cur [] = []"
| "added_keys cur (Start_block off # ops) = added_keys off ops"
| "added_keys cur (Add_key k # ops) = (cur, k) # added_keys cur ops"

fun offsets_ascend :: "u64 \<Rightarrow> filter_op list \<Rightarrow> bool" where
  "offsets_ascend cur [] = True"
| "offsets_ascend cur (Start_block off # ops) \<longleftrightarrow> cur \<le> off \<and> offsets_ascend off ops"
| "offsets_ascend cur (Add_key k # ops) = offsets_ascend cur ops"

definition filter_index :: "u64 \<Rightarrow> nat" where
  "filter_index off = unat (off div kFilterBase)"

lemma filter_index: "filter_index off = unat off div 2048"
  by (simp add: filter_index_def kFilterBase_def kFilterBaseLg_def unat_div)

context filter_policy
begin

lemma filters_ok_run:
  assumes "filters_ok KeyMayMatch A b gs ps" and "length gs = filter_index cur"
    and "offsets_ascend cur ops" and "length ps + length ops \<le> max_keys"
  shows "\<exists>gs' ps'. filters_ok KeyMayMatch (A \<union> apfst filter_index ` set (added_keys cur ops))
      (fold (run_filter_op CreateFilter) ops b) gs' ps' \<and> length ps' \<le> max_keys"
  using assms
proof (induction cur ops arbitrary: A b gs ps rule: added_keys.induct)
  case (1 cur)
  then show ?case by auto
next
  case (2 cur off ops)
  have le: "length gs \<le> filter_index off"
    using 2 by (simp add: filter_index word_le_nat_alt div_le_mono)
  from filters_ok_generate_until [OF 2(2), of "filter_index off"] 2(5)
  obtain gs' ps' where "filters_ok KeyMayMatch A (StartBlock CreateFilter off b) gs' ps'"
    "length gs' = filter_index off" "length ps' \<le> length ps"
    using le by (auto simp: StartBlock_def filter_index_def [symmetric] max_def)
  with 2(1) [of A "StartBlock CreateFilter off b" gs' ps'] 2(4,5) show ?case by simp
next
  case (3 cur k ops)
  from 3(1) [OF filters_ok_AddKey [OF 3(2)]] 3(3-5) show ?case by simp
qed

end

subsection \<open>The finished block\<close>

definition block_layout :: "bytes list \<Rightarrow> bytes" where
  "block_layout fs = concat fs
     @ concat (map (\<lambda>n. le_bytes 4 (of_nat n :: u32)) (prefix_lengths fs @ [length (concat fs)])) @ [11]"

lemma Finish_layout:
  assumes "filters_ok may A b gs []"
  shows "Finish c b = block_layout (map fst gs)"
  using assms
  by (simp add: Finish_def Let_def filters_ok_def prefix_lengths_def [of "[]"] PutFixed32_def fold_PutFixed32
      block_layout_def kFilterBaseLg_def comp_def)

lemma drop_fixed32:
  "i < length ws \<Longrightarrow> take 4 (drop (i * 4) (concat (map (le_bytes 4) ws) @ z)) = le_bytes 4 (ws ! i)"
proof (induction ws arbitrary: i)
  case (Cons w ws)
  then show ?case by (cases i) simp_all
qed simp

lemma length_fixed32s [simp]: "length (concat (map (\<lambda>n. le_bytes 4 (f n)) ns)) = 4 * length ns"
  by (induction ns) simp_all

lemma unat_of_nat_u32: "n < 2 ^ 32 \<Longrightarrow> unat (of_nat n :: u32) = n"
  by (simp add: unat_of_nat take_bit_nat_eq_self)

lemma nth_starts:
  assumes "i \<le> length fs"
  shows "DecodeFixed32 (drop (length (concat fs) + i * 4) (block_layout fs))
     = Some (of_nat (length (concat (take i fs))))"
proof -
  let ?ns = "prefix_lengths fs @ [length (concat fs)]"
  define ws where "ws = map (of_nat :: nat \<Rightarrow> u32) ?ns"
  let ?d = "drop (i * 4) (concat (map (le_bytes 4) ws) @ [11])"
  have d: "drop (length (concat fs) + i * 4) (block_layout fs) = ?d"
    unfolding block_layout_def ws_def map_map comp_def by simp
  have i: "i < length ws" "ws ! i = of_nat (?ns ! i)" using assms by (simp_all add: ws_def del: map_append)
  have t: "take 4 ?d = le_bytes 4 (of_nat (length (concat (take i fs))) :: u32)"
    unfolding drop_fixed32 [OF i(1)] i(2) nth_prefix_lengths [OF assms] ..
  then have "length (take 4 ?d) = 4" by simp
  then have "4 \<le> length ?d" by simp
  then show ?thesis unfolding d using t by (simp only: DecodeFixed32_le) simp
qed

lemma length_block_layout: "length (block_layout fs) = length (concat fs) + 4 * length fs + 5"
  by (simp add: block_layout_def del: map_append)

lemma last_block_layout: "block_layout fs ! (length (concat fs) + 4 * length fs + 4) = 11"
  by (simp add: block_layout_def nth_append del: map_append)

lemma reader_block_layout:
  assumes "length (block_layout fs) < 2 ^ 32"
  shows "new_FilterBlockReader (block_layout fs) = Some \<lparr>fbr_data = block_layout fs,
    fbr_offset = length (concat fs), fbr_num = length fs, fbr_base_lg = 11\<rparr>"
proof -
  have L: "length (concat fs) < 2 ^ 32" using assms by (simp add: length_block_layout)
  have n: "length (block_layout fs) - 5 = length (concat fs) + length fs * 4"
    "length (block_layout fs) - 1 = length (concat fs) + 4 * length fs + 4" "\<not> length (block_layout fs) < 5"
    by (simp_all add: length_block_layout)
  show ?thesis
    unfolding new_FilterBlockReader_def Let_def n
    using nth_starts [of "length fs" fs] unat_of_nat_u32 [OF L] last_block_layout [of fs] n(3) by simp
qed

lemma filter_of_layout:
  assumes "i < length fs" and L: "length (block_layout fs) < 2 ^ 32"
  defines "s \<equiv> of_nat (length (concat (take i fs))) :: u32"
    and "l \<equiv> of_nat (length (concat (take (Suc i) fs))) :: u32"
  shows "s \<le> l \<and> unat l \<le> length (concat fs)
    \<and> block_slice (block_layout fs) s (l - s) = Some (fs ! i)"
proof -
  have len: "length (concat (take (Suc i) fs)) = length (concat (take i fs)) + length (fs ! i)"
    using assms(1) by (simp add: take_Suc_conv_app_nth)
  have "concat fs = concat (take (Suc i) fs) @ concat (drop (Suc i) fs)"
    by (metis append_take_drop_id concat_append)
  then have le: "length (concat (take (Suc i) fs)) \<le> length (concat fs)" by simp
  with L have lt: "length (concat (take (Suc i) fs)) < 2 ^ 32" by (simp add: length_block_layout)
  then have u: "unat s = length (concat (take i fs))" "unat l = length (concat (take (Suc i) fs))"
    using len unfolding s_def l_def by (simp_all only: unat_of_nat_u32)
  then have sl: "s \<le> l" by (simp add: word_le_nat_alt len)
  then have d: "unat (l - s) = length (fs ! i)" by (simp add: unat_sub u len)
  have "take (length (fs ! i)) (drop (length (concat (take i fs))) (concat fs)) = fs ! i"
    using piece_of_concat [OF assms(1)] by (simp add: len)
  then have "take (length (fs ! i)) (drop (length (concat (take i fs))) (block_layout fs)) = fs ! i"
    using le len by (simp add: block_layout_def)
  moreover have "unat l \<le> length (block_layout fs)" using le by (simp add: u length_block_layout)
  ultimately show ?thesis using sl le by (simp add: u len block_slice_inside)
qed

context filter_policy
begin

lemma filter_block_reader:
  assumes asc: "offsets_ascend off ops" and n: "length ops \<le> max_keys"
  defines "contents \<equiv> Finish CreateFilter (fold (run_filter_op CreateFilter) (Start_block off # ops) new_FilterBlockBuilder)"
  assumes small: "length contents < 2 ^ 32"
  shows "\<exists>r. new_FilterBlockReader contents = Some r
    \<and> (\<forall>(o', key)\<in>set (added_keys off ops). filter_block_KeyMayMatch KeyMayMatch r o' key = Some True)
    \<and> (\<forall>o' key. filter_block_KeyMayMatch KeyMayMatch r o' key \<noteq> None)"
proof -
  let ?b = "fold (run_filter_op CreateFilter) (Start_block off # ops) new_FilterBlockBuilder"
  let ?A = "apfst filter_index ` set (added_keys off ops)"
  obtain gs0 ps0 where b0: "filters_ok KeyMayMatch {} (StartBlock CreateFilter off new_FilterBlockBuilder) gs0 ps0"
    "length gs0 = filter_index off" "length ps0 = 0"
    using filters_ok_generate_until [OF filters_ok_new, of "filter_index off"]
    by (auto simp: StartBlock_def filter_index_def [symmetric])
  obtain gs1 ps1 where b1: "filters_ok KeyMayMatch ?A ?b gs1 ps1" and ps1: "length ps1 \<le> max_keys"
    using filters_ok_run [OF b0(1,2) asc] b0(3) n by auto
  obtain b gs where b: "filters_ok KeyMayMatch ?A b gs []" and fin: "Finish CreateFilter ?b = Finish CreateFilter b"
  proof (cases "ps1 = []")
    case True
    with b1 that show ?thesis by blast
  next
    case False
    from filters_ok_GenerateFilter [OF b1 ps1] obtain gs where
      g: "filters_ok KeyMayMatch ?A (GenerateFilter CreateFilter ?b) gs []" by blast
    moreover from g have "fbb_start (GenerateFilter CreateFilter ?b) = []"
      by (simp add: filters_ok_def prefix_lengths_def)
    moreover have "fbb_start ?b \<noteq> []" using b1 False by (auto simp: filters_ok_def prefix_lengths_def)
    ultimately show ?thesis using that by (simp add: Finish_def)
  qed
  let ?fs = "map fst gs"
  have lay: "contents = block_layout ?fs" unfolding contents_def fin by (rule Finish_layout [OF b])
  with small have L: "length (block_layout ?fs) < 2 ^ 32" by simp
  let ?r = "\<lparr>fbr_data = block_layout ?fs, fbr_offset = length (concat ?fs), fbr_num = length ?fs, fbr_base_lg = 11\<rparr>"
  have starts: "DecodeFixed32 (drop (length (concat ?fs) + i * 4) (block_layout ?fs)) = Some (of_nat (length (concat (take i ?fs))))"
    "DecodeFixed32 (drop (length (concat ?fs) + i * 4 + 4) (block_layout ?fs)) = Some (of_nat (length (concat (take (Suc i) ?fs))))"
    if "i < length gs" for i
  proof -
    have "length (concat ?fs) + i * 4 + 4 = length (concat ?fs) + Suc i * 4" by simp
    then show "DecodeFixed32 (drop (length (concat ?fs) + i * 4 + 4) (block_layout ?fs)) = Some (of_nat (length (concat (take (Suc i) ?fs))))"
      using nth_starts [of "Suc i" ?fs] that by (simp only: length_map Suc_leI)
    show "DecodeFixed32 (drop (length (concat ?fs) + i * 4) (block_layout ?fs)) = Some (of_nat (length (concat (take i ?fs))))"
      using nth_starts [of i ?fs] that by (simp only: length_map less_imp_le)
  qed
  have shift: "unat (drop_bit 11 o') = filter_index o'" for o'
    by (simp only: filter_index unat_drop_bit_eq) (simp add: drop_bit_eq_div)
  have match: "filter_block_KeyMayMatch KeyMayMatch ?r o' key =
      Some (filter_index o' < length gs \<longrightarrow> KeyMayMatch key (?fs ! filter_index o'))" for o' key
    using filter_of_layout [of "filter_index o'" ?fs] L starts [of "filter_index o'"]
    by (simp add: filter_block_KeyMayMatch_def Let_def shift)
  have "KeyMayMatch key (?fs ! filter_index o')" "filter_index o' < length gs" if "(o', key) \<in> set (added_keys off ops)" for o' key
  proof -
    have "(filter_index o', key) \<in> ?A" using that by force
    then show i: "filter_index o' < length gs" using b by (auto simp: filters_ok_def split: if_splits)
    have "key \<in> set (snd (gs ! filter_index o'))" using \<open>(filter_index o', key) \<in> ?A\<close> i b by (auto simp: filters_ok_def)
    then show "KeyMayMatch key (?fs ! filter_index o')" using b nth_mem [OF i] i by (fastforce simp: filters_ok_def)
  qed
  then have "\<forall>(o', key)\<in>set (added_keys off ops). filter_block_KeyMayMatch KeyMayMatch ?r o' key = Some True"
    unfolding match by blast
  with reader_block_layout [OF L] match show ?thesis unfolding lay by (intro exI [of _ ?r]) simp
qed

end


subsection \<open>Properties\<close>

text \<open>C18: a Bloom filter has no false negatives: whatever the number of bits per key, the filter made for
  at most \<open>INT_MAX\<close> keys matches each of them.\<close>

theorem ldb_bloom_no_false_negative:
  assumes "length keys \<le> int_max" and "key \<in> set keys"
  shows "\<exists>f. bloom_CreateFilter (new_BloomFilterPolicy bits_per_key) keys dst = dst @ f
    \<and> bloom_KeyMayMatch key f"
  using bloom.no_false_negative [OF assms] bloom.CreateFilter_appends [of bits_per_key keys dst] by blast

theorem ldb_bloom_no_false_negative_witness:
  "\<exists>f. bloom_CreateFilter (new_BloomFilterPolicy 10) [[1, 2], [3]] [7] = [7] @ f \<and> bloom_KeyMayMatch [3] f"
  by (rule ldb_bloom_no_false_negative) (simp_all add: int_max_def)

text \<open>C17: nor has the filter block of a table. If the builder is called for blocks at ascending offsets
  and the finished block is shorter than 4 GB, the reader of that block matches every added key at
  the offset that was current when the key was added.\<close>

theorem ldb_filter_block_no_false_negative:
  assumes "offsets_ascend off ops" and "length ops \<le> int_max"
    and "(offset, key) \<in> set (added_keys off ops)"
    and "contents = Finish (bloom_CreateFilter (new_BloomFilterPolicy bits_per_key))
      (fold (run_filter_op (bloom_CreateFilter (new_BloomFilterPolicy bits_per_key)))
         (Start_block off # ops) new_FilterBlockBuilder)"
    and "length contents < 2 ^ 32"
  shows "\<exists>r. new_FilterBlockReader contents = Some r
    \<and> filter_block_KeyMayMatch bloom_KeyMayMatch r offset key = Some True"
  using bloom.filter_block_reader [OF assms(1,2) assms(5) [unfolded assms(4)]] assms(3)
  unfolding assms(4) by blast

definition demo_ops :: "filter_op list" where
  "demo_ops = [Add_key [1], Start_block 5000, Add_key [2, 3]]"

definition demo_filter_block :: bytes where
  "demo_filter_block = Finish (bloom_CreateFilter (new_BloomFilterPolicy 10))
      (fold (run_filter_op (bloom_CreateFilter (new_BloomFilterPolicy 10)))
         (Start_block 0 # demo_ops) new_FilterBlockBuilder)"

lemma length_bloom_CreateFilter:
  "length (bloom_CreateFilter p keys dst) = length dst + unat (bloom_bytes p (length keys)) + 1"
proof -
  have "bits_le a (fold (\<lambda>key a. bloom_set (j key) b (h key) (d key) a) keys a)" for a j b h d
    by (rule bits_le_fold) (rule bits_le_bloom_set)
  then have "length (fold (\<lambda>key a. bloom_set (j key) b (h key) (d key) a) keys a) = length a" for a j b h d
    by (simp add: bits_le_def)
  then show ?thesis by (simp add: bloom_CreateFilter_def Let_def)
qed

lemma length_demo_filter_block: "length demo_filter_block = 35"
proof -
  let ?c = "bloom_CreateFilter (new_BloomFilterPolicy 10)"
  have n: "unat (bloom_bytes (new_BloomFilterPolicy 10) 1) = 8" by code_simp
  have c: "length (?c ks d) = length d + 9" if "length ks = Suc 0" for ks d
    using n that by (simp add: length_bloom_CreateFilter)
  have [simp]: "generate_until ?c 0 b = b" for b by (subst generate_until.simps) simp
  have two: "generate_until ?c 2 b = GenerateFilter ?c (GenerateFilter ?c b)"
    if "fbb_filter_offsets b = []" for b
    using that by (simp add: generate_until.simps [of _ 2])
  show ?thesis
    by (simp add: demo_filter_block_def demo_ops_def new_FilterBlockBuilder_def StartBlock_def AddKey_def
        kFilterBase_def kFilterBaseLg_def two GenerateFilter_def c Finish_def Let_def PutFixed32_def)
qed

theorem ldb_filter_block_no_false_negative_witness:
  "\<exists>r. new_FilterBlockReader demo_filter_block = Some r
    \<and> filter_block_KeyMayMatch bloom_KeyMayMatch r 5000 [2, 3] = Some True"
  by (rule ldb_filter_block_no_false_negative [of 0 demo_ops _ _ _ 10])
    (simp_all only: length_demo_filter_block, simp_all add: demo_ops_def demo_filter_block_def int_max_def)

theorem ldb_filter_reader_in_bounds_witness:
  "\<exists>r m. new_FilterBlockReader [0, 0, 0, 0, 0, 0, 0, 0, 11] = Some r
    \<and> filter_block_KeyMayMatch bloom_KeyMayMatch r 0 [1] = Some m"
  by (rule ldb_filter_reader_in_bounds) simp

end
