(* ===== verification/Ldb_Comparator.thy ===== *)
theory Ldb_Comparator imports Ldb_Coding begin

text \<open>
  The order of keys: \<open>Slice::compare\<close> of \<open>leveldb/slice.h\<close> and the bytewise comparator of
  \<open>util/comparator.cc\<close>. \<open>comparator\<close> is the contract that the header \<open>leveldb/comparator.h\<close> states: a total
  order, a separator of two keys and a short successor of one.
\<close>

subsection \<open>The code\<close>

text \<open>\<open>memcmp\<close> of two ranges of the same length; C leaves open which value of the sign it returns.\<close>

fun memcmp :: "bytes \<Rightarrow> bytes \<Rightarrow> int" where
  "memcmp (a # as) (b # bs) = (if a < b then - 1 else if b < a then 1 else memcmp as bs)"
| "memcmp _ _ = 0"

definition Slice_compare :: "bytes \<Rightarrow> bytes \<Rightarrow> int" where
  "Slice_compare a b =
     (let min_len = (if length a < length b then length a else length b);
          r = memcmp (take min_len a) (take min_len b)
      in if r = 0 then if length a < length b then - 1 else if length b < length a then 1 else r
         else r)"

text \<open>The length of the common prefix.\<close>

fun diff_index :: "bytes \<Rightarrow> bytes \<Rightarrow> nat" where
  "diff_index (a # as) (b # bs) = (if a = b then Suc (diff_index as bs) else 0)"
| "diff_index _ _ = 0"

definition FindShortestSeparator :: "bytes \<Rightarrow> bytes \<Rightarrow> bytes" where
  "FindShortestSeparator start limit =
     (let min_length = min (length start) (length limit); diff_index = diff_index start limit in
      if min_length \<le> diff_index then start
      else let diff_byte = start ! diff_index in
        if diff_byte < 0xff \<and> unat diff_byte + 1 < unat (limit ! diff_index)
        then take (diff_index + 1) (start[diff_index := diff_byte + 1])
        else start)"

text \<open>The first byte that can be incremented is, and the rest goes.\<close>

fun FindShortSuccessor :: "bytes \<Rightarrow> bytes" where
  "FindShortSuccessor [] = []"
| "FindShortSuccessor (byte # key) =
     (if byte \<noteq> 0xff then [byte + 1] else byte # FindShortSuccessor key)"

subsection \<open>The contract\<close>

text \<open>\<open>valid\<close> are the keys that the comparator may be given.\<close>

locale comparator =
  fixes Compare :: "bytes \<Rightarrow> bytes \<Rightarrow> int"
    and separator :: "bytes \<Rightarrow> bytes \<Rightarrow> bytes"
    and successor :: "bytes \<Rightarrow> bytes"
    and valid :: "bytes \<Rightarrow> bool"
  assumes Compare_eq_0: "valid a \<Longrightarrow> valid b \<Longrightarrow> Compare a b = 0 \<longleftrightarrow> a = b"
    and Compare_swap: "valid a \<Longrightarrow> valid b \<Longrightarrow> Compare a b < 0 \<longleftrightarrow> 0 < Compare b a"
    and Compare_trans:
      "valid a \<Longrightarrow> valid b \<Longrightarrow> valid c \<Longrightarrow> Compare a b < 0 \<Longrightarrow> Compare b c < 0 \<Longrightarrow> Compare a c < 0"
    and separator_valid: "valid a \<Longrightarrow> valid b \<Longrightarrow> valid (separator a b)"
    and separator_between:
      "valid a \<Longrightarrow> valid b \<Longrightarrow> Compare a b < 0 \<Longrightarrow>
         Compare a (separator a b) \<le> 0 \<and> Compare (separator a b) b < 0"
    and separator_same: "valid a \<Longrightarrow> valid b \<Longrightarrow> 0 \<le> Compare a b \<Longrightarrow> separator a b = a"
    and successor_valid: "valid a \<Longrightarrow> valid (successor a)"
    and successor_above: "valid a \<Longrightarrow> Compare a (successor a) \<le> 0"
begin

definition key_less :: "bytes \<Rightarrow> bytes \<Rightarrow> bool" where
  "key_less a b \<longleftrightarrow> Compare a b < 0"

lemma Compare_refl: "valid a \<Longrightarrow> Compare a a = 0"
  by (simp add: Compare_eq_0)

lemma key_less_irrefl: "valid a \<Longrightarrow> \<not> key_less a a"
  by (simp add: key_less_def Compare_refl)

lemma key_less_linear: "valid a \<Longrightarrow> valid b \<Longrightarrow> key_less a b \<or> a = b \<or> key_less b a"
  using Compare_eq_0 [of a b] Compare_swap [of b a] by (auto simp: key_less_def)

lemma key_le_trans:
  "valid a \<Longrightarrow> valid b \<Longrightarrow> valid c \<Longrightarrow> Compare a b \<le> 0 \<Longrightarrow> Compare b c \<le> 0 \<Longrightarrow> Compare a c \<le> 0"
  using Compare_trans [of a b c] Compare_eq_0 [of a b] Compare_eq_0 [of b c] by fastforce

lemma key_le_less_trans:
  "valid a \<Longrightarrow> valid b \<Longrightarrow> valid c \<Longrightarrow> Compare a b \<le> 0 \<Longrightarrow> Compare b c < 0 \<Longrightarrow> Compare a c < 0"
  using Compare_trans [of a b c] Compare_eq_0 [of a b] by fastforce

lemma key_less_le_trans:
  "valid a \<Longrightarrow> valid b \<Longrightarrow> valid c \<Longrightarrow> Compare a b < 0 \<Longrightarrow> Compare b c \<le> 0 \<Longrightarrow> Compare a c < 0"
  using Compare_trans [of a b c] Compare_eq_0 [of b c] by fastforce

text \<open>The separator splits the keys of two neighbouring blocks as the two keys themselves do.\<close>

lemma separator_splits:
  assumes "valid x" "valid a" "valid b" "Compare a b < 0"
  shows "Compare x a \<le> 0 \<Longrightarrow> Compare x (separator a b) \<le> 0"
    and "Compare b x \<le> 0 \<Longrightarrow> Compare (separator a b) x < 0"
  using separator_between [OF assms(2-4)] separator_valid [OF assms(2,3)] assms
    key_le_trans [of x a "separator a b"] key_less_le_trans [of "separator a b" b x] by blast+

end

subsection \<open>The bytewise comparator\<close>

lemma Slice_compare_simps [simp]:
  "Slice_compare [] b = (if b = [] then 0 else - 1)"
  "Slice_compare a [] = (if a = [] then 0 else 1)"
  "Slice_compare (x # a) (y # b) = (if x < y then - 1 else if y < x then 1 else Slice_compare a b)"
  by (simp_all add: Slice_compare_def Let_def)

lemma Slice_compare_lexordp: "Slice_compare a b < 0 \<longleftrightarrow> ord_class.lexordp a b"
  by (induction a b rule: memcmp.induct) (auto simp: neq_Nil_conv)

lemma Slice_compare_eq_0: "Slice_compare a b = 0 \<longleftrightarrow> a = b"
  by (induction a b rule: memcmp.induct) auto

lemma Slice_compare_swap: "Slice_compare b a = - Slice_compare a b"
  by (induction a b rule: memcmp.induct) auto

lemma Slice_compare_trans: "Slice_compare a b < 0 \<Longrightarrow> Slice_compare b c < 0 \<Longrightarrow> Slice_compare a c < 0"
  unfolding Slice_compare_lexordp by (rule lexordp_trans)

lemma diff_index_le: "diff_index a b \<le> length a" "diff_index a b \<le> length b"
  by (induction a b rule: diff_index.induct) auto

lemma diff_index_split:
  assumes "diff_index a b < min (length a) (length b)"
  defines "n \<equiv> diff_index a b"
  shows "take n a = take n b" and "a ! n \<noteq> b ! n"
  using assms by (induction a b arbitrary: n rule: diff_index.induct) (auto split: if_splits)

text \<open>Two keys that differ first at \<open>n\<close>.\<close>

lemma Slice_compare_differ:
  "take n a = take n b \<Longrightarrow> n < length a \<Longrightarrow> n < length b \<Longrightarrow> a ! n < b ! n \<Longrightarrow> Slice_compare a b < 0"
proof (induction n arbitrary: a b)
  case 0
  then show ?case by (cases a; cases b) auto
next
  case (Suc n)
  then show ?case by (cases a; cases b) auto
qed

lemma separator_cases:
  obtains (same) "FindShortestSeparator a b = a"
  | (short) n where "n < length a" "n < length b" "take n a = take n b" "a ! n < 0xff"
      "unat (a ! n) + 1 < unat (b ! n)" "FindShortestSeparator a b = take n a @ [a ! n + 1]"
proof (cases "FindShortestSeparator a b = a")
  case False
  let ?n = "diff_index a b"
  from False have n: "?n < min (length a) (length b)" and c: "a ! ?n < 0xff" "unat (a ! ?n) + 1 < unat (b ! ?n)"
    by (auto simp: FindShortestSeparator_def Let_def split: if_splits)
  then have "FindShortestSeparator a b = take ?n a @ [a ! ?n + 1]"
    by (auto simp: FindShortestSeparator_def Let_def take_Suc_conv_app_nth)
  with n c diff_index_split [OF n] short [of ?n] show thesis by simp
qed (rule same)

lemma byte_plus_1: "(x :: byte) < 0xff \<Longrightarrow> unat (x + 1) = unat x + 1"
  by (simp add: word_less_nat_alt unat_word_ariths)

interpretation bytewise: comparator Slice_compare FindShortestSeparator FindShortSuccessor "\<lambda>_. True"
proof unfold_locales
  fix a b :: bytes
  show "Slice_compare a b = 0 \<longleftrightarrow> a = b" by (rule Slice_compare_eq_0)
  show "Slice_compare a b < 0 \<longleftrightarrow> 0 < Slice_compare b a" using Slice_compare_swap [of a b] by simp
  show "Slice_compare a (FindShortSuccessor a) \<le> 0"
  proof (induction a)
    case (Cons x a)
    have "x < x + 1" if "x \<noteq> 0xff"
    proof -
      have "unat x < 2 ^ 8" using unsigned_less [of x] by simp
      moreover have "unat x \<noteq> 255" using that by (simp add: word_unat_eq_iff)
      ultimately have "x < 0xff" by (simp add: word_less_nat_alt)
      then show ?thesis using byte_plus_1 [of x] by (simp add: word_less_nat_alt)
    qed
    with Cons show ?case by auto
  qed simp
next
  fix a b :: bytes
  show "Slice_compare a b < 0 \<Longrightarrow> Slice_compare a (FindShortestSeparator a b) \<le> 0
      \<and> Slice_compare (FindShortestSeparator a b) b < 0"
  proof (cases rule: separator_cases [of a b])
    case same
    assume "Slice_compare a b < 0"
    with same show ?thesis by (simp add: Slice_compare_eq_0 [THEN iffD2])
  next
    case (short n)
    let ?s = "take n a @ [a ! n + 1]"
    have less: "a ! n < a ! n + 1" "a ! n + 1 < b ! n"
      using short(5) by (simp_all add: word_less_nat_alt byte_plus_1 [OF short(4)])
    have "Slice_compare a ?s < 0"
      by (rule Slice_compare_differ [of n]) (use short less in \<open>simp_all add: nth_append\<close>)
    moreover have "Slice_compare ?s b < 0"
      by (rule Slice_compare_differ [of n]) (use short less in \<open>simp_all add: nth_append\<close>)
    ultimately show ?thesis by (simp add: short(6))
  qed
next
  fix a b :: bytes
  assume le: "0 \<le> Slice_compare a b"
  show "FindShortestSeparator a b = a"
  proof (cases rule: separator_cases [of a b])
    case (short n)
    then have "a ! n < b ! n" by (simp add: word_less_nat_alt)
    with short(1-3) Slice_compare_differ [of n a b] le show ?thesis by simp
  qed
qed (simp_all add: Slice_compare_trans)

end
