(* ===== verification/Ldb_Dbformat.thy ===== *)
theory Ldb_Dbformat imports Ldb_Comparator Ldb_Filter begin

text \<open>
  Internal keys, \<open>leveldb/db/dbformat.h\<close> and \<open>dbformat.cc\<close>: a user key with a 64-bit tag of sequence
  number and type behind it, their order, the keys for lookups, and the filter policy on them. The
  user's comparator and policy are arguments.
\<close>

subsection \<open>The code\<close>

datatype ValueType = kTypeDeletion | kTypeValue

primrec ValueType_code :: "ValueType \<Rightarrow> u64" where
  "ValueType_code kTypeDeletion = 0"
| "ValueType_code kTypeValue = 1"

definition kValueTypeForSeek :: ValueType where
  "kValueTypeForSeek = kTypeValue"

type_synonym SequenceNumber = u64

definition kMaxSequenceNumber :: SequenceNumber where
  "kMaxSequenceNumber = push_bit 56 1 - 1"

record ParsedInternalKey =
  pik_user_key :: bytes
  pik_sequence :: SequenceNumber
  pik_type :: ValueType

definition InternalKeyEncodingLength :: "ParsedInternalKey \<Rightarrow> nat" where
  "InternalKeyEncodingLength key = length (pik_user_key key) + 8"

definition PackSequenceAndType :: "u64 \<Rightarrow> ValueType \<Rightarrow> u64" where
  "PackSequenceAndType seq t = push_bit 8 seq OR ValueType_code t"

definition AppendInternalKey :: "bytes \<Rightarrow> ParsedInternalKey \<Rightarrow> bytes" where
  "AppendInternalKey result key =
     PutFixed64 (result @ pik_user_key key) (PackSequenceAndType (pik_sequence key) (pik_type key))"

text \<open>\<open>None\<close> is the result false.\<close>

definition ParseInternalKey :: "bytes \<Rightarrow> ParsedInternalKey option" where
  "ParseInternalKey internal_key =
     (let n = length internal_key in
      if n < 8 then None
      else case DecodeFixed64 (drop (n - 8) internal_key) of
        None \<Rightarrow> None
      | Some num \<Rightarrow>
          let c = (ucast (num AND 0xff) :: byte) in
          if c \<le> 1
          then Some \<lparr>pik_user_key = take (n - 8) internal_key, pik_sequence = drop_bit 8 num,
                     pik_type = (if c = 0 then kTypeDeletion else kTypeValue)\<rparr>
          else None)"

definition ExtractUserKey :: "bytes \<Rightarrow> bytes" where
  "ExtractUserKey internal_key = take (length internal_key - 8) internal_key"

definition internal_Compare :: "(bytes \<Rightarrow> bytes \<Rightarrow> int) \<Rightarrow> bytes \<Rightarrow> bytes \<Rightarrow> int" where
  "internal_Compare user_Compare akey bkey =
     (let r = user_Compare (ExtractUserKey akey) (ExtractUserKey bkey) in
      if r = 0 then
        (let anum = DecodeFixed64 (drop (length akey - 8) akey);
             bnum = DecodeFixed64 (drop (length bkey - 8) bkey)
         in case (anum, bnum) of
              (Some anum, Some bnum) \<Rightarrow> if bnum < anum then - 1 else if anum < bnum then 1 else r
            | _ \<Rightarrow> r)
      else r)"

definition internal_FindShortestSeparator ::
  "(bytes \<Rightarrow> bytes \<Rightarrow> int) \<Rightarrow> (bytes \<Rightarrow> bytes \<Rightarrow> bytes) \<Rightarrow> bytes \<Rightarrow> bytes \<Rightarrow> bytes" where
  "internal_FindShortestSeparator user_Compare user_separator start limit =
     (let user_start = ExtractUserKey start; user_limit = ExtractUserKey limit;
          tmp = user_separator user_start user_limit
      in if length tmp < length user_start \<and> user_Compare user_start tmp < 0
         then PutFixed64 tmp (PackSequenceAndType kMaxSequenceNumber kValueTypeForSeek)
         else start)"

definition internal_FindShortSuccessor ::
  "(bytes \<Rightarrow> bytes \<Rightarrow> int) \<Rightarrow> (bytes \<Rightarrow> bytes) \<Rightarrow> bytes \<Rightarrow> bytes" where
  "internal_FindShortSuccessor user_Compare user_successor key =
     (let user_key = ExtractUserKey key; tmp = user_successor user_key
      in if length tmp < length user_key \<and> user_Compare user_key tmp < 0
         then PutFixed64 tmp (PackSequenceAndType kMaxSequenceNumber kValueTypeForSeek)
         else key)"

definition internal_CreateFilter :: "(bytes list \<Rightarrow> bytes \<Rightarrow> bytes) \<Rightarrow> bytes list \<Rightarrow> bytes \<Rightarrow> bytes" where
  "internal_CreateFilter user_CreateFilter keys dst = user_CreateFilter (map ExtractUserKey keys) dst"

definition internal_KeyMayMatch :: "(bytes \<Rightarrow> bytes \<Rightarrow> bool) \<Rightarrow> bytes \<Rightarrow> bytes \<Rightarrow> bool" where
  "internal_KeyMayMatch user_KeyMayMatch key f = user_KeyMayMatch (ExtractUserKey key) f"

text \<open>The characters from \<open>start_\<close> to \<open>end_\<close>, and the distance of \<open>kstart_\<close> from \<open>start_\<close>.\<close>

record LookupKey =
  lk_start :: bytes
  lk_kstart :: nat

definition new_LookupKey :: "bytes \<Rightarrow> SequenceNumber \<Rightarrow> LookupKey" where
  "new_LookupKey user_key s =
     (let usize = length user_key; klength = EncodeVarint32 (of_nat (usize + 8))
      in \<lparr>lk_start = klength @ user_key @ EncodeFixed64 (PackSequenceAndType s kValueTypeForSeek),
          lk_kstart = length klength\<rparr>)"

definition memtable_key :: "LookupKey \<Rightarrow> bytes" where
  "memtable_key k = lk_start k"

definition internal_key :: "LookupKey \<Rightarrow> bytes" where
  "internal_key k = drop (lk_kstart k) (lk_start k)"

definition user_key :: "LookupKey \<Rightarrow> bytes" where
  "user_key k = take (length (lk_start k) - lk_kstart k - 8) (drop (lk_kstart k) (lk_start k))"

subsection \<open>Tags\<close>

lemma unat_ValueType_code: "unat (ValueType_code t) \<le> 1"
  by (cases t) simp_all

lemma unat_PackSequenceAndType:
  assumes "seq \<le> kMaxSequenceNumber"
  shows "unat (PackSequenceAndType seq t) = 256 * unat seq + unat (ValueType_code t)"
proof -
  have seq: "unat seq < 2 ^ 56"
    using assms by (simp add: kMaxSequenceNumber_def word_le_nat_alt push_bit_eq_mult)
  have "push_bit 8 seq AND ValueType_code t = 0"
    by (cases t) (auto intro!: bit_word_eqI simp: bit_and_iff bit_push_bit_iff bit_1_iff)
  then have "PackSequenceAndType seq t = push_bit 8 seq + ValueType_code t"
    by (simp add: PackSequenceAndType_def disjunctive_add_eq_or)
  moreover have "unat (push_bit 8 seq) = 256 * unat seq"
    using seq by (simp add: push_bit_eq_mult unat_word_ariths)
  ultimately show ?thesis
    using seq unat_ValueType_code [of t] by (simp add: unat_word_ariths)
qed

lemma PackSequenceAndType_parts:
  assumes "seq \<le> kMaxSequenceNumber"
  shows "drop_bit 8 (PackSequenceAndType seq t) = seq"
    and "PackSequenceAndType seq t AND 0xff = ValueType_code t"
proof -
  have "unat (drop_bit 8 (PackSequenceAndType seq t)) = unat seq"
    using unat_ValueType_code [of t]
    by (simp add: unat_drop_bit_eq drop_bit_eq_div unat_div unat_PackSequenceAndType [OF assms])
  then show "drop_bit 8 (PackSequenceAndType seq t) = seq" by (simp add: word_unat_eq_iff)
  have "push_bit 8 seq AND 0xff = 0"
  proof -
    have "(0xff :: u64) = mask 8" by (simp add: mask_eq_exp_minus_1)
    then have "push_bit 8 seq AND 0xff = take_bit 8 (push_bit 8 seq)" by (simp add: take_bit_eq_mask)
    then show ?thesis by (simp add: take_bit_push_bit)
  qed
  moreover have "ValueType_code t AND 0xff = ValueType_code t" by (cases t) simp_all
  ultimately show "PackSequenceAndType seq t AND 0xff = ValueType_code t"
    by (simp add: PackSequenceAndType_def bit.conj_disj_distrib2)
qed

lemma PackSequenceAndType_less_iff:
  assumes "s \<le> kMaxSequenceNumber" "s' \<le> kMaxSequenceNumber"
  shows "PackSequenceAndType s t < PackSequenceAndType s' t' \<longleftrightarrow>
    s < s' \<or> s = s' \<and> ValueType_code t < ValueType_code t'"
  using unat_ValueType_code [of t] unat_ValueType_code [of t']
  by (auto simp: word_less_nat_alt unat_PackSequenceAndType assms word_unat_eq_iff)

subsection \<open>Internal keys\<close>

text \<open>An internal key is a user key and a tag.\<close>

lemma internal_key_cases:
  assumes "8 \<le> length k"
  obtains u t where "k = u @ le_bytes 8 (t :: u64)"
proof
  have "length (drop (length k - 8) k) = 8" using assms by simp
  then have "le_bytes 8 (le_word (drop (length k - 8) k) :: u64) = drop (length k - 8) k"
    using le_bytes_le_word [of "drop (length k - 8) k", where 'a = 64] by simp
  then show "k = take (length k - 8) k @ le_bytes 8 (le_word (drop (length k - 8) k) :: u64)" by simp
qed

lemma le_bytes_8_inject [simp]: "le_bytes 8 t = le_bytes 8 t' \<longleftrightarrow> t = (t' :: u64)"
proof -
  have "le_word (le_bytes 8 t) = t" "le_word (le_bytes 8 t') = t'" by simp_all
  then show ?thesis by metis
qed

lemma ExtractUserKey_append [simp]: "ExtractUserKey (u @ le_bytes 8 t) = u"
  by (simp add: ExtractUserKey_def)

lemma internal_Compare_append [simp]:
  "internal_Compare C (u @ le_bytes 8 (t :: u64)) (u' @ le_bytes 8 (t' :: u64)) =
     (if C u u' = 0 then if t' < t then - 1 else if t < t' then 1 else 0 else C u u')"
  by (simp add: internal_Compare_def Let_def)

lemma AppendInternalKey_eq:
  "AppendInternalKey r k =
     r @ pik_user_key k @ le_bytes 8 (PackSequenceAndType (pik_sequence k) (pik_type k))"
  by (simp add: AppendInternalKey_def PutFixed64_def)

text \<open>What the user's comparator promises carries over to the comparator of internal keys.\<close>

locale internal_keys = user: comparator Compare separator successor "\<lambda>_. True"
  for Compare separator successor
begin

lemma Compare_self [simp]: "Compare u u = 0"
  by (simp add: user.Compare_refl)

end

sublocale internal_keys \<subseteq> comparator "internal_Compare Compare"
  "internal_FindShortestSeparator Compare separator" "internal_FindShortSuccessor Compare successor"
  "\<lambda>k. 8 \<le> length k"
proof unfold_locales
  fix a b c :: bytes
  assume "8 \<le> length a" "8 \<le> length b"
  then obtain u t u' t' where a: "a = u @ le_bytes 8 (t :: u64)" and b: "b = u' @ le_bytes 8 (t' :: u64)"
    by (metis internal_key_cases)
  show "internal_Compare Compare a b = 0 \<longleftrightarrow> a = b"
    using user.Compare_eq_0 [of u u'] by (auto simp: a b)
  show "internal_Compare Compare a b < 0 \<longleftrightarrow> 0 < internal_Compare Compare b a"
    using user.Compare_eq_0 [of u u'] user.Compare_eq_0 [of u' u] user.Compare_swap [of u u'] by (auto simp: a b)
  show "8 \<le> length (internal_FindShortestSeparator Compare separator a b)"
    by (simp add: internal_FindShortestSeparator_def PutFixed64_def Let_def a)
  show "0 \<le> internal_Compare Compare a b \<Longrightarrow> internal_FindShortestSeparator Compare separator a b = a"
    using user.separator_same [of u u'] by (auto simp: internal_FindShortestSeparator_def a b split: if_splits)
  show "internal_Compare Compare a b < 0 \<Longrightarrow>
      internal_Compare Compare a (internal_FindShortestSeparator Compare separator a b) \<le> 0 \<and>
      internal_Compare Compare (internal_FindShortestSeparator Compare separator a b) b < 0"
    using user.separator_same [of u u'] user.separator_between [of u u']
    by (auto simp: internal_FindShortestSeparator_def PutFixed64_def Let_def a b split: if_splits)
  assume "8 \<le> length c"
  then obtain u'' t'' where c: "c = u'' @ le_bytes 8 (t'' :: u64)"
    by (metis internal_key_cases)
  show "internal_Compare Compare a b < 0 \<Longrightarrow> internal_Compare Compare b c < 0 \<Longrightarrow>
      internal_Compare Compare a c < 0"
    using user.Compare_eq_0 [of u u'] user.Compare_eq_0 [of u' u''] user.Compare_eq_0 [of u u'']
      user.Compare_trans [of u u' u''] by (auto simp: a b c split: if_splits)
next
  fix a :: bytes
  assume "8 \<le> length a"
  then obtain u t where a: "a = u @ le_bytes 8 (t :: u64)" by (metis internal_key_cases)
  show "8 \<le> length (internal_FindShortSuccessor Compare successor a)"
    by (simp add: internal_FindShortSuccessor_def PutFixed64_def Let_def a)
  show "internal_Compare Compare a (internal_FindShortSuccessor Compare successor a) \<le> 0"
    by (auto simp: internal_FindShortSuccessor_def PutFixed64_def Let_def a)
qed

interpretation internal: internal_keys Slice_compare FindShortestSeparator FindShortSuccessor ..

interpretation internal_bloom: filter_policy
  "internal_CreateFilter (bloom_CreateFilter (new_BloomFilterPolicy b))"
  "internal_KeyMayMatch bloom_KeyMayMatch" int_max
  for b
proof unfold_locales
  fix keys dst and key :: bytes
  show "internal_CreateFilter (bloom_CreateFilter (new_BloomFilterPolicy b)) keys dst =
      dst @ internal_CreateFilter (bloom_CreateFilter (new_BloomFilterPolicy b)) keys []"
    unfolding internal_CreateFilter_def by (rule bloom.CreateFilter_appends)
  show "length keys \<le> int_max \<Longrightarrow> key \<in> set keys \<Longrightarrow>
      internal_KeyMayMatch bloom_KeyMayMatch key
        (internal_CreateFilter (bloom_CreateFilter (new_BloomFilterPolicy b)) keys [])"
    unfolding internal_CreateFilter_def internal_KeyMayMatch_def
    by (rule bloom.no_false_negative) simp_all
qed

subsection \<open>Keys of entries and of lookups\<close>

lemma ParseInternalKey_append:
  assumes "seq \<le> kMaxSequenceNumber"
  shows "ParseInternalKey (u @ le_bytes 8 (PackSequenceAndType seq t)) =
    Some \<lparr>pik_user_key = u, pik_sequence = seq, pik_type = t\<rparr>"
  by (cases t) (simp_all add: ParseInternalKey_def PackSequenceAndType_parts [OF assms])

lemma PackSequenceAndType_of_parts:
  assumes "(ucast (t AND 0xff) :: byte) \<le> 1"
  shows "PackSequenceAndType (drop_bit 8 t)
    (if (ucast (t AND 0xff) :: byte) = 0 then kTypeDeletion else kTypeValue) = t"
proof -
  have "(0xff :: u64) = mask 8" by (simp add: mask_eq_exp_minus_1)
  then have low: "t AND 0xff = take_bit 8 t" by (simp add: take_bit_eq_mask)
  then have u: "t AND 0xff = ucast (ucast (t AND 0xff) :: byte)"
    by (auto intro!: bit_word_eqI simp: bit_simps)
  define w :: byte where "w = ucast (t AND 0xff)"
  have "w = 0 \<or> w = 1"
    using assms unfolding w_def [symmetric] by (auto simp: word_le_nat_alt word_unat_eq_iff le_Suc_eq)
  then have "ValueType_code (if w = 0 then kTypeDeletion else kTypeValue) = ucast w"
    by (rule disjE) simp_all
  then have code: "ValueType_code (if (ucast (t AND 0xff) :: byte) = 0 then kTypeDeletion else kTypeValue) = t AND 0xff"
    using u unfolding w_def [symmetric] by simp
  have "push_bit 8 (drop_bit 8 t) OR t AND 0xff = t"
    unfolding low by (rule bit_word_eqI) (auto simp: bit_simps)
  then show ?thesis by (simp only: PackSequenceAndType_def code)
qed

text \<open>C26: Internal keys round trip. A key with a sequence number of 56 bits is parsed back, its user key
  is what it was made of and its length the announced one. What parses is the key made of the parts.\<close>

theorem ldb_internal_key_roundtrip:
  assumes "pik_sequence k \<le> kMaxSequenceNumber"
  shows "ParseInternalKey (AppendInternalKey [] k) = Some k
    \<and> ExtractUserKey (AppendInternalKey [] k) = pik_user_key k
    \<and> length (AppendInternalKey [] k) = InternalKeyEncodingLength k
    \<and> (ParseInternalKey ik = Some j \<longrightarrow> AppendInternalKey [] j = ik)"
proof (intro conjI impI)
  show "ParseInternalKey (AppendInternalKey [] k) = Some k"
    using ParseInternalKey_append [OF assms] by (simp add: AppendInternalKey_eq)
  assume parse: "ParseInternalKey ik = Some j"
  then have "8 \<le> length ik" by (auto simp: ParseInternalKey_def Let_def split: if_splits)
  then obtain u t where ik: "ik = u @ le_bytes 8 (t :: u64)" by (metis internal_key_cases)
  from parse show "AppendInternalKey [] j = ik"
    using PackSequenceAndType_of_parts [of t]
    by (auto simp: ParseInternalKey_def Let_def ik AppendInternalKey_eq split: if_splits)
qed (simp_all add: AppendInternalKey_eq InternalKeyEncodingLength_def)

lemma ldb_internal_key_roundtrip_witness:
  "ParseInternalKey (AppendInternalKey [] \<lparr>pik_user_key = [97], pik_sequence = 7, pik_type = kTypeValue\<rparr>) =
     Some \<lparr>pik_user_key = [97], pik_sequence = 7, pik_type = kTypeValue\<rparr>"
  by (rule ldb_internal_key_roundtrip [THEN conjunct1]) (simp add: kMaxSequenceNumber_def)

text \<open>C25: The order of internal keys is ascending in the user key and, for the same user key, descending in
  the sequence number and then in the type, so that the newest entry comes first. An entry is at or
  behind a lookup key just when its user key is greater, or it is the same and the entry is visible in the
  snapshot. The key of a lookup in the memtable is the internal key with its length in front.\<close>

theorem ldb_internal_key_order:
  assumes "pik_sequence a \<le> kMaxSequenceNumber" "pik_sequence b \<le> kMaxSequenceNumber"
    and "snapshot \<le> kMaxSequenceNumber" and "length u + 8 < 2 ^ 32"
  defines "compare \<equiv> internal_Compare Slice_compare"
    and "k \<equiv> new_LookupKey u snapshot"
  shows "(compare (AppendInternalKey [] a) (AppendInternalKey [] b) < 0 \<longleftrightarrow>
      Slice_compare (pik_user_key a) (pik_user_key b) < 0
      \<or> pik_user_key a = pik_user_key b \<and>
          (pik_sequence b < pik_sequence a
           \<or> pik_sequence a = pik_sequence b \<and> pik_type a = kTypeValue \<and> pik_type b = kTypeDeletion))
    \<and> (compare (internal_key k) (AppendInternalKey [] a) \<le> 0 \<longleftrightarrow>
      Slice_compare u (pik_user_key a) < 0 \<or> pik_user_key a = u \<and> pik_sequence a \<le> snapshot)
    \<and> GetLengthPrefixedSlice (memtable_key k) = Some (internal_key k, [])
    \<and> user_key k = u"
proof (intro conjI)
  have code: "ValueType_code t < ValueType_code t' \<longleftrightarrow> t = kTypeDeletion \<and> t' = kTypeValue" for t t'
    by (cases t; cases t') simp_all
  note less = PackSequenceAndType_less_iff code
  show "compare (AppendInternalKey [] a) (AppendInternalKey [] b) < 0 \<longleftrightarrow>
      Slice_compare (pik_user_key a) (pik_user_key b) < 0
      \<or> pik_user_key a = pik_user_key b \<and>
          (pik_sequence b < pik_sequence a
           \<or> pik_sequence a = pik_sequence b \<and> pik_type a = kTypeValue \<and> pik_type b = kTypeDeletion)"
    using assms(1,2) by (auto simp: compare_def AppendInternalKey_eq less Slice_compare_eq_0)
  have ik: "internal_key k = u @ le_bytes 8 (PackSequenceAndType snapshot kTypeValue)"
    by (simp add: internal_key_def k_def new_LookupKey_def Let_def kValueTypeForSeek_def)
  show "compare (internal_key k) (AppendInternalKey [] a) \<le> 0 \<longleftrightarrow>
      Slice_compare u (pik_user_key a) < 0 \<or> pik_user_key a = u \<and> pik_sequence a \<le> snapshot"
    using assms(1,3) by (cases "pik_type a") (auto simp: ik compare_def AppendInternalKey_eq less Slice_compare_eq_0 le_less)
  show "user_key k = u"
    by (simp add: user_key_def k_def new_LookupKey_def Let_def)
  show "GetLengthPrefixedSlice (memtable_key k) = Some (internal_key k, [])"
    using assms(4) slice.get_put_Nil [of "internal_key k"] unfolding ik
    by (simp add: memtable_key_def k_def new_LookupKey_def Let_def kValueTypeForSeek_def length_prefixed_def
        PutLengthPrefixedSlice_def PutVarint32_def)
qed

lemma ldb_internal_key_order_witness:
  "internal_Compare Slice_compare
     (AppendInternalKey [] \<lparr>pik_user_key = [97], pik_sequence = 7, pik_type = kTypeValue\<rparr>)
     (AppendInternalKey [] \<lparr>pik_user_key = [97], pik_sequence = 3, pik_type = kTypeDeletion\<rparr>) < 0"
  using ldb_internal_key_order
    [of "\<lparr>pik_user_key = [97], pik_sequence = 7, pik_type = kTypeValue\<rparr>"
      "\<lparr>pik_user_key = [97], pik_sequence = 3, pik_type = kTypeDeletion\<rparr>" 5 "[97]", THEN conjunct1]
  by (simp add: kMaxSequenceNumber_def)

text \<open>C27: The shortened keys of an index. For two neighbouring internal keys the separator is not before
  the first, before the second and not longer than the first; the successor of a key is not before it. For
  keys that are not in order the separator is the first one.\<close>

theorem ldb_internal_separator:
  fixes a b :: bytes
  assumes "8 \<le> length a" "8 \<le> length b"
  defines "compare \<equiv> internal_Compare Slice_compare"
    and "s \<equiv> internal_FindShortestSeparator Slice_compare FindShortestSeparator a b"
    and "t \<equiv> internal_FindShortSuccessor Slice_compare FindShortSuccessor a"
  shows "(compare a b < 0 \<longrightarrow> compare a s \<le> 0 \<and> compare s b < 0)
    \<and> (\<not> compare a b < 0 \<longrightarrow> s = a) \<and> compare a t \<le> 0 \<and> length s \<le> length a \<and> length t \<le> length a"
proof (intro conjI impI)
  show "compare a b < 0 \<Longrightarrow> compare a s \<le> 0" "compare a b < 0 \<Longrightarrow> compare s b < 0"
    using internal.separator_between [OF assms(1,2)] by (simp_all add: compare_def s_def)
  show "\<not> compare a b < 0 \<Longrightarrow> s = a"
    using internal.separator_same [OF assms(1,2)] by (simp add: compare_def s_def)
  show "compare a t \<le> 0"
    using internal.successor_above [OF assms(1)] by (simp add: compare_def t_def)
  show "length s \<le> length a"
    using assms(1) by (auto simp: s_def internal_FindShortestSeparator_def PutFixed64_def ExtractUserKey_def Let_def)
  show "length t \<le> length a"
    using assms(1) by (auto simp: t_def internal_FindShortSuccessor_def PutFixed64_def ExtractUserKey_def Let_def)
qed

lemma ldb_internal_separator_witness:
  "8 \<le> length (replicate 9 0 :: bytes) \<and> internal_Compare Slice_compare (replicate 9 0)
     (internal_FindShortSuccessor Slice_compare FindShortSuccessor (replicate 9 0)) \<le> 0"
  using ldb_internal_separator [of "replicate 9 0" "replicate 8 1"] by simp

end
