(* ===== verification/Ldb_Status.thy ===== *)
theory Ldb_Status imports Ldb_Coding begin

text \<open>
  \<open>Status\<close>, the result of operations that can fail (\<open>leveldb/status.h\<close>, \<open>util/status.cc\<close>), and the numbers
  and escapes of \<open>util/logging.cc\<close>.
\<close>

subsection \<open>Characters and numbers\<close>

text \<open>The bytes of a string literal.\<close>

definition chars :: "string \<Rightarrow> bytes" where
  "chars s = map of_char s"

text \<open>What \<open>printf\<close> writes for \<open>%llu\<close>: the decimal digits.\<close>

fun decimal :: "nat \<Rightarrow> bytes" where
  "decimal n = (if n < 10 then [of_nat (48 + n)] else decimal (n div 10) @ [of_nat (48 + n mod 10)])"

declare decimal.simps [simp del]

definition hex_digit :: "nat \<Rightarrow> byte" where
  "hex_digit n = (if n < 10 then of_nat (48 + n) else of_nat (87 + n))"

subsection \<open>Logging\<close>

definition AppendNumberTo :: "bytes \<Rightarrow> u64 \<Rightarrow> bytes" where
  "AppendNumberTo str num = str @ decimal (unat num)"

definition AppendEscapedStringTo :: "bytes \<Rightarrow> bytes \<Rightarrow> bytes" where
  "AppendEscapedStringTo str value =
     fold (\<lambda>c str. if 32 \<le> c \<and> c \<le> 126 then str @ [c]
        else str @ [92, 120, hex_digit (unat c div 16), hex_digit (unat c mod 16)]) value str"

definition NumberToString :: "u64 \<Rightarrow> bytes" where
  "NumberToString num = AppendNumberTo [] num"

definition EscapeString :: "bytes \<Rightarrow> bytes" where
  "EscapeString value = AppendEscapedStringTo [] value"

text \<open>The digits at the front; \<open>None\<close> is the return inside the loop, for a number of more than 64 bits.\<close>

fun consume_digits :: "u64 \<Rightarrow> bytes \<Rightarrow> (u64 \<times> bytes) option" where
  "consume_digits value [] = Some (value, [])"
| "consume_digits value (ch # rest) =
     (if ch < 48 \<or> 57 < ch then Some (value, ch # rest)
      else if 0xffffffffffffffff div 10 < value \<or> value = 0xffffffffffffffff div 10 \<and> 48 + 5 < ch then None
      else consume_digits (value * 10 + ucast (ch - 48)) rest)"

text \<open>\<open>None\<close> is the result false; \<open>in\<close> then has no digit at its front, or too many.\<close>

definition ConsumeDecimalNumber :: "bytes \<Rightarrow> (u64 \<times> bytes) option" where
  "ConsumeDecimalNumber input =
     (case consume_digits 0 input of
        None \<Rightarrow> None
      | Some (value, rest) \<Rightarrow> if length input - length rest \<noteq> 0 then Some (value, rest) else None)"

subsection \<open>Status\<close>

datatype Code = kOk | kNotFound | kCorruption | kNotSupported | kInvalidArgument | kIOError

primrec Code_value :: "Code \<Rightarrow> byte" where
  "Code_value kOk = 0"
| "Code_value kNotFound = 1"
| "Code_value kCorruption = 2"
| "Code_value kNotSupported = 3"
| "Code_value kInvalidArgument = 4"
| "Code_value kIOError = 5"

text \<open>The member \<open>state_\<close>: \<open>None\<close> is the null pointer, otherwise it is the array.\<close>

type_synonym Status = "bytes option"

definition new_Status :: "Code \<Rightarrow> bytes \<Rightarrow> bytes \<Rightarrow> Status" where
  "new_Status code msg msg2 =
     (let len1 = (of_nat (length msg) :: u32);
          len2 = (of_nat (length msg2) :: u32);
          size = len1 + (if len2 \<noteq> 0 then 2 + len2 else 0)
      in Some (le_bytes 4 size @ [Code_value code] @ take (unat len1) msg
           @ (if len2 \<noteq> 0 then [58, 32] @ take (unat len2) msg2 else [])))"

definition status_OK :: Status where
  "status_OK = None"

definition ok :: "Status \<Rightarrow> bool" where
  "ok s \<longleftrightarrow> s = None"

definition status_code :: "Status \<Rightarrow> byte" where
  "status_code s = (case s of None \<Rightarrow> Code_value kOk | Some state \<Rightarrow> state ! 4)"

definition NotFound :: "bytes \<Rightarrow> bytes \<Rightarrow> Status" where
  "NotFound msg msg2 = new_Status kNotFound msg msg2"

definition Corruption :: "bytes \<Rightarrow> Status" where
  "Corruption msg = new_Status kCorruption msg []"

definition InvalidArgument :: "bytes \<Rightarrow> Status" where
  "InvalidArgument msg = new_Status kInvalidArgument msg []"

definition IOError :: "bytes \<Rightarrow> bytes \<Rightarrow> Status" where
  "IOError msg msg2 = new_Status kIOError msg msg2"

definition status_type :: "byte \<Rightarrow> bytes" where
  "status_type code =
     (if code = Code_value kOk then chars ''OK''
      else if code = Code_value kNotFound then chars ''NotFound: ''
      else if code = Code_value kCorruption then chars ''Corruption: ''
      else if code = Code_value kNotSupported then chars ''Not implemented: ''
      else if code = Code_value kInvalidArgument then chars ''Invalid argument: ''
      else if code = Code_value kIOError then chars ''IO error: ''
      else chars ''Unknown code('' @ (if code < 128 then decimal (unat code) else 45 # decimal (256 - unat code))
             @ chars ''): '')"

definition status_ToString :: "Status \<Rightarrow> bytes" where
  "status_ToString s =
     (case s of
        None \<Rightarrow> chars ''OK''
      | Some state \<Rightarrow> status_type (status_code s) @ take (unat (le_word (take 4 state) :: u32)) (drop 5 state))"

subsection \<open>Facts\<close>

lemma ok_simps [simp]: "ok None" "\<not> ok (Some s)" "ok status_OK" "\<not> ok (new_Status c m m')"
  by (simp_all add: ok_def status_OK_def new_Status_def Let_def)

lemma ok_iff: "ok s \<longleftrightarrow> s = status_OK"
  by (simp add: ok_def status_OK_def)

lemma not_ok_simps [simp]:
  "\<not> ok (NotFound m m')" "\<not> ok (Corruption m)" "\<not> ok (InvalidArgument m)" "\<not> ok (IOError m m')"
  by (simp_all add: NotFound_def Corruption_def InvalidArgument_def IOError_def)

lemma status_code_new [simp]: "status_code (new_Status c m m') = Code_value c"
  by (simp add: status_code_def new_Status_def Let_def nth_append)

lemma status_ToString_new:
  assumes "length m + length m' + 2 < 2 ^ 32"
  shows "status_ToString (new_Status c m m') =
    status_type (Code_value c) @ m @ (if m' = [] then [] else chars '': '' @ m')"
proof -
  let ?n = "of_nat (length m) + (if (of_nat (length m') :: u32) \<noteq> 0 then 2 + of_nat (length m') else 0) :: u32"
  have len: "unat (of_nat (length m) :: u32) = length m" "unat (of_nat (length m') :: u32) = length m'"
    using assms by (simp_all add: unat_of_nat take_bit_nat_eq_self)
  have zero: "(of_nat (length m') :: u32) = 0 \<longleftrightarrow> m' = []"
    using len(2) by (auto simp: word_unat_eq_iff)
  have "unat ?n = length m + (if m' = [] then 0 else 2 + length m')"
    using assms by (auto simp: unat_word_ariths len zero)
  then show ?thesis
    using len zero by (auto simp: status_ToString_def new_Status_def Let_def status_code_def nth_append chars_def
        split: if_splits)
qed

lemma decimal_digits: "b \<in> set (decimal n) \<Longrightarrow> 48 \<le> b \<and> b \<le> 57"
proof (induction n rule: decimal.induct)
  case (1 n)
  have digit: "48 \<le> (of_nat (48 + m) :: byte) \<and> (of_nat (48 + m) :: byte) \<le> 57" if "m < 10" for m
    using that by (simp add: word_le_nat_alt unat_of_nat take_bit_nat_eq_self del: of_nat_add)
  have "b = of_nat (48 + n mod 10) \<or> \<not> n < 10 \<and> b \<in> set (decimal (n div 10))"
    using 1(2) by (subst (asm) decimal.simps) (auto split: if_splits)
  then show ?case using 1(1) digit [of "n mod 10"] by auto
qed

lemma decimal_not_Nil [simp]: "decimal n \<noteq> []"
  by (subst decimal.simps) simp

lemma consume_digits_append:
  "consume_digits v xs = Some (w, []) \<Longrightarrow> consume_digits v (xs @ ys) = consume_digits w ys"
  by (induction v xs rule: consume_digits.induct) (auto split: if_splits)

lemma consume_digits_decimal: "n < 2 ^ 64 \<Longrightarrow> consume_digits 0 (decimal n) = Some (of_nat n, [])"
proof (induction n rule: decimal.induct)
  case (1 n)
  define m where "m = n div 10"
  define d :: byte where "d = of_nat (48 + n mod 10)"
  have d: "unat d = 48 + n mod 10"
    by (simp add: d_def unat_of_nat take_bit_nat_eq_self del: of_nat_add)
  have m: "unat (of_nat m :: u64) = m"
    using 1(2) by (simp add: m_def unat_of_nat take_bit_nat_eq_self)
  have bound: "10 * m + n mod 10 < 2 ^ 64" using 1(2) by (simp add: m_def)
  have range: "\<not> d < 48" "\<not> 57 < d" using d by (simp_all add: word_less_nat_alt)
  have le: "\<not> 0xffffffffffffffff div 10 < (of_nat m :: u64)"
    using bound by (simp add: word_less_nat_alt m unat_div)
  have over: "\<not> ((of_nat m :: u64) = 0xffffffffffffffff div 10 \<and> 48 + 5 < d)"
  proof
    assume *: "(of_nat m :: u64) = 0xffffffffffffffff div 10 \<and> 48 + 5 < d"
    then have "unat (of_nat m :: u64) = unat (0xffffffffffffffff div 10 :: u64)" by simp
    then have "m = 1844674407370955161" by (simp add: m unat_div)
    with * bound d show False by (simp add: word_less_nat_alt)
  qed
  have "unat (ucast (d - 48) :: u64) = n mod 10"
  proof -
    have "unat (d - 48) = n mod 10" using d by (subst unat_sub) (simp_all add: word_le_nat_alt)
    then show ?thesis by (simp add: unsigned_ucast_eq take_bit_nat_eq_self)
  qed
  then have sum: "(of_nat m :: u64) * 10 + ucast (d - 48) = of_nat n"
    using bound m 1(2) by (intro word_unat_eq_iff [THEN iffD2]) (simp add: unat_word_ariths unat_of_nat take_bit_nat_eq_self m_def)
  have "consume_digits (of_nat m) [d] = Some (of_nat n, [])"
    using range le over sum by simp
  moreover have "n < 10 \<or> consume_digits 0 (decimal m) = Some (of_nat m, [])"
    using 1(1) le_less_trans [OF div_le_dividend 1(2)] by (auto simp: m_def)
  moreover have "decimal n = (if n < 10 then [d] else decimal m @ [d])"
    by (subst decimal.simps) (simp add: d_def m_def)
  moreover have "n < 10 \<Longrightarrow> m = 0" by (simp add: m_def)
  ultimately show ?case
    using consume_digits_append [of 0 "decimal m" "of_nat m" "[d]"] by (auto split: if_splits)
qed

text \<open>What follows the number must not begin with a digit.\<close>

lemma ConsumeDecimalNumber_decimal:
  assumes "n < 2 ^ 64" and "rest = [] \<or> hd rest < 48 \<or> 57 < hd rest"
  shows "ConsumeDecimalNumber (decimal n @ rest) = Some (of_nat n, rest)"
proof -
  have "consume_digits v rest = Some (v, rest)" for v
    using assms(2) by (cases rest) auto
  then have "consume_digits 0 (decimal n @ rest) = Some (of_nat n, rest)"
    using consume_digits_append [OF consume_digits_decimal [OF assms(1)]] by simp
  then show ?thesis by (simp add: ConsumeDecimalNumber_def)
qed

end
