(* ===== verification/Ldb_Env.thy ===== *)
theory Ldb_Env imports Ldb_Status begin

text \<open>
  Files. \<open>WritableFile\<close> and \<open>SequentialFile\<close> are the interfaces of \<open>leveldb/env.h\<close>, as records of their
  operations on a state; below are the classes of \<open>util/env_posix.cc\<close> that implement them. The system
  calls are arguments. A result \<open>None\<close> is a call that does not return.
\<close>

subsection \<open>Interfaces\<close>

record 'w WritableFile =
  wf_Append :: "bytes \<Rightarrow> 'w \<Rightarrow> (Status \<times> 'w) option"
  wf_Flush :: "'w \<Rightarrow> (Status \<times> 'w) option"

text \<open>\<open>Read\<close> leaves the result it is given as it was when it fails.\<close>

record 'f SequentialFile =
  sf_Read :: "nat \<Rightarrow> bytes \<Rightarrow> 'f \<Rightarrow> (Status \<times> bytes \<times> 'f) option"
  sf_Skip :: "u64 \<Rightarrow> 'f \<Rightarrow> Status \<times> 'f"

text \<open>A writable file that takes everything: \<open>accepted\<close> is all that was appended, \<open>flushed\<close> the part of it
  that was handed on.\<close>

locale writable_file =
  fixes wfile :: "'w WritableFile"
    and accepted flushed :: "'w \<Rightarrow> bytes"
  assumes Append: "\<exists>w'. wf_Append wfile data w = Some (status_OK, w') \<and> accepted w' = accepted w @ data"
    and Flush: "\<exists>w'. wf_Flush wfile w = Some (status_OK, w') \<and> accepted w' = accepted w \<and> flushed w' = accepted w"

text \<open>A file with \<open>unread\<close> in front of the reader.\<close>

locale sequential_file =
  fixes sfile :: "'f SequentialFile"
    and unread :: "'f \<Rightarrow> bytes"
  assumes Read: "\<exists>f'. sf_Read sfile n result f = Some (status_OK, take n (unread f), f') \<and> unread f' = drop n (unread f)"

subsection \<open>The code of \<open>env_posix.cc\<close>\<close>

definition kWritableFileBufferSize :: nat where
  "kWritableFileBufferSize = 65536"

text \<open>\<open>errno\<close> values.\<close>

definition ENOENT :: int where
  "ENOENT = 2"

definition EINTR :: int where
  "EINTR = 4"

definition PosixError :: "(int \<Rightarrow> bytes) \<Rightarrow> bytes \<Rightarrow> int \<Rightarrow> Status" where
  "PosixError strerror name error_number =
     (if error_number = ENOENT then NotFound name (strerror error_number)
      else IOError name (strerror error_number))"

text \<open>A system call gives its result, the error number and the next state of the system.\<close>

type_synonym 'k write_call = "bytes \<Rightarrow> 'k \<Rightarrow> int \<times> int \<times> 'k"
type_synonym 'k read_call = "nat \<Rightarrow> 'k \<Rightarrow> int \<times> int \<times> bytes \<times> 'k"
type_synonym 'k lseek_call = "u64 \<Rightarrow> 'k \<Rightarrow> int \<times> int \<times> 'k"

text \<open>The characters of \<open>buf_\<close> before \<open>pos_\<close>, and the system.\<close>

record 'k PosixWritableFile =
  pwf_buf :: bytes
  pwf_system :: 'k

partial_function (option) WriteUnbuffered ::
  "'k write_call \<Rightarrow> (int \<Rightarrow> Status) \<Rightarrow> bytes \<Rightarrow> 'k \<Rightarrow> (Status \<times> 'k) option" where
  "WriteUnbuffered sys_write error data k =
     (if data = [] then Some (status_OK, k)
      else case sys_write data k of
        (write_result, errno, k) \<Rightarrow>
          if write_result < 0
          then if errno = EINTR then WriteUnbuffered sys_write error data k else Some (error errno, k)
          else WriteUnbuffered sys_write error (drop (nat write_result) data) k)"

definition FlushBuffer ::
  "'k write_call \<Rightarrow> (int \<Rightarrow> Status) \<Rightarrow> 'k PosixWritableFile \<Rightarrow> (Status \<times> 'k PosixWritableFile) option" where
  "FlushBuffer sys_write error f =
     map_option (\<lambda>(status, k). (status, \<lparr>pwf_buf = [], pwf_system = k\<rparr>))
       (WriteUnbuffered sys_write error (pwf_buf f) (pwf_system f))"

definition PosixWritableFile_Append ::
  "'k write_call \<Rightarrow> (int \<Rightarrow> Status) \<Rightarrow> bytes \<Rightarrow> 'k PosixWritableFile \<Rightarrow> (Status \<times> 'k PosixWritableFile) option" where
  "PosixWritableFile_Append sys_write error data f =
     (let copy_size = min (length data) (kWritableFileBufferSize - length (pwf_buf f));
          f = f\<lparr>pwf_buf := pwf_buf f @ take copy_size data\<rparr>;
          write_data = drop copy_size data
      in if write_data = [] then Some (status_OK, f)
         else case FlushBuffer sys_write error f of
           None \<Rightarrow> None
         | Some (status, f) \<Rightarrow>
             if \<not> ok status then Some (status, f)
             else if length write_data < kWritableFileBufferSize
             then Some (status_OK, f\<lparr>pwf_buf := write_data\<rparr>)
             else map_option (\<lambda>(status, k). (status, f\<lparr>pwf_system := k\<rparr>))
                    (WriteUnbuffered sys_write error write_data (pwf_system f)))"

definition posix_writable :: "'k write_call \<Rightarrow> (int \<Rightarrow> Status) \<Rightarrow> 'k PosixWritableFile WritableFile" where
  "posix_writable sys_write error =
     \<lparr>wf_Append = PosixWritableFile_Append sys_write error, wf_Flush = FlushBuffer sys_write error\<rparr>"

partial_function (option) PosixSequentialFile_Read ::
  "'k read_call \<Rightarrow> (int \<Rightarrow> Status) \<Rightarrow> nat \<Rightarrow> bytes \<Rightarrow> 'k \<Rightarrow> (Status \<times> bytes \<times> 'k) option" where
  "PosixSequentialFile_Read read error n result k =
     (case read n k of
        (read_size, errno, scratch, k) \<Rightarrow>
          if read_size < 0
          then if errno = EINTR then PosixSequentialFile_Read read error n result k
               else Some (error errno, result, k)
          else Some (status_OK, take (nat read_size) scratch, k))"

definition PosixSequentialFile_Skip ::
  "'k lseek_call \<Rightarrow> (int \<Rightarrow> Status) \<Rightarrow> u64 \<Rightarrow> 'k \<Rightarrow> Status \<times> 'k" where
  "PosixSequentialFile_Skip lseek error n k =
     (case lseek n k of (r, errno, k) \<Rightarrow> (if r = - 1 then error errno else status_OK, k))"

definition posix_sequential ::
  "'k read_call \<Rightarrow> 'k lseek_call \<Rightarrow> (int \<Rightarrow> Status) \<Rightarrow> 'k SequentialFile" where
  "posix_sequential read lseek error =
     \<lparr>sf_Read = PosixSequentialFile_Read read error, sf_Skip = PosixSequentialFile_Skip lseek error\<rparr>"

declare WriteUnbuffered.simps [code] PosixSequentialFile_Read.simps [code]

subsection \<open>What the system does\<close>

text \<open>
  A regular file with room, as the standard describes \<open>write\<close> and \<open>read\<close>: a write takes at least one byte
  and at most all, a read gives all there are up to the number asked for, and both may be interrupted
  by a signal before they did anything, though not forever. \<open>interrupts\<close> counts down.
\<close>

locale posix_write =
  fixes sys_write :: "'k write_call" and on_disk :: "'k \<Rightarrow> bytes" and interrupts :: "'k \<Rightarrow> nat"
  assumes sys_write: "data \<noteq> [] \<Longrightarrow> sys_write data k = (n, e, k') \<Longrightarrow>
      n < 0 \<and> e = EINTR \<and> on_disk k' = on_disk k \<and> interrupts k' < interrupts k
      \<or> 0 < n \<and> n \<le> int (length data) \<and> on_disk k' = on_disk k @ take (nat n) data
          \<and> interrupts k' \<le> interrupts k"
begin

lemma WriteUnbuffered_writes:
  "\<exists>k'. WriteUnbuffered sys_write error data k = Some (status_OK, k') \<and> on_disk k' = on_disk k @ data"
proof (induction "length data + interrupts k" arbitrary: data k rule: less_induct)
  case less
  show ?case
  proof (cases "data = []")
    case True
    then show ?thesis by (subst WriteUnbuffered.simps) simp
  next
    case False
    obtain n e k' where w: "sys_write data k = (n, e, k')" by (cases "sys_write data k") auto
    from sys_write [OF False w] show ?thesis
    proof (elim disjE conjE)
      assume "n < 0" "e = EINTR" "on_disk k' = on_disk k" "interrupts k' < interrupts k"
      then show ?thesis
        using less [of data k'] False w by (subst WriteUnbuffered.simps) simp
    next
      assume n: "0 < n" "n \<le> int (length data)" and "on_disk k' = on_disk k @ take (nat n) data"
        "interrupts k' \<le> interrupts k"
      then show ?thesis
        using less [of "drop (nat n) data" k'] False w by (subst WriteUnbuffered.simps) simp
    qed
  qed
qed

lemma FlushBuffer_flushes:
  "\<exists>f'. FlushBuffer sys_write error f = Some (status_OK, f') \<and> pwf_buf f' = [] \<and>
     on_disk (pwf_system f') = on_disk (pwf_system f) @ pwf_buf f"
  using WriteUnbuffered_writes [of error "pwf_buf f" "pwf_system f"] by (auto simp: FlushBuffer_def)

end

locale posix_read =
  fixes read :: "'k read_call" and ahead :: "'k \<Rightarrow> bytes" and interrupts :: "'k \<Rightarrow> nat"
  assumes read: "read n k = (r, e, scratch, k') \<Longrightarrow>
      r < 0 \<and> e = EINTR \<and> ahead k' = ahead k \<and> interrupts k' < interrupts k
      \<or> r = int (length (take n (ahead k))) \<and> take (nat r) scratch = take n (ahead k) \<and> ahead k' = drop n (ahead k)"

sublocale posix_write \<subseteq> writable_file "posix_writable sys_write error"
  "\<lambda>f. on_disk (pwf_system f) @ pwf_buf f" "\<lambda>f. on_disk (pwf_system f)" for error
proof unfold_locales
  fix data :: bytes and f :: "'k PosixWritableFile"
  show "\<exists>f'. wf_Flush (posix_writable sys_write error) f = Some (status_OK, f') \<and>
      on_disk (pwf_system f') @ pwf_buf f' = on_disk (pwf_system f) @ pwf_buf f \<and>
      on_disk (pwf_system f') = on_disk (pwf_system f) @ pwf_buf f"
    using FlushBuffer_flushes [of error f] by (auto simp: posix_writable_def)
  define n where "n = min (length data) (kWritableFileBufferSize - length (pwf_buf f))"
  define g where "g = f\<lparr>pwf_buf := pwf_buf f @ take n data\<rparr>"
  obtain h where h: "FlushBuffer sys_write error g = Some (status_OK, h)" "pwf_buf h = []"
    "on_disk (pwf_system h) = on_disk (pwf_system g) @ pwf_buf g"
    using FlushBuffer_flushes [of error g] by blast
  have data: "take n data @ drop n data = data" by simp
  show "\<exists>f'. wf_Append (posix_writable sys_write error) data f = Some (status_OK, f') \<and>
      on_disk (pwf_system f') @ pwf_buf f' = (on_disk (pwf_system f) @ pwf_buf f) @ data"
    using h data WriteUnbuffered_writes [of error "drop n data" "pwf_system h"]
    by (auto simp: posix_writable_def PosixWritableFile_Append_def Let_def g_def n_def [symmetric] map_option_case)
qed

sublocale posix_read \<subseteq> sequential_file "posix_sequential read lseek error" ahead for lseek error
proof unfold_locales
  fix n result and k :: 'k
  show "\<exists>k'. sf_Read (posix_sequential read lseek error) n result k = Some (status_OK, take n (ahead k), k')
      \<and> ahead k' = drop n (ahead k)"
  proof (induction "interrupts k" arbitrary: k rule: less_induct)
    case less
    obtain r e scratch k' where r: "read n k = (r, e, scratch, k')" by (cases "read n k") auto
    from read [OF r] less [of k'] show ?case
      by (auto simp: posix_sequential_def PosixSequentialFile_Read.simps [of _ _ _ _ k] r)
  qed
qed

text \<open>A system that gives the answers of a list: 0 for an interruption, otherwise how much is taken at most.\<close>

fun listed_write :: "(bytes \<times> nat list) write_call" where
  "listed_write data (disk, []) = (int (length data), 0, disk @ data, [])"
| "listed_write data (disk, 0 # answers) = (- 1, EINTR, disk, answers)"
| "listed_write data (disk, Suc n # answers) =
     (int (min (Suc n) (length data)), 0, disk @ take (min (Suc n) (length data)) data, answers)"

fun listed_read :: "(bytes \<times> nat) read_call" where
  "listed_read n (rest, 0) = (int (length (take n rest)), 0, take n rest, drop n rest, 0)"
| "listed_read n (rest, Suc interrupts) = (- 1, EINTR, [], rest, interrupts)"

interpretation listed: posix_write listed_write fst "\<lambda>k. length (snd k)"
proof unfold_locales
  fix data n e and k k' :: "bytes \<times> nat list"
  show "data \<noteq> [] \<Longrightarrow> listed_write data k = (n, e, k') \<Longrightarrow>
      n < 0 \<and> e = EINTR \<and> fst k' = fst k \<and> length (snd k') < length (snd k)
      \<or> 0 < n \<and> n \<le> int (length data) \<and> fst k' = fst k @ take (nat n) data
          \<and> length (snd k') \<le> length (snd k)"
    by (cases "(data, k)" rule: listed_write.cases) (auto simp: min_def)
qed

interpretation listed_r: posix_read listed_read fst snd
proof unfold_locales
  fix n r e scratch and k k' :: "bytes \<times> nat"
  show "listed_read n k = (r, e, scratch, k') \<Longrightarrow>
      r < 0 \<and> e = EINTR \<and> fst k' = fst k \<and> snd k' < snd k
      \<or> r = int (length (take n (fst k))) \<and> take (nat r) scratch = take n (fst k) \<and> fst k' = drop n (fst k)"
    by (cases "(n, k)" rule: listed_read.cases) auto
qed

end
