(* ===== verification/Ldb_Log.thy ===== *)
theory Ldb_Log imports Ldb_Env Ldb_Crc32c begin

text \<open>
  The log, \<open>db/log_format.h\<close>, \<open>log_writer.cc\<close> and \<open>log_reader.cc\<close>: blocks of 32 KiB with physical records,
  each a masked checksum, a length, a type and a payload. The records of the user are split over blocks.
  The checksum does not depend on the address of its data (\<open>crc32c_Value_ref\<close>), which is 0 here.
\<close>

subsection \<open>Format\<close>

datatype RecordType = kZeroType | kFullType | kFirstType | kMiddleType | kLastType

primrec RecordType_value :: "RecordType \<Rightarrow> nat" where
  "RecordType_value kZeroType = 0"
| "RecordType_value kFullType = 1"
| "RecordType_value kFirstType = 2"
| "RecordType_value kMiddleType = 3"
| "RecordType_value kLastType = 4"

definition kMaxRecordType :: nat where
  "kMaxRecordType = RecordType_value kLastType"

definition kBlockSize :: nat where
  "kBlockSize = 32768"

definition kHeaderSize :: nat where
  "kHeaderSize = 4 + 2 + 1"

subsection \<open>Writer\<close>

record 'w Writer =
  lw_dest :: 'w
  lw_block_offset :: nat
  lw_type_crc :: "u32 list"

definition InitTypeCrc :: "u32 list" where
  "InitTypeCrc = map (\<lambda>i. crc32c_Value 0 [of_nat i]) [0..<kMaxRecordType + 1]"

definition new_Writer :: "'w \<Rightarrow> 'w Writer" where
  "new_Writer dest = \<lparr>lw_dest = dest, lw_block_offset = 0, lw_type_crc = InitTypeCrc\<rparr>"

definition new_Writer_at :: "'w \<Rightarrow> u64 \<Rightarrow> 'w Writer" where
  "new_Writer_at dest dest_length =
     \<lparr>lw_dest = dest, lw_block_offset = unat dest_length mod kBlockSize, lw_type_crc = InitTypeCrc\<rparr>"

definition EmitPhysicalRecord ::
  "'w WritableFile \<Rightarrow> RecordType \<Rightarrow> bytes \<Rightarrow> 'w Writer \<Rightarrow> (Status \<times> 'w Writer) option" where
  "EmitPhysicalRecord wfile t data w =
     (let n = length data;
          crc = Mask (crc32c_Extend 0 (lw_type_crc w ! RecordType_value t) data);
          buf = EncodeFixed32 crc @ [of_nat n, of_nat (n div 256), of_nat (RecordType_value t)];
          done = (\<lambda>(s, dest). (s, w\<lparr>lw_dest := dest, lw_block_offset := lw_block_offset w + kHeaderSize + n\<rparr>))
      in case wf_Append wfile buf (lw_dest w) of
           None \<Rightarrow> None
         | Some (s, dest) \<Rightarrow>
             if \<not> ok s then Some (done (s, dest))
             else case wf_Append wfile data dest of
               None \<Rightarrow> None
             | Some (s, dest) \<Rightarrow>
                 if \<not> ok s then Some (done (s, dest))
                 else map_option done (wf_Flush wfile dest))"

text \<open>The part of a pass of the loop before the record is emitted: the trailer of a block is filled with zeros.
  The status of that \<open>Append\<close> is not looked at.\<close>

definition switch_block :: "'w WritableFile \<Rightarrow> 'w Writer \<Rightarrow> 'w Writer option" where
  "switch_block wfile w =
     (let leftover = kBlockSize - lw_block_offset w in
      if leftover < kHeaderSize
      then if 0 < leftover
           then map_option (\<lambda>(s, dest). w\<lparr>lw_dest := dest, lw_block_offset := 0\<rparr>)
                  (wf_Append wfile (replicate leftover 0) (lw_dest w))
           else Some (w\<lparr>lw_block_offset := 0\<rparr>)
      else Some w)"

definition fragment_length :: "nat \<Rightarrow> nat \<Rightarrow> nat" where
  "fragment_length block_offset left =
     (let avail = kBlockSize - block_offset - kHeaderSize in if left < avail then left else avail)"

definition fragment_type :: "bool \<Rightarrow> bool \<Rightarrow> RecordType" where
  "fragment_type first last_one =
     (if first \<and> last_one then kFullType else if first then kFirstType
      else if last_one then kLastType else kMiddleType)"

lemma EmitPhysicalRecord_offset:
  "EmitPhysicalRecord wfile t data w = Some (s, w') \<Longrightarrow>
     lw_block_offset w' = lw_block_offset w + kHeaderSize + length data"
  by (auto simp: EmitPhysicalRecord_def Let_def split: option.splits if_splits)

lemma switch_block_offset:
  "switch_block wfile w = Some w' \<Longrightarrow> lw_block_offset w' + kHeaderSize \<le> kBlockSize"
  by (auto simp: switch_block_def Let_def kHeaderSize_def kBlockSize_def split: option.splits if_splits)

lemma switch_block_same: "switch_block wfile w = Some w' \<Longrightarrow> lw_block_offset w' \<noteq> 0 \<Longrightarrow> w' = w"
  by (auto simp: switch_block_def Let_def split: option.splits if_splits)

function AddRecord_loop ::
  "'w WritableFile \<Rightarrow> bool \<Rightarrow> bytes \<Rightarrow> 'w Writer \<Rightarrow> (Status \<times> 'w Writer) option" where
  "AddRecord_loop wfile first data w =
     (case switch_block wfile w of
        None \<Rightarrow> None
      | Some w \<Rightarrow>
          let n = fragment_length (lw_block_offset w) (length data) in
          case EmitPhysicalRecord wfile (fragment_type first (length data = n)) (take n data) w of
            None \<Rightarrow> None
          | Some (s, w) \<Rightarrow>
              if ok s \<and> drop n data \<noteq> [] then AddRecord_loop wfile False (drop n data) w else Some (s, w))"
  by pat_completeness auto
termination
proof (relation "measures [\<lambda>(wfile, first, data, w). length data,
    \<lambda>(wfile, first, data, w). if lw_block_offset w = kBlockSize - kHeaderSize then 1 else 0]", simp, goal_cases)
  case (1 wfile first data w w1 n r s w2)
  show ?case
  proof (cases "n = 0")
    case True
    with 1 have "lw_block_offset w1 = kBlockSize - kHeaderSize"
      using switch_block_offset [of wfile w w1]
      by (auto simp: fragment_length_def Let_def split: if_splits)
    moreover from this have "w1 = w"
      using switch_block_same [of wfile w w1] 1(1) by (simp add: kBlockSize_def kHeaderSize_def)
    moreover have "lw_block_offset w2 = lw_block_offset w1 + kHeaderSize"
      using EmitPhysicalRecord_offset [of wfile _ _ w1 s w2] 1 True by simp
    ultimately show ?thesis by (simp add: kBlockSize_def kHeaderSize_def True)
  next
    case False
    with 1 show ?thesis by auto
  qed
qed

declare AddRecord_loop.simps [simp del]

definition AddRecord :: "'w WritableFile \<Rightarrow> bytes \<Rightarrow> 'w Writer \<Rightarrow> (Status \<times> 'w Writer) option" where
  "AddRecord wfile data w = AddRecord_loop wfile True data w"

subsection \<open>Reader\<close>

definition kEof :: u32 where
  "kEof = of_nat kMaxRecordType + 1"

definition kBadRecord :: u32 where
  "kBadRecord = of_nat kMaxRecordType + 2"

text \<open>
  \<open>lr_reporter\<close> tells whether there is a reporter; \<open>lr_drops\<close> are the calls of its \<open>Corruption\<close> so far. The
  buffer is what is left of the block in \<open>backing_store_\<close>.
\<close>

record 'f Reader =
  lr_file :: 'f
  lr_reporter :: bool
  lr_checksum :: bool
  lr_buffer :: bytes
  lr_eof :: bool
  lr_last_record_offset :: u64
  lr_end_of_buffer_offset :: u64
  lr_initial_offset :: u64
  lr_resyncing :: bool
  lr_drops :: "(csize \<times> Status) list"

definition new_Reader :: "'f \<Rightarrow> bool \<Rightarrow> bool \<Rightarrow> u64 \<Rightarrow> 'f Reader" where
  "new_Reader sfile reporter checksum initial_offset =
     \<lparr>lr_file = sfile, lr_reporter = reporter, lr_checksum = checksum, lr_buffer = [], lr_eof = False,
      lr_last_record_offset = 0, lr_end_of_buffer_offset = 0, lr_initial_offset = initial_offset,
      lr_resyncing = (0 < initial_offset), lr_drops = []\<rparr>"

definition ReportDrop :: "u64 \<Rightarrow> Status \<Rightarrow> 'f Reader \<Rightarrow> 'f Reader" where
  "ReportDrop n reason r =
     (if lr_reporter r
         \<and> lr_initial_offset r \<le> lr_end_of_buffer_offset r - of_nat (length (lr_buffer r)) - n
      then r\<lparr>lr_drops := lr_drops r @ [(n, reason)]\<rparr> else r)"

definition ReportCorruption :: "u64 \<Rightarrow> bytes \<Rightarrow> 'f Reader \<Rightarrow> 'f Reader" where
  "ReportCorruption n reason r = ReportDrop n (Corruption reason) r"

definition SkipToInitialBlock :: "'f SequentialFile \<Rightarrow> 'f Reader \<Rightarrow> bool \<times> 'f Reader" where
  "SkipToInitialBlock sfile r =
     (let offset_in_block = lr_initial_offset r mod of_nat kBlockSize;
          block_start_location = lr_initial_offset r - offset_in_block;
          block_start_location =
            (if of_nat kBlockSize - 6 < offset_in_block then block_start_location + of_nat kBlockSize
             else block_start_location);
          r = r\<lparr>lr_end_of_buffer_offset := block_start_location\<rparr>
      in if 0 < block_start_location
         then case sf_Skip sfile block_start_location (lr_file r) of
           (skip_status, f) \<Rightarrow>
             let r = r\<lparr>lr_file := f\<rparr> in
             if ok skip_status then (True, r)
             else (False, ReportDrop block_start_location skip_status r)
         else (True, r))"

text \<open>The part of \<open>ReadPhysicalRecord\<close> that has a header in the buffer: the type of record, the fragment
  if there is one, and the reader.\<close>

definition parse_physical :: "'f Reader \<Rightarrow> u32 \<times> bytes option \<times> 'f Reader" where
  "parse_physical r =
     (let header = lr_buffer r;
          a = (ucast (header ! 4) :: u32) AND 0xff;
          b = (ucast (header ! 5) :: u32) AND 0xff;
          type = (scast (header ! 6) :: u32);
          n = unat (a OR push_bit 8 b);
          empty = r\<lparr>lr_buffer := []\<rparr>;
          drop_size = of_nat (length header)
      in if length header < kHeaderSize + n
         then if \<not> lr_eof r then (kBadRecord, None, ReportCorruption drop_size (chars ''bad record length'') empty)
              else (kEof, None, empty)
         else if type = of_nat (RecordType_value kZeroType) \<and> n = 0 then (kBadRecord, None, empty)
         else if lr_checksum r
                 \<and> crc32c_Value 0 (take (1 + n) (drop 6 header)) \<noteq> Unmask (the (DecodeFixed32 header))
         then (kBadRecord, None, ReportCorruption drop_size (chars ''checksum mismatch'') empty)
         else
           let r = r\<lparr>lr_buffer := drop (kHeaderSize + n) header\<rparr> in
           if lr_end_of_buffer_offset r - of_nat (length (lr_buffer r)) - of_nat kHeaderSize - of_nat n
                < lr_initial_offset r
           then (kBadRecord, Some [], r)
           else (type, Some (take n (drop kHeaderSize header)), r))"

text \<open>\<open>result\<close> keeps its value where the code does not assign it. The file gives at most the bytes asked for,
  which the measure of the loop relies on.\<close>

function ReadPhysicalRecord ::
  "'f SequentialFile \<Rightarrow> bytes \<Rightarrow> 'f Reader \<Rightarrow> (u32 \<times> bytes \<times> 'f Reader) option" where
  "ReadPhysicalRecord sfile result r =
     (if length (lr_buffer r) < kHeaderSize
      then if \<not> lr_eof r
           then case sf_Read sfile kBlockSize [] (lr_file r) of
             None \<Rightarrow> None
           | Some (status, buffer, f) \<Rightarrow>
               let r = r\<lparr>lr_file := f, lr_buffer := buffer,
                         lr_end_of_buffer_offset := lr_end_of_buffer_offset r + of_nat (length buffer)\<rparr>
               in if \<not> ok status
                  then Some (kEof, result,
                    (ReportDrop (of_nat kBlockSize) status (r\<lparr>lr_buffer := []\<rparr>))\<lparr>lr_eof := True\<rparr>)
                  else ReadPhysicalRecord sfile result
                         (if length buffer < kBlockSize then r\<lparr>lr_eof := True\<rparr> else r)
           else Some (kEof, result, r\<lparr>lr_buffer := []\<rparr>)
      else case parse_physical r of
        (type, fragment, r) \<Rightarrow> Some (type, (case fragment of None \<Rightarrow> result | Some fragment \<Rightarrow> fragment), r))"
  by pat_completeness auto
termination
  by (relation "measure (\<lambda>(sfile, result, r).
      if kHeaderSize \<le> length (lr_buffer r) then 0 else if lr_eof r then 1 else 2)")
    (auto simp: kHeaderSize_def kBlockSize_def Let_def)

declare ReadPhysicalRecord.simps [simp del]

text \<open>The passes of the loop of \<open>ReadRecord\<close>; the result is whether there is a record, and the record.\<close>

partial_function (option) ReadRecord_loop ::
  "'f SequentialFile \<Rightarrow> bool \<Rightarrow> bytes \<Rightarrow> u64 \<Rightarrow> bytes \<Rightarrow> 'f Reader \<Rightarrow> (bool \<times> bytes \<times> 'f Reader) option" where
  "ReadRecord_loop sfile in_fragmented_record scratch prospective_record_offset fragment r =
     (case ReadPhysicalRecord sfile fragment r of
        None \<Rightarrow> None
      | Some (record_type, fragment, r) \<Rightarrow>
          let physical_record_offset =
                lr_end_of_buffer_offset r - of_nat (length (lr_buffer r)) - of_nat kHeaderSize
                  - of_nat (length fragment);
              is_type = (\<lambda>t. record_type = of_nat (RecordType_value t));
              resyncing = lr_resyncing r;
              r = (if resyncing \<and> \<not> is_type kMiddleType then r\<lparr>lr_resyncing := False\<rparr> else r);
              partial = in_fragmented_record \<and> scratch \<noteq> [];
              scratch_size = (of_nat (length scratch) :: u64);
              fragment_size = (of_nat (length fragment) :: u64)
          in
          if resyncing \<and> (is_type kMiddleType \<or> is_type kLastType)
          then ReadRecord_loop sfile in_fragmented_record scratch prospective_record_offset fragment r
          else if is_type kFullType
          then
            let r = (if partial then ReportCorruption scratch_size (chars ''partial record without end(1)'') r
                     else r)
            in Some (True, fragment, r\<lparr>lr_last_record_offset := physical_record_offset\<rparr>)
          else if is_type kFirstType
          then ReadRecord_loop sfile True fragment physical_record_offset fragment
                 (if partial then ReportCorruption scratch_size (chars ''partial record without end(2)'') r
                  else r)
          else if is_type kMiddleType
          then
            if \<not> in_fragmented_record
            then ReadRecord_loop sfile False scratch prospective_record_offset fragment
                   (ReportCorruption fragment_size (chars ''missing start of fragmented record(1)'') r)
            else ReadRecord_loop sfile True (scratch @ fragment) prospective_record_offset fragment r
          else if is_type kLastType
          then
            if \<not> in_fragmented_record
            then ReadRecord_loop sfile False scratch prospective_record_offset fragment
                   (ReportCorruption fragment_size (chars ''missing start of fragmented record(2)'') r)
            else Some (True, scratch @ fragment, r\<lparr>lr_last_record_offset := prospective_record_offset\<rparr>)
          else if record_type = kEof then Some (False, [], r)
          else if record_type = kBadRecord
          then
            if in_fragmented_record
            then ReadRecord_loop sfile False [] prospective_record_offset fragment
                   (ReportCorruption scratch_size (chars ''error in middle of record'') r)
            else ReadRecord_loop sfile False scratch prospective_record_offset fragment r
          else ReadRecord_loop sfile False [] prospective_record_offset fragment
                 (ReportCorruption (fragment_size + (if in_fragmented_record then scratch_size else 0))
                   (chars ''unknown record type '' @ decimal (unat record_type)) r))"

definition ReadRecord :: "'f SequentialFile \<Rightarrow> 'f Reader \<Rightarrow> (bool \<times> bytes \<times> 'f Reader) option" where
  "ReadRecord sfile r =
     (let (positioned, r) =
        (if lr_last_record_offset r < lr_initial_offset r then SkipToInitialBlock sfile r else (True, r))
      in if \<not> positioned then Some (False, [], r) else ReadRecord_loop sfile False [] 0 [] r)"

text \<open>Reading until there is no further record, as the recovery of a database does.\<close>

partial_function (option) read_records ::
  "'f SequentialFile \<Rightarrow> 'f Reader \<Rightarrow> (bytes list \<times> 'f Reader) option" where
  "read_records sfile r =
     (case ReadRecord sfile r of
        None \<Rightarrow> None
      | Some (found, rec, r) \<Rightarrow>
          if found
          then Option.bind (read_records sfile r) (\<lambda>(records, r). Some (rec # records, r))
          else Some ([], r))"

subsection \<open>The bytes of a log\<close>

text \<open>A physical record, and what a record adds behind \<open>offset\<close> bytes of a block.\<close>

definition physical :: "byte \<Rightarrow> bytes \<Rightarrow> bytes" where
  "physical t data =
     le_bytes 4 (Mask (crc32c_Value 0 (t # data)))
       @ [of_nat (length data), of_nat (length data div 256), t] @ data"

definition padding :: "nat \<Rightarrow> bytes" where
  "padding offset = (if kBlockSize - offset < kHeaderSize then replicate (kBlockSize - offset) 0 else [])"

definition record_offset :: "nat \<Rightarrow> nat" where
  "record_offset offset = (if kBlockSize - offset < kHeaderSize then 0 else offset)"

definition type_byte :: "RecordType \<Rightarrow> byte" where
  "type_byte t = of_nat (RecordType_value t)"

lemma length_physical [simp]: "length (physical t data) = kHeaderSize + length data"
  by (simp add: physical_def kHeaderSize_def)

lemma record_offset_le: "record_offset offset + kHeaderSize \<le> kBlockSize"
  by (auto simp: record_offset_def kBlockSize_def kHeaderSize_def)

function record_bytes :: "nat \<Rightarrow> bool \<Rightarrow> bytes \<Rightarrow> bytes \<times> nat" where
  "record_bytes offset first data =
     (let start = record_offset offset; n = fragment_length start (length data);
          t = fragment_type first (length data = n);
          piece = padding offset @ physical (type_byte t) (take n data);
          next = start + kHeaderSize + n
      in if drop n data \<noteq> []
         then (case record_bytes next False (drop n data) of (rest, last_offset) \<Rightarrow> (piece @ rest, last_offset))
         else (piece, next))"
  by pat_completeness auto
termination
proof (relation "measures [\<lambda>(offset, first, data). length data,
    \<lambda>(offset, first, data). if offset = kBlockSize - kHeaderSize then 1 else 0]", simp, goal_cases)
  case (1 offset first data start n)
  then show ?case
    by (cases "n = 0") (auto simp: fragment_length_def record_offset_def Let_def kBlockSize_def kHeaderSize_def
        split: if_splits)
qed

declare record_bytes.simps [simp del]

fun log_bytes :: "nat \<Rightarrow> bytes list \<Rightarrow> bytes" where
  "log_bytes offset [] = []"
| "log_bytes offset (rec # recs) =
     (case record_bytes offset True rec of (out, offset) \<Rightarrow> out @ log_bytes offset recs)"

subsection \<open>The writer\<close>

context writable_file
begin

text \<open>\<open>writes w out w'\<close>: the writer \<open>w'\<close> has written \<open>out\<close> more than \<open>w\<close>, and all of it is flushed.\<close>

definition writes :: "'w Writer \<Rightarrow> bytes \<Rightarrow> 'w Writer \<Rightarrow> bool" where
  "writes w out w' \<longleftrightarrow> accepted (lw_dest w') = accepted (lw_dest w) @ out
     \<and> flushed (lw_dest w') = accepted (lw_dest w') \<and> lw_type_crc w' = lw_type_crc w"

lemma EmitPhysicalRecord_writes:
  assumes "lw_type_crc w = InitTypeCrc"
  shows "\<exists>w'. EmitPhysicalRecord wfile t data w = Some (status_OK, w')
    \<and> writes w (physical (type_byte t) data) w'
    \<and> lw_block_offset w' = lw_block_offset w + kHeaderSize + length data"
proof -
  let ?buf = "EncodeFixed32 (Mask (crc32c_Extend 0 (lw_type_crc w ! RecordType_value t) data)) @
    [of_nat (length data), of_nat (length data div 256), of_nat (RecordType_value t)]"
  obtain d1 where d1: "wf_Append wfile ?buf (lw_dest w) = Some (status_OK, d1)"
    "accepted d1 = accepted (lw_dest w) @ ?buf"
    using Append by blast
  obtain d2 where d2: "wf_Append wfile data d1 = Some (status_OK, d2)" "accepted d2 = accepted d1 @ data"
    using Append by blast
  obtain d3 where d3: "wf_Flush wfile d2 = Some (status_OK, d3)" "accepted d3 = accepted d2"
    "flushed d3 = accepted d2"
    using Flush by blast
  have "RecordType_value t < kMaxRecordType + 1"
    by (cases t) (simp_all add: kMaxRecordType_def)
  then have "InitTypeCrc ! RecordType_value t = crc32c_Value 0 [type_byte t]"
    by (simp add: InitTypeCrc_def type_byte_def del: upt_Suc)
  then have "crc32c_Extend 0 (lw_type_crc w ! RecordType_value t) data = crc32c_Value 0 (type_byte t # data)"
    using crc32c_Extend_Value [of 0 0 "[type_byte t]" data 0] assms by simp
  then have "?buf @ data = physical (type_byte t) data"
    by (simp add: physical_def type_byte_def)
  with d1 d2 d3 show ?thesis
    by (simp add: EmitPhysicalRecord_def Let_def writes_def del: EncodeFixed32_le)
qed

lemma switch_block_writes:
  "\<exists>w'. switch_block wfile w = Some w' \<and> accepted (lw_dest w') = accepted (lw_dest w) @ padding (lw_block_offset w)
     \<and> lw_block_offset w' = record_offset (lw_block_offset w) \<and> lw_type_crc w' = lw_type_crc w"
  using Append [of "replicate (kBlockSize - lw_block_offset w) 0" "lw_dest w"]
  by (auto simp: switch_block_def padding_def record_offset_def Let_def)

lemma AddRecord_loop_writes:
  assumes "lw_type_crc w = InitTypeCrc"
  shows "\<exists>w'. AddRecord_loop wfile first data w = Some (status_OK, w')
    \<and> writes w (fst (record_bytes (lw_block_offset w) first data)) w'
    \<and> lw_block_offset w' = snd (record_bytes (lw_block_offset w) first data)"
  using assms
proof (induction "lw_block_offset w" first data arbitrary: w rule: record_bytes.induct)
  case (1 first data)
  let ?start = "record_offset (lw_block_offset w)"
  let ?n = "fragment_length ?start (length data)"
  let ?t = "fragment_type first (length data = ?n)"
  obtain w1 where w1: "switch_block wfile w = Some w1"
    "accepted (lw_dest w1) = accepted (lw_dest w) @ padding (lw_block_offset w)"
    "lw_block_offset w1 = ?start" "lw_type_crc w1 = lw_type_crc w"
    using switch_block_writes by blast
  obtain w2 where w2: "EmitPhysicalRecord wfile ?t (take ?n data) w1 = Some (status_OK, w2)"
    "writes w1 (physical (type_byte ?t) (take ?n data)) w2"
    "lw_block_offset w2 = ?start + kHeaderSize + length (take ?n data)"
    using EmitPhysicalRecord_writes [of w1 ?t "take ?n data"] w1 1(2) by auto
  have n: "length (take ?n data) = ?n" by (simp add: fragment_length_def Let_def)
  show ?case
  proof (cases "drop ?n data = []")
    case True
    with w1 w2 n show ?thesis
      by (simp add: AddRecord_loop.simps [of _ _ _ w] record_bytes.simps [of "lw_block_offset w"] Let_def writes_def)
  next
    case False
    have "lw_type_crc w2 = InitTypeCrc" using w1 w2 1(2) by (simp add: writes_def)
    with 1(1) [OF refl refl refl refl _ False, of w2] w1 w2 n False show ?thesis
      by (auto simp: AddRecord_loop.simps [of _ _ _ w] record_bytes.simps [of "lw_block_offset w"] Let_def writes_def
          split: prod.split)
  qed
qed

end

end
