(* ===== verification/Ldb_Log_Correct.thy ===== *)
theory Ldb_Log_Correct imports Ldb_Log begin

text \<open>
  The log reader gives back what the log writer wrote, also when the file was cut anywhere, and returns
  nothing but the payloads of intact physical records, whatever the file holds.
\<close>

subsection \<open>The reader\<close>

lemma and_0xff_32: "(w :: u32) AND 0xff = take_bit 8 w"
proof -
  have "(0xff :: u32) = mask 8" by (simp add: mask_eq_exp_minus_1)
  then show ?thesis by (simp add: take_bit_eq_mask)
qed

lemma length_of_bytes:
  assumes "n < 65536"
  shows "unat (((ucast (of_nat n :: byte) :: u32) AND 0xff) OR push_bit 8 ((ucast (of_nat (n div 256) :: byte) :: u32) AND 0xff)) = n"
proof -
  have "((ucast (of_nat n :: byte) :: u32) AND 0xff) OR push_bit 8 ((ucast (of_nat (n div 256) :: byte) :: u32) AND 0xff)
      = of_nat n"
  proof (rule bit_word_eqI)
    fix k assume k: "k < LENGTH(32)"
    have "\<not> bit n k" if "16 \<le> k"
    proof -
      have "n < 2 ^ k" using assms power_increasing [OF that, of "2 :: nat"] by simp
      then show ?thesis by (metis bit_take_bit_iff order_less_irrefl take_bit_nat_eq_self)
    qed
    moreover have "bit (n div 256) j = bit n (8 + j)" for j
      using bit_drop_bit_eq [of 8 n] by (simp add: drop_bit_eq_div fun_eq_iff)
    ultimately show "bit (((ucast (of_nat n :: byte) :: u32) AND 0xff) OR
        push_bit 8 ((ucast (of_nat (n div 256) :: byte) :: u32) AND 0xff)) k \<longleftrightarrow> bit (of_nat n :: u32) k"
      using k unfolding and_0xff_32
      by (cases "k < 8"; cases "k < 16")
        (auto simp: bit_or_iff bit_take_bit_iff bit_push_bit_iff bit_ucast_iff bit_of_nat_iff)
  qed
  then show ?thesis using assms by (simp add: unat_of_nat take_bit_nat_eq_self)
qed

lemma physical_nth:
  "physical t p ! 4 = of_nat (length p)" "physical t p ! 5 = of_nat (length p div 256)" "physical t p ! 6 = t"
  by (simp_all add: physical_def nth_append)

lemma take_physical: "take 4 (physical t p) = le_bytes 4 (Mask (crc32c_Value 0 (t # p)))"
  and drop_physical: "drop 6 (physical t p) = t # p" "drop kHeaderSize (physical t p) = p"
  by (simp_all add: physical_def kHeaderSize_def)

lemma scast_type_byte: "scast (type_byte t) = (of_nat (RecordType_value t) :: u32)"
  by (cases t) (simp_all add: type_byte_def)

text \<open>A header at the front of the buffer, with its payload or only a part of it.\<close>

lemma parse_physical_whole:
  assumes "lr_buffer r = physical (type_byte t) p @ rest" and "t \<noteq> kZeroType" and "length p < 65536"
    and "lr_initial_offset r = 0"
  shows "parse_physical r = (of_nat (RecordType_value t), Some p, r\<lparr>lr_buffer := rest\<rparr>)"
proof -
  have header: "lr_buffer r ! 4 = of_nat (length p)" "lr_buffer r ! 5 = of_nat (length p div 256)"
    "lr_buffer r ! 6 = type_byte t"
    using physical_nth [of "type_byte t" p] by (simp_all add: assms(1) nth_append kHeaderSize_def)
  have crc: "take (1 + length p) (drop 6 (lr_buffer r)) = type_byte t # p"
    using drop_physical(1) [of "type_byte t" p] by (simp add: assms(1) kHeaderSize_def)
  have dec: "DecodeFixed32 (lr_buffer r) = Some (Mask (crc32c_Value 0 (type_byte t # p)))"
    using take_physical [of "type_byte t" p] by (simp add: assms(1) kHeaderSize_def)
  have zero: "(of_nat (RecordType_value t) :: u32) \<noteq> 0"
    using assms(2) by (cases t) simp_all
  show ?thesis
    unfolding parse_physical_def Let_def header length_of_bytes [OF assms(3)] crc dec scast_type_byte
    using zero drop_physical(2) [of "type_byte t" p] Unmask_Mask by (simp add: assms(1,4))
qed

lemma parse_physical_cut:
  assumes "lr_buffer r = take m (physical (type_byte t) p)" and "kHeaderSize \<le> m" and "m < kHeaderSize + length p"
    and "length p < 65536" and "lr_eof r"
  shows "parse_physical r = (kEof, None, r\<lparr>lr_buffer := []\<rparr>)"
proof -
  have header: "lr_buffer r ! 4 = of_nat (length p)" "lr_buffer r ! 5 = of_nat (length p div 256)"
    using physical_nth [of "type_byte t" p] assms(2) by (simp_all add: assms(1) kHeaderSize_def)
  have "length (lr_buffer r) = m" using assms(3) by (simp add: assms(1))
  then show ?thesis
    unfolding parse_physical_def Let_def header length_of_bytes [OF assms(4)] using assms(3,5) by simp
qed

lemma piece_fits:
  "record_offset offset + kHeaderSize + length (take (fragment_length (record_offset offset) (length data)) data)
     \<le> kBlockSize"
  using record_offset_le [of offset] by (auto simp: fragment_length_def Let_def)

text \<open>How many records are whole in the first \<open>m\<close> bytes.\<close>

fun whole_records :: "nat \<Rightarrow> nat \<Rightarrow> bytes list \<Rightarrow> nat" where
  "whole_records offset m [] = 0"
| "whole_records offset m (rec # recs) =
     (case record_bytes offset True rec of
        (out, next) \<Rightarrow> if length out \<le> m then Suc (whole_records next (m - length out) recs) else 0)"

lemma whole_records_le: "whole_records offset m recs \<le> length recs"
  by (induction recs arbitrary: offset m) (auto split: prod.split)

lemma whole_records_iff:
  "j \<le> length recs \<Longrightarrow> j \<le> whole_records offset m recs \<longleftrightarrow> length (log_bytes offset (take j recs)) \<le> m"
proof (induction recs arbitrary: j offset m)
  case (Cons rec recs)
  then show ?case by (cases j) (auto split: prod.split)
qed simp

text \<open>A full block is as good as an empty one.\<close>

lemma record_bytes_block: "record_bytes kBlockSize first data = record_bytes 0 first data"
  unfolding record_bytes.simps [of kBlockSize] record_bytes.simps [of 0]
  by (simp add: record_offset_def padding_def kBlockSize_def kHeaderSize_def)

lemma log_bytes_block: "log_bytes kBlockSize recs = log_bytes 0 recs"
  by (cases recs) (simp_all add: record_bytes_block)

context sequential_file
begin

text \<open>The reader stands \<open>offset\<close> bytes into a block, and \<open>input\<close> is what is left of the file.\<close>

definition stands :: "nat \<Rightarrow> bytes \<Rightarrow> 'f Reader \<Rightarrow> bool" where
  "stands offset input r \<longleftrightarrow> offset \<le> kBlockSize
     \<and> lr_buffer r = take (kBlockSize - offset) input \<and> unread (lr_file r) = drop (kBlockSize - offset) input
     \<and> lr_eof r = (length input < kBlockSize - offset) \<and> lr_initial_offset r = 0 \<and> \<not> lr_resyncing r"

lemma stands_refill:
  assumes "stands offset input r" and "kBlockSize - offset < kHeaderSize" and "kBlockSize - offset \<le> length input"
  shows "\<exists>r'. ReadPhysicalRecord sfile result r = ReadPhysicalRecord sfile result r'
    \<and> stands 0 (drop (kBlockSize - offset) input) r' \<and> lr_drops r' = lr_drops r"
proof -
  have buf: "length (lr_buffer r) < kHeaderSize" and eof: "\<not> lr_eof r"
    using assms by (auto simp: stands_def)
  obtain f where f: "sf_Read sfile kBlockSize [] (lr_file r) = Some (status_OK, take kBlockSize (unread (lr_file r)), f)"
    "unread f = drop kBlockSize (unread (lr_file r))"
    using Read by blast
  define r1 where "r1 = r\<lparr>lr_file := f, lr_buffer := take kBlockSize (unread (lr_file r)),
    lr_end_of_buffer_offset := lr_end_of_buffer_offset r + of_nat (length (take kBlockSize (unread (lr_file r))))\<rparr>"
  define r2 where "r2 = (if length (lr_buffer r1) < kBlockSize then r1\<lparr>lr_eof := True\<rparr> else r1)"
  have "ReadPhysicalRecord sfile result r = ReadPhysicalRecord sfile result r2"
    by (subst ReadPhysicalRecord.simps) (use buf eof f in \<open>simp add: Let_def r1_def r2_def\<close>)
  moreover have "stands 0 (drop (kBlockSize - offset) input) r2 \<and> lr_drops r2 = lr_drops r"
    using assms eof f by (auto simp: stands_def r1_def r2_def)
  ultimately show ?thesis by blast
qed

lemma stands_physical:
  assumes "stands offset (physical (type_byte t) p @ input) r" and "t \<noteq> kZeroType"
    and "offset + kHeaderSize + length p \<le> kBlockSize"
  shows "\<exists>r'. ReadPhysicalRecord sfile result r = Some (of_nat (RecordType_value t), p, r')
    \<and> stands (offset + kHeaderSize + length p) input r' \<and> lr_drops r' = lr_drops r"
proof -
  have buf: "lr_buffer r = physical (type_byte t) p @ take (kBlockSize - (offset + kHeaderSize + length p)) input"
    and init: "lr_initial_offset r = 0"
    using assms(1,3) by (simp_all add: stands_def add.assoc)
  have p: "length p < 65536" using assms(3) by (simp add: kBlockSize_def)
  have "\<not> length (lr_buffer r) < kHeaderSize" by (simp add: buf)
  then have "ReadPhysicalRecord sfile result r = Some (of_nat (RecordType_value t), p,
      r\<lparr>lr_buffer := take (kBlockSize - (offset + kHeaderSize + length p)) input\<rparr>)"
    by (subst ReadPhysicalRecord.simps) (simp add: parse_physical_whole [OF buf assms(2) p init])
  with assms show ?thesis by (auto simp: stands_def add.assoc)
qed

lemma stands_cut_physical:
  assumes "stands offset (take m (physical (type_byte t) p)) r" and "m < kHeaderSize + length p"
    and "offset + kHeaderSize + length p \<le> kBlockSize"
  shows "\<exists>x r'. ReadPhysicalRecord sfile result r = Some (kEof, x, r')
    \<and> lr_drops r' = lr_drops r \<and> lr_resyncing r' = lr_resyncing r"
proof -
  have eof: "lr_eof r" and buf: "lr_buffer r = take m (physical (type_byte t) p)"
    using assms by (auto simp: stands_def)
  have p: "length p < 65536" using assms(3) by (simp add: kBlockSize_def)
  show ?thesis
  proof (cases "m < kHeaderSize")
    case True
    then show ?thesis by (subst ReadPhysicalRecord.simps) (simp add: buf eof)
  next
    case False
    then have "\<not> length (lr_buffer r) < kHeaderSize" using assms(2) by (simp add: buf)
    then show ?thesis
      using parse_physical_cut [OF buf _ assms(2) p eof] False by (subst ReadPhysicalRecord.simps) simp
  qed
qed

text \<open>The same with the zeros at the end of the block before.\<close>

lemma length_padding: "kBlockSize - offset < kHeaderSize \<Longrightarrow> length (padding offset) = kBlockSize - offset"
  by (simp add: padding_def)

lemma stands_piece:
  assumes "stands offset (padding offset @ physical (type_byte t) p @ input) r" and "t \<noteq> kZeroType"
    and "record_offset offset + kHeaderSize + length p \<le> kBlockSize"
  shows "\<exists>r'. ReadPhysicalRecord sfile result r = Some (of_nat (RecordType_value t), p, r')
    \<and> stands (record_offset offset + kHeaderSize + length p) input r' \<and> lr_drops r' = lr_drops r"
proof (cases "kBlockSize - offset < kHeaderSize")
  case True
  with assms(1) obtain r1 where "ReadPhysicalRecord sfile result r = ReadPhysicalRecord sfile result r1"
    "stands 0 (physical (type_byte t) p @ input) r1" "lr_drops r1 = lr_drops r"
    using stands_refill [OF assms(1) True, of result] by (auto simp: length_padding)
  with stands_physical [of 0 t p input r1 result] assms True show ?thesis
    by (simp add: record_offset_def)
next
  case False
  with stands_physical [of offset t p input r result] assms show ?thesis
    by (simp add: record_offset_def padding_def)
qed

lemma stands_cut:
  assumes "stands offset (take m (padding offset @ physical (type_byte t) p)) r"
    and "m < length (padding offset) + kHeaderSize + length p"
    and "record_offset offset + kHeaderSize + length p \<le> kBlockSize"
  shows "\<exists>x r'. ReadPhysicalRecord sfile result r = Some (kEof, x, r')
    \<and> lr_drops r' = lr_drops r \<and> lr_resyncing r' = lr_resyncing r"
proof (cases "kBlockSize - offset < kHeaderSize")
  case False
  with stands_cut_physical [of offset m t p r result] assms show ?thesis
    by (simp add: record_offset_def padding_def)
next
  case True
  show ?thesis
  proof (cases "m < kBlockSize - offset")
    case cut: True
    then have "length (lr_buffer r) < kHeaderSize \<and> lr_eof r"
      using True assms(1) by (auto simp: stands_def)
    then show ?thesis by (subst ReadPhysicalRecord.simps) simp
  next
    case False
    let ?n = "kBlockSize - offset"
    have "drop ?n (take m (padding offset @ physical (type_byte t) p)) = take (m - ?n) (physical (type_byte t) p)"
      using False True by (simp add: drop_take length_padding)
    with True False assms obtain r1 where r1: "ReadPhysicalRecord sfile result r = ReadPhysicalRecord sfile result r1"
      "stands 0 (take (m - ?n) (physical (type_byte t) p)) r1" "lr_drops r1 = lr_drops r"
      using stands_refill [of offset "take m (padding offset @ physical (type_byte t) p)" r result]
      by (auto simp: length_padding)
    have "lr_resyncing r1 = lr_resyncing r" using assms(1) r1(2) by (simp add: stands_def)
    with stands_cut_physical [of 0 "m - ?n" t p r1 result] True False assms r1 show ?thesis
      by (simp add: record_offset_def length_padding)
  qed
qed

lemma stands_last_record_offset [simp]: "stands offset input (r\<lparr>lr_last_record_offset := x\<rparr>) = stands offset input r"
  by (simp add: stands_def)

lemma stands_resyncing: "stands offset input r \<Longrightarrow> \<not> lr_resyncing r"
  by (simp add: stands_def)

lemma ReadRecord_loop_whole:
  assumes "stands offset (fst (record_bytes offset first data) @ input) r" and "first \<Longrightarrow> scratch = []"
  shows "\<exists>r'. ReadRecord_loop sfile (\<not> first) scratch prospective fragment r = Some (True, scratch @ data, r')
    \<and> stands (snd (record_bytes offset first data)) input r' \<and> lr_drops r' = lr_drops r"
  using assms
proof (induction offset first data arbitrary: r scratch prospective fragment rule: record_bytes.induct)
  case (1 offset first data)
  let ?start = "record_offset offset"
  let ?n = "fragment_length ?start (length data)"
  let ?t = "fragment_type first (length data = ?n)"
  let ?next = "?start + kHeaderSize + ?n"
  have n: "?n \<le> length data" by (simp add: fragment_length_def Let_def)
  have t: "?t \<noteq> kZeroType" by (simp add: fragment_type_def)
  show ?case
  proof (cases "drop ?n data = []")
    case True
    with n have full: "?n = length data" by simp
    with 1(2) True have "stands offset (padding offset @ physical (type_byte ?t) (take ?n data) @ input) r"
      by (simp add: record_bytes.simps [of offset] Let_def)
    from stands_piece [OF this t piece_fits, of fragment] obtain r' where
      "ReadPhysicalRecord sfile fragment r = Some (of_nat (RecordType_value ?t), take ?n data, r')"
      "stands (?start + kHeaderSize + length (take ?n data)) input r'" "lr_drops r' = lr_drops r" by blast
    then show ?thesis
      using True full 1(3)
      by (cases first) (simp_all add: ReadRecord_loop.simps [of _ _ _ _ _ r] record_bytes.simps [of offset]
          fragment_type_def Let_def stands_def)
  next
    case False
    let ?rest = "record_bytes ?next False (drop ?n data)"
    have part: "length data \<noteq> ?n" using False by auto
    with 1(2) False have "stands offset (padding offset @ physical (type_byte ?t) (take ?n data) @ fst ?rest @ input) r"
      by (simp add: record_bytes.simps [of offset] Let_def split: prod.splits)
    from stands_piece [OF this t piece_fits, of fragment] n obtain r' where
      r': "ReadPhysicalRecord sfile fragment r = Some (of_nat (RecordType_value ?t), take ?n data, r')"
      "stands ?next (fst ?rest @ input) r'" "lr_drops r' = lr_drops r" by auto
    have "\<exists>r''. ReadRecord_loop sfile True (scratch @ take ?n data) prospective' fragment' r'
          = Some (True, scratch @ data, r'')
        \<and> stands (snd ?rest) input r'' \<and> lr_drops r'' = lr_drops r'" for prospective' fragment'
      using 1(1) [OF refl refl refl refl refl False r'(2), of "scratch @ take ?n data" prospective' fragment']
      by simp
    moreover have "\<exists>prospective' fragment'. ReadRecord_loop sfile (\<not> first) scratch prospective fragment r
        = ReadRecord_loop sfile True (scratch @ take ?n data) prospective' fragment' r'"
      using r'(1) stands_resyncing [OF r'(2)] part 1(3)
      by (cases first) (auto simp: ReadRecord_loop.simps [of _ _ _ _ _ r] fragment_type_def Let_def)
    moreover have "snd (record_bytes offset first data) = snd ?rest"
      using False by (simp add: record_bytes.simps [of offset] Let_def split: prod.split)
    ultimately show ?thesis using r'(3) by metis
  qed
qed

lemma ReadRecord_loop_cut:
  assumes "stands offset (take m (fst (record_bytes offset first data))) r"
    and "m < length (fst (record_bytes offset first data))"
  shows "\<exists>r'. ReadRecord_loop sfile (\<not> first) scratch prospective fragment r = Some (False, [], r')
    \<and> lr_drops r' = lr_drops r"
  using assms
proof (induction offset first data arbitrary: m r scratch prospective fragment rule: record_bytes.induct)
  case (1 offset first data)
  let ?start = "record_offset offset"
  let ?n = "fragment_length ?start (length data)"
  let ?t = "fragment_type first (length data = ?n)"
  let ?next = "?start + kHeaderSize + ?n"
  let ?piece = "padding offset @ physical (type_byte ?t) (take ?n data)"
  let ?rest = "record_bytes ?next False (drop ?n data)"
  have n: "?n \<le> length data" by (simp add: fragment_length_def Let_def)
  have t: "?t \<noteq> kZeroType" by (simp add: fragment_type_def)
  have bytes: "fst (record_bytes offset first data) = ?piece @ (if drop ?n data = [] then [] else fst ?rest)"
    by (simp add: record_bytes.simps [of offset] Let_def split: prod.split)
  show ?case
  proof (cases "m < length ?piece")
    case True
    then have "stands offset (take m ?piece) r" using 1(2) bytes by simp
    from stands_cut [OF this _ piece_fits, of fragment] True obtain x r' where
      "ReadPhysicalRecord sfile fragment r = Some (kEof, x, r')" "lr_drops r' = lr_drops r"
      "lr_resyncing r' = lr_resyncing r" by auto
    then show ?thesis
      using stands_resyncing [OF 1(2)]
      by (simp add: ReadRecord_loop.simps [of _ _ _ _ _ r] Let_def kEof_def kMaxRecordType_def)
  next
    case False
    then have rest: "drop ?n data \<noteq> []" using 1(3) bytes by auto
    then have part: "length data \<noteq> ?n" by auto
    let ?m = "m - length ?piece"
    have "stands offset (padding offset @ physical (type_byte ?t) (take ?n data) @ take ?m (fst ?rest)) r"
      using 1(2) bytes rest False by simp
    from stands_piece [OF this t piece_fits, of fragment] n obtain r' where
      r': "ReadPhysicalRecord sfile fragment r = Some (of_nat (RecordType_value ?t), take ?n data, r')"
      "stands ?next (take ?m (fst ?rest)) r'" "lr_drops r' = lr_drops r" by auto
    have "?m < length (fst ?rest)" using 1(3) bytes rest False by simp
    from 1(1) [OF refl refl refl refl refl rest r'(2) this]
    have "\<exists>r''. ReadRecord_loop sfile True scratch' prospective' fragment' r' = Some (False, [], r'')
        \<and> lr_drops r'' = lr_drops r'" for scratch' prospective' fragment'
      by simp
    moreover have "\<exists>scratch' prospective' fragment'. ReadRecord_loop sfile (\<not> first) scratch prospective fragment r
        = ReadRecord_loop sfile True scratch' prospective' fragment' r'"
      using r'(1) stands_resyncing [OF r'(2)] part
      by (cases first) (auto simp: ReadRecord_loop.simps [of _ _ _ _ _ r] fragment_type_def Let_def)
    ultimately show ?thesis using r'(3) by metis
  qed
qed

lemma ReadRecord_stands:
  "stands offset input r \<Longrightarrow> ReadRecord sfile r = ReadRecord_loop sfile False [] 0 [] r"
  by (simp add: ReadRecord_def stands_def)

lemma stands_at_end:
  assumes "stands offset [] r"
  shows "\<exists>r'. ReadRecord sfile r = Some (False, [], r') \<and> lr_drops r' = lr_drops r"
proof -
  have "stands offset (take 0 (fst (record_bytes offset True []))) r" using assms by simp
  moreover have "0 < length (fst (record_bytes offset True []))"
    by (simp add: record_bytes.simps [of offset] Let_def kHeaderSize_def)
  ultimately show ?thesis
    using ReadRecord_loop_cut [of offset 0 True "[]" r "[]" 0 "[]"] ReadRecord_stands [OF assms] by simp
qed

lemma read_records_cut:
  "stands offset (take m (log_bytes offset recs)) r \<Longrightarrow>
     \<exists>r'. read_records sfile r = Some (take (whole_records offset m recs) recs, r') \<and> lr_drops r' = lr_drops r"
proof (induction recs arbitrary: offset m r)
  case Nil
  then show ?case using stands_at_end [of offset r] by (auto simp: read_records.simps [of _ r])
next
  case (Cons rec recs)
  obtain out behind where out: "record_bytes offset True rec = (out, behind)" by force
  show ?case
  proof (cases "length out \<le> m")
    case True
    then have "stands offset (fst (record_bytes offset True rec) @ take (m - length out) (log_bytes behind recs)) r"
      using Cons.prems out by simp
    from ReadRecord_loop_whole [OF this, of "[]" 0 "[]"] ReadRecord_stands [OF Cons.prems] out obtain r1 where
      r1: "ReadRecord sfile r = Some (True, rec, r1)" "stands behind (take (m - length out) (log_bytes behind recs)) r1"
      "lr_drops r1 = lr_drops r" by auto
    with Cons.IH [OF r1(2)] True out show ?thesis by (auto simp: read_records.simps [of _ r])
  next
    case False
    then have "stands offset (take m (fst (record_bytes offset True rec))) r"
      "m < length (fst (record_bytes offset True rec))"
      using Cons.prems out by simp_all
    from ReadRecord_loop_cut [OF this, of "[]" 0 "[]"] ReadRecord_stands [OF Cons.prems] False out
    show ?thesis by (auto simp: read_records.simps [of _ r])
  qed
qed

lemma stands_new: "stands kBlockSize (unread f) (new_Reader f reporter checksum 0)"
  by (simp add: stands_def new_Reader_def)

lemma read_log:
  assumes "unread f = take m (log_bytes 0 recs)"
  shows "\<exists>k r'. read_records sfile (new_Reader f reporter checksum 0) = Some (take k recs, r') \<and> lr_drops r' = []
    \<and> k \<le> length recs \<and> (\<forall>j\<le>length recs. j \<le> k \<longleftrightarrow> length (log_bytes 0 (take j recs)) \<le> m)"
proof -
  have "stands kBlockSize (take m (log_bytes kBlockSize recs)) (new_Reader f reporter checksum 0)"
    using stands_new [of f reporter checksum] assms by (simp add: log_bytes_block)
  from read_records_cut [OF this] obtain r' where
    "read_records sfile (new_Reader f reporter checksum 0) = Some (take (whole_records kBlockSize m recs) recs, r')"
    "lr_drops r' = []" by (auto simp: new_Reader_def)
  moreover have "\<forall>j\<le>length recs. j \<le> whole_records kBlockSize m recs \<longleftrightarrow> length (log_bytes 0 (take j recs)) \<le> m"
    using whole_records_iff [of _ recs kBlockSize m] by (simp add: log_bytes_block)
  ultimately show ?thesis using whole_records_le [of kBlockSize m recs] by blast
qed

end
subsection \<open>Writing records\<close>

primrec AddRecords :: "'w WritableFile \<Rightarrow> bytes list \<Rightarrow> 'w Writer \<Rightarrow> (Status \<times> 'w Writer) option" where
  "AddRecords wfile [] w = Some (status_OK, w)"
| "AddRecords wfile (rec # recs) w =
     (case AddRecord wfile rec w of
        None \<Rightarrow> None
      | Some (s, w) \<Rightarrow> if ok s then AddRecords wfile recs w else Some (s, w))"

fun log_offset :: "nat \<Rightarrow> bytes list \<Rightarrow> nat" where
  "log_offset offset [] = offset"
| "log_offset offset (rec # recs) = log_offset (snd (record_bytes offset True rec)) recs"

lemma log_bytes_append: "log_bytes offset (xs @ ys) = log_bytes offset xs @ log_bytes (log_offset offset xs) ys"
  by (induction xs arbitrary: offset) (simp_all split: prod.split)

lemma mod_shift: "(a + b) mod k = c mod k \<Longrightarrow> (a + (b + d)) mod k = (c + d) mod (k :: nat)"
  by (metis add.assoc mod_add_left_eq)

lemma record_bytes_offset:
  assumes "offset \<le> kBlockSize"
  shows "snd (record_bytes offset first data) \<le> kBlockSize
    \<and> (offset + length (fst (record_bytes offset first data))) mod kBlockSize
        = snd (record_bytes offset first data) mod kBlockSize"
  using assms
proof (induction offset first data rule: record_bytes.induct)
  case (1 offset first data)
  let ?start = "record_offset offset"
  let ?n = "fragment_length ?start (length data)"
  let ?t = "fragment_type first (length data = ?n)"
  let ?next = "?start + kHeaderSize + ?n"
  let ?piece = "padding offset @ physical (type_byte ?t) (take ?n data)"
  have n: "?n \<le> length data" by (simp add: fragment_length_def Let_def)
  then have next_le: "?next \<le> kBlockSize" using piece_fits [of offset data] by simp
  have "(offset + length (padding offset)) mod kBlockSize = ?start mod kBlockSize"
    using 1(2) by (auto simp: padding_def record_offset_def)
  then have piece: "(offset + length ?piece) mod kBlockSize = ?next mod kBlockSize"
    using mod_shift [of offset "length (padding offset)" kBlockSize ?start "kHeaderSize + ?n"] n by (simp add: add.assoc)
  show ?case
  proof (cases "drop ?n data = []")
    case True
    with piece next_le show ?thesis by (simp add: record_bytes.simps [of offset] Let_def)
  next
    case False
    obtain out behind where out: "record_bytes ?next False (drop ?n data) = (out, behind)" by force
    then have "record_bytes offset first data = (?piece @ out, behind)"
      using False by (simp add: record_bytes.simps [of offset] Let_def)
    with 1(1) [OF refl refl refl refl refl False next_le] mod_shift [OF piece, of "length out"] out show ?thesis
      by (simp only: fst_conv snd_conv length_append)
  qed
qed

lemma log_offset_mod:
  "offset \<le> kBlockSize \<Longrightarrow> log_offset offset recs \<le> kBlockSize
     \<and> (offset + length (log_bytes offset recs)) mod kBlockSize = log_offset offset recs mod kBlockSize"
proof (induction recs arbitrary: offset)
  case (Cons rec recs)
  obtain out behind where out: "record_bytes offset True rec = (out, behind)" by force
  with record_bytes_offset [OF Cons.prems, of True rec]
  have "behind \<le> kBlockSize" "(offset + length out) mod kBlockSize = behind mod kBlockSize" by auto
  moreover from this(2) have "(offset + (length out + n)) mod kBlockSize = (behind + n) mod kBlockSize" for n
    by (rule mod_shift)
  ultimately show ?case using Cons.IH [of behind] by (simp add: out)
qed simp

lemma log_bytes_mod:
  assumes "offset \<le> kBlockSize"
  shows "log_bytes (offset mod kBlockSize) recs = log_bytes offset recs"
  using assms log_bytes_block [of recs] by (cases "offset = kBlockSize") auto

context writable_file
begin

lemma AddRecords_writes:
  assumes "lw_type_crc w = InitTypeCrc"
  shows "\<exists>w'. AddRecords wfile recs w = Some (status_OK, w')
    \<and> accepted (lw_dest w') = accepted (lw_dest w) @ log_bytes (lw_block_offset w) recs
    \<and> (flushed (lw_dest w) = accepted (lw_dest w) \<longrightarrow> flushed (lw_dest w') = accepted (lw_dest w'))
    \<and> lw_block_offset w' = log_offset (lw_block_offset w) recs"
  using assms
proof (induction recs arbitrary: w)
  case (Cons rec recs)
  obtain w1 where w1: "AddRecord_loop wfile True rec w = Some (status_OK, w1)"
    "writes w (fst (record_bytes (lw_block_offset w) True rec)) w1"
    "lw_block_offset w1 = snd (record_bytes (lw_block_offset w) True rec)"
    using AddRecord_loop_writes [OF Cons.prems, of True rec] by blast
  with Cons.prems have "lw_type_crc w1 = InitTypeCrc" by (simp add: writes_def)
  from Cons.IH [OF this] w1 show ?case
    by (cases recs) (auto simp: AddRecord_def writes_def split: prod.split)
qed simp

end

text \<open>On POSIX files, where what is accepted is on the disk after a record.\<close>

context posix_write
begin

lemma AddRecords_on_disk:
  assumes "lw_type_crc w = InitTypeCrc" and "pwf_buf (lw_dest w) = []"
  shows "\<exists>w'. AddRecords (posix_writable sys_write error) recs w = Some (status_OK, w')
    \<and> on_disk (pwf_system (lw_dest w')) = on_disk (pwf_system (lw_dest w)) @ log_bytes (lw_block_offset w) recs
    \<and> pwf_buf (lw_dest w') = []"
  using AddRecords_writes [OF assms(1), of error recs] assms(2) by auto

end

context posix_read
begin

lemma read_log_posix:
  assumes "ahead k = take m (log_bytes 0 recs)"
  shows "\<exists>n r. read_records (posix_sequential read lseek error) (new_Reader k reporter checksum 0)
      = Some (take n recs, r) \<and> lr_drops r = [] \<and> n \<le> length recs
    \<and> (\<forall>j\<le>length recs. j \<le> n \<longleftrightarrow> length (log_bytes 0 (take j recs)) \<le> m)"
  using assms by (rule read_log)

end

subsection \<open>Any file\<close>

lemma Mask_Unmask: "Mask (Unmask c) = c"
proof -
  have "inj Mask" by (rule inj_on_inverseI [of _ Unmask]) simp
  then have "surj Mask" by (simp add: finite_UNIV_inj_surj)
  then obtain d where "c = Mask d" by blast
  then show ?thesis by simp
qed

lemma bytes_of_length:
  fixes h g :: byte
  defines "n \<equiv> unat ((ucast h :: u32) AND 0xff OR push_bit 8 ((ucast g :: u32) AND 0xff))"
  shows "(of_nat n :: byte) = h" and "(of_nat (n div 256) :: byte) = g"
proof -
  let ?w = "(ucast h :: u32) AND 0xff OR push_bit 8 ((ucast g :: u32) AND 0xff)"
  have "(ucast ?w :: byte) = h"
    unfolding and_0xff_32
    by (rule bit_word_eqI) (auto simp: bit_or_iff bit_take_bit_iff bit_push_bit_iff bit_ucast_iff)
  then show "(of_nat n :: byte) = h" by (simp add: n_def)
  have "(ucast (drop_bit 8 ?w) :: byte) = g"
    unfolding and_0xff_32
    by (rule bit_word_eqI)
      (auto simp: bit_or_iff bit_take_bit_iff bit_push_bit_iff bit_ucast_iff bit_drop_bit_eq dest: bit_imp_le_length)
  moreover have "n div 256 = unat (drop_bit 8 ?w)"
    by (simp only: n_def unat_drop_bit_eq) (simp add: drop_bit_eq_div)
  ultimately show "(of_nat (n div 256) :: byte) = g" by simp
qed

text \<open>A physical record with its checksum stands in the file, and a record is put together of such.\<close>

definition intact :: "bytes \<Rightarrow> byte \<Rightarrow> bytes \<Rightarrow> bool" where
  "intact contents t p \<longleftrightarrow> (\<exists>xs ys. contents = xs @ physical t p @ ys)"

definition made_of_intact :: "bytes \<Rightarrow> bytes \<Rightarrow> bool" where
  "made_of_intact contents rec \<longleftrightarrow> (\<exists>ps. rec = concat ps \<and> (\<forall>p\<in>set ps. \<exists>t. intact contents t p))"

lemma made_of_intact_Nil [simp]: "made_of_intact contents []"
  unfolding made_of_intact_def by (rule exI [of _ "[]"]) simp

lemma made_of_intact_append:
  "made_of_intact contents rec \<Longrightarrow> intact contents t p \<Longrightarrow> made_of_intact contents (rec @ p)"
proof -
  assume "made_of_intact contents rec" and p: "intact contents t p"
  then obtain ps where "rec = concat ps" "\<forall>p\<in>set ps. \<exists>t. intact contents t p"
    by (auto simp: made_of_intact_def)
  with p have "rec @ p = concat (ps @ [p])" "\<forall>p\<in>set (ps @ [p]). \<exists>t. intact contents t p" by auto
  then show ?thesis unfolding made_of_intact_def by blast
qed

lemma checked_header:
  fixes header :: bytes
  defines "n \<equiv> unat ((ucast (header ! 4) :: u32) AND 0xff OR push_bit 8 ((ucast (header ! 5) :: u32) AND 0xff))"
  assumes "kHeaderSize + n \<le> length header"
    and "crc32c_Value 0 (take (1 + n) (drop 6 header)) = Unmask (the (DecodeFixed32 header))"
  shows "header = physical (header ! 6) (take n (drop kHeaderSize header)) @ drop (kHeaderSize + n) header"
proof -
  have len: "7 + n \<le> length header" using assms(2) by (simp add: kHeaderSize_def)
  have "take (1 + n) (drop 6 header) = header ! 6 # take n (drop 7 header)"
    using len by (simp add: Cons_nth_drop_Suc [symmetric])
  moreover have "length (take n (drop 7 header)) = n" using len by simp
  moreover have "DecodeFixed32 header = Some (le_word (take 4 header))" using len by simp
  ultimately have "physical (header ! 6) (take n (drop 7 header))
      = le_bytes 4 (le_word (take 4 header) :: u32) @ [of_nat n, of_nat (n div 256), header ! 6] @ take n (drop 7 header)"
    using assms(3) by (simp add: physical_def Mask_Unmask)
  moreover have "le_bytes 4 (le_word (take 4 header) :: u32) = take 4 header"
    using le_bytes_le_word [of "take 4 header", where 'a = 32] len by simp
  moreover have "(of_nat n :: byte) = header ! 4" "(of_nat (n div 256) :: byte) = header ! 5"
    unfolding n_def by (rule bytes_of_length)+
  moreover have "take 4 header @ [header ! 4, header ! 5, header ! 6] @ take n (drop 7 header) @ drop (7 + n) header = header"
  proof -
    have "drop 4 header = header ! 4 # header ! 5 # header ! 6 # drop 7 header"
      using len Cons_nth_drop_Suc [of 4 header] Cons_nth_drop_Suc [of 5 header] Cons_nth_drop_Suc [of 6 header]
      by simp
    moreover have "take n (drop 7 header) @ drop (7 + n) header = drop 7 header"
      by (metis append_take_drop_id drop_drop add.commute)
    ultimately show ?thesis by (metis append_Cons append_Nil append_take_drop_id)
  qed
  ultimately show ?thesis by (simp add: kHeaderSize_def)
qed

lemma of_nat_RecordType_scast:
  assumes "scast (b :: byte) = (of_nat (RecordType_value t) :: u32)"
  shows "b = type_byte t"
proof -
  have "scast b = (scast (type_byte t) :: u32)" using assms by (simp add: scast_type_byte)
  then have "(ucast (scast b :: u32) :: byte) = ucast (scast (type_byte t) :: u32)" by simp
  moreover have "(ucast (scast c :: u32) :: byte) = c" for c :: byte
  proof (rule bit_word_eqI)
    fix n assume "n < LENGTH(8)"
    then have "min n (LENGTH(8) - 1) = n" by simp
    with \<open>n < LENGTH(8)\<close> show "bit (ucast (scast c :: u32) :: byte) n = bit c n"
      by (simp add: bit_ucast_iff bit_signed_iff)
  qed
  ultimately show ?thesis by simp
qed

lemma not_RecordType [simp]: "kEof \<noteq> of_nat (RecordType_value t)" "kBadRecord \<noteq> of_nat (RecordType_value t)"
  by (cases t; simp add: kEof_def kBadRecord_def kMaxRecordType_def)+

context sequential_file
begin

text \<open>What the reader has not used is the end of the file, and the reader checks all sums from the start.\<close>

definition reads_from :: "bytes \<Rightarrow> 'f Reader \<Rightarrow> bool" where
  "reads_from contents r \<longleftrightarrow> (\<exists>used. contents = used @ lr_buffer r @ unread (lr_file r))
     \<and> lr_checksum r \<and> lr_initial_offset r = 0"

definition remaining :: "'f Reader \<Rightarrow> nat" where
  "remaining r = length (lr_buffer r) + length (unread (lr_file r))"

lemma reads_from_updates [simp]:
  "reads_from contents (ReportCorruption n reason r) = reads_from contents r"
  "reads_from contents (r\<lparr>lr_resyncing := b\<rparr>) = reads_from contents r"
  "reads_from contents (r\<lparr>lr_last_record_offset := x\<rparr>) = reads_from contents r"
  "remaining (ReportCorruption n reason r) = remaining r"
  "remaining (r\<lparr>lr_resyncing := b\<rparr>) = remaining r"
  "remaining (r\<lparr>lr_last_record_offset := x\<rparr>) = remaining r"
  by (simp_all add: reads_from_def remaining_def ReportCorruption_def ReportDrop_def)

lemma reads_from_clear: "reads_from contents r \<Longrightarrow> reads_from contents (r\<lparr>lr_buffer := drop n (lr_buffer r)\<rparr>)"
  unfolding reads_from_def by (auto) (metis append.assoc append_take_drop_id)

lemma parse_physical_any:
  assumes "reads_from contents r" and "kHeaderSize \<le> length (lr_buffer r)" and "parse_physical r = (t, f, r')"
  shows "reads_from contents r' \<and> remaining r' < remaining r
    \<and> (\<forall>T. T \<noteq> kZeroType \<and> t = of_nat (RecordType_value T) \<longrightarrow>
        (\<exists>p. f = Some p \<and> intact contents (type_byte T) p))"
proof -
  let ?header = "lr_buffer r"
  define n where "n = unat ((ucast (?header ! 4) :: u32) AND 0xff OR push_bit 8 ((ucast (?header ! 5) :: u32) AND 0xff))"
  have empty: "reads_from contents (r\<lparr>lr_buffer := []\<rparr>)" "remaining (r\<lparr>lr_buffer := []\<rparr>) < remaining r"
    using reads_from_clear [OF assms(1), of "length ?header"] assms(2) by (auto simp: remaining_def kHeaderSize_def)
  note unfold = assms(3) [unfolded parse_physical_def Let_def, folded n_def]
  show ?thesis
  proof (cases "kHeaderSize + n \<le> length ?header \<and> f \<noteq> None
      \<and> crc32c_Value 0 (take (1 + n) (drop 6 ?header)) = Unmask (the (DecodeFixed32 ?header))")
    case True
    with unfold assms(1) have r': "r' = r\<lparr>lr_buffer := drop (kHeaderSize + n) ?header\<rparr>"
      and t: "t = scast (?header ! 6)" and f: "f = Some (take n (drop kHeaderSize ?header))"
      by (auto simp: reads_from_def not_less [symmetric] split: if_splits)
    have header: "?header = physical (?header ! 6) (take n (drop kHeaderSize ?header)) @ drop (kHeaderSize + n) ?header"
      using checked_header [of ?header] True unfolding n_def by blast
    obtain used where "contents = used @ ?header @ unread (lr_file r)"
      using assms(1) by (auto simp: reads_from_def)
    then have "contents = used @ physical (?header ! 6) (take n (drop kHeaderSize ?header)) @
        (drop (kHeaderSize + n) ?header @ unread (lr_file r))"
      using header by (metis append.assoc)
    then have "intact contents (?header ! 6) (take n (drop kHeaderSize ?header))"
      unfolding intact_def by blast
    moreover have "remaining r' < remaining r"
      using assms(2) True by (auto simp: r' remaining_def kHeaderSize_def)
    moreover have "reads_from contents r'" unfolding r' by (rule reads_from_clear [OF assms(1)])
    ultimately show ?thesis using f t of_nat_RecordType_scast by auto
  next
    case False
    with unfold assms(1) have "f = None \<and> (t = kEof \<or> t = kBadRecord) \<and>
        (r' = r\<lparr>lr_buffer := []\<rparr> \<or> (\<exists>m reason. r' = ReportCorruption m reason (r\<lparr>lr_buffer := []\<rparr>)))"
      by (auto simp: reads_from_def split: if_splits)
    with empty show ?thesis by auto
  qed
qed

lemma ReadPhysicalRecord_any:
  assumes "reads_from contents r"
  shows "\<exists>t p r'. ReadPhysicalRecord sfile result r = Some (t, p, r') \<and> reads_from contents r'
    \<and> (t = kEof \<or> remaining r' < remaining r)
    \<and> (\<forall>T. T \<noteq> kZeroType \<and> t = of_nat (RecordType_value T) \<longrightarrow> intact contents (type_byte T) p)"
proof -
  have parsed: "\<exists>t p r'. ReadPhysicalRecord sfile result r = Some (t, p, r') \<and> reads_from contents r'
    \<and> (t = kEof \<or> remaining r' < remaining r)
    \<and> (\<forall>T. T \<noteq> kZeroType \<and> t = of_nat (RecordType_value T) \<longrightarrow> intact contents (type_byte T) p)"
    if r: "reads_from contents r" "kHeaderSize \<le> length (lr_buffer r)" for r
  proof -
    obtain t f r' where p: "parse_physical r = (t, f, r')" by (cases "parse_physical r") auto
    then have "ReadPhysicalRecord sfile result r = Some (t, (case f of None \<Rightarrow> result | Some f \<Rightarrow> f), r')"
      using r by (subst ReadPhysicalRecord.simps) simp
    with parse_physical_any [OF r p] show ?thesis by (cases f) auto
  qed
  have at_eof: "\<exists>t p r'. ReadPhysicalRecord sfile result r = Some (t, p, r') \<and> reads_from contents r'
    \<and> (t = kEof \<or> remaining r' < remaining r)
    \<and> (\<forall>T. T \<noteq> kZeroType \<and> t = of_nat (RecordType_value T) \<longrightarrow> intact contents (type_byte T) p)"
    if r: "reads_from contents r" "lr_eof r" for r
  proof (cases "kHeaderSize \<le> length (lr_buffer r)")
    case False
    with r have "ReadPhysicalRecord sfile result r = Some (kEof, result, r\<lparr>lr_buffer := []\<rparr>)"
      by (subst ReadPhysicalRecord.simps) simp
    then show ?thesis using reads_from_clear [OF r(1), of "length (lr_buffer r)"] by simp
  qed (rule parsed [OF r(1)])
  show ?thesis
  proof (cases "kHeaderSize \<le> length (lr_buffer r) \<or> lr_eof r")
    case True
    then show ?thesis using parsed [OF assms] at_eof [OF assms] by blast
  next
    case False
    obtain f where f: "sf_Read sfile kBlockSize [] (lr_file r) = Some (status_OK, take kBlockSize (unread (lr_file r)), f)"
      "unread f = drop kBlockSize (unread (lr_file r))"
      using Read by blast
    define r1 where "r1 = r\<lparr>lr_file := f, lr_buffer := take kBlockSize (unread (lr_file r)),
      lr_end_of_buffer_offset := lr_end_of_buffer_offset r + of_nat (length (take kBlockSize (unread (lr_file r))))\<rparr>"
    define r2 where "r2 = (if length (lr_buffer r1) < kBlockSize then r1\<lparr>lr_eof := True\<rparr> else r1)"
    have eq: "ReadPhysicalRecord sfile result r = ReadPhysicalRecord sfile result r2"
      by (subst ReadPhysicalRecord.simps) (use False f in \<open>simp add: Let_def r1_def r2_def\<close>)
    obtain used where "contents = used @ lr_buffer r @ unread (lr_file r)" "lr_checksum r" "lr_initial_offset r = 0"
      using assms by (auto simp: reads_from_def)
    then have "contents = (used @ lr_buffer r) @ lr_buffer r2 @ unread (lr_file r2)"
      "lr_checksum r2" "lr_initial_offset r2 = 0"
      by (simp_all add: r2_def r1_def f)
    then have from_r2: "reads_from contents r2" unfolding reads_from_def by blast
    have "remaining r2 \<le> remaining r" by (simp add: remaining_def r2_def r1_def f)
    moreover have "kHeaderSize \<le> length (lr_buffer r2) \<or> lr_eof r2"
      by (auto simp: r2_def kHeaderSize_def kBlockSize_def)
    ultimately show ?thesis
      using parsed [OF from_r2] at_eof [OF from_r2] unfolding eq by (meson less_le_trans)
  qed
qed

lemma ReadRecord_loop_any:
  assumes "reads_from contents r" and "made_of_intact contents scratch"
  shows "\<exists>found rec r'. ReadRecord_loop sfile in_frag scratch prospective fragment r = Some (found, rec, r')
    \<and> reads_from contents r' \<and> (found \<longrightarrow> made_of_intact contents rec \<and> remaining r' < remaining r)"
  using assms
proof (induction "remaining r" arbitrary: r scratch in_frag prospective fragment rule: less_induct)
  case less
  obtain t p r' where r': "ReadPhysicalRecord sfile fragment r = Some (t, p, r')" "reads_from contents r'"
    "t = kEof \<or> remaining r' < remaining r"
    and whole: "\<And>T. T \<noteq> kZeroType \<Longrightarrow> t = of_nat (RecordType_value T) \<Longrightarrow> intact contents (type_byte T) p"
    using ReadPhysicalRecord_any [OF less.prems(1), of fragment] by blast
  let ?goal = "\<lambda>x. \<exists>found rec r'. x = Some (found, rec, r')
    \<and> reads_from contents r' \<and> (found \<longrightarrow> made_of_intact contents rec \<and> remaining r' < remaining r)"
  have again: "?goal (ReadRecord_loop sfile in_frag' scratch' prospective' fragment' r'')"
    if "t \<noteq> kEof" "remaining r'' = remaining r'" "reads_from contents r''" "made_of_intact contents scratch'"
    for in_frag' scratch' prospective' fragment' r''
    using less.hyps [of r'' scratch' in_frag' prospective' fragment'] that r'(3) by auto
  have pieces: "made_of_intact contents (scratch @ p)" "made_of_intact contents p"
    if "T \<noteq> kZeroType" "t = of_nat (RecordType_value T)" for T
    using made_of_intact_append [OF less.prems(2) whole [OF that]]
      made_of_intact_append [OF made_of_intact_Nil whole [OF that]] by simp_all
  note step = ReadRecord_loop.simps [of _ _ _ _ _ r] r'(1) Let_def
  have keof: "kEof = 5" "kBadRecord = 6" by (simp_all add: kEof_def kBadRecord_def kMaxRecordType_def)
  have lt: "t \<noteq> kEof \<Longrightarrow> remaining r' < remaining r" using r'(3) by blast
  consider "t = 1" | "t = 2" | "t = 3" | "t = 4" | "t = 5" | "t \<notin> {1, 2, 3, 4, 5}" by blast
  then show ?case
  proof cases
    case 1
    then show ?thesis using pieces(2) [of kFullType] lt r'(2) by (auto simp: step keof intro: exI [of _ True])
  next
    case 2
    then show ?thesis using pieces(2) [of kFirstType] r'(2)
      by (simp add: step keof) (intro conjI impI again; simp add: keof)
  next
    case 3
    then show ?thesis using pieces(1) [of kMiddleType] r'(2) less.prems(2)
      by (cases "lr_resyncing r'"; cases in_frag) (simp add: step keof, intro again; simp add: keof)+
  next
    case 4
    then show ?thesis
    proof (cases "\<not> lr_resyncing r' \<and> in_frag")
      case True
      with 4 show ?thesis using pieces(1) [of kLastType] lt r'(2) by (auto simp: step keof intro: exI [of _ True])
    next
      case False
      with 4 show ?thesis using r'(2) less.prems(2)
        by (cases "lr_resyncing r'") (simp add: step keof, intro again; simp add: keof)+
    qed
  next
    case 5
    then show ?thesis using r'(2) by (auto simp: step keof intro: exI [of _ False])
  next
    case 6
    then show ?thesis using r'(2) less.prems(2)
      by (simp add: step keof) (intro conjI impI again; simp add: keof)
  qed
qed

lemma read_records_any:
  "reads_from contents r \<Longrightarrow>
     \<exists>recs r'. read_records sfile r = Some (recs, r') \<and> (\<forall>rec\<in>set recs. made_of_intact contents rec)"
proof (induction "remaining r" arbitrary: r rule: less_induct)
  case less
  have "ReadRecord sfile r = ReadRecord_loop sfile False [] 0 [] r"
    using less.prems by (simp add: ReadRecord_def reads_from_def)
  with ReadRecord_loop_any [OF less.prems made_of_intact_Nil, of False 0 "[]"] obtain found rec r' where
    r': "ReadRecord sfile r = Some (found, rec, r')" "reads_from contents r'"
    "found \<longrightarrow> made_of_intact contents rec \<and> remaining r' < remaining r" by auto
  show ?case
  proof (cases found)
    case True
    with r' less.hyps [of r'] show ?thesis by (auto simp: read_records.simps [of _ r])
  next
    case False
    with r' show ?thesis by (simp add: read_records.simps [of _ r])
  qed
qed

lemma reads_from_new: "reads_from (unread f) (new_Reader f reporter True 0)"
  unfolding reads_from_def by (auto simp: new_Reader_def)

end

context posix_read
begin

lemma read_any_posix:
  "\<exists>recs r. read_records (posix_sequential read lseek error) (new_Reader k reporter True 0) = Some (recs, r)
     \<and> (\<forall>rec\<in>set recs. made_of_intact (ahead k) rec)"
  by (rule read_records_any [OF reads_from_new])

end

subsection \<open>Properties\<close>

text \<open>C28: The log survives a crash. Records written through a POSIX file on a system whose writes may be
  short or interrupted are all flushed, the file holds exactly the bytes of the log, and a writer that is
  opened at its end continues the same log. If the file is cut after any number of bytes, the
  reader gives back the records that are whole in what is left, in order, then stops and reports no corruption.\<close>

theorem ldb_log_crash_safe:
  fixes error :: "int \<Rightarrow> Status" and lseek :: "'k lseek_call"
  assumes "posix_write sys_write on_disk interrupts" and "posix_read sys_read ahead interrupts'"
    and "pwf_buf f = []" "on_disk (pwf_system f) = []" and "length (log_bytes 0 recs) < 2 ^ 64"
    and "ahead k = take m (log_bytes 0 (recs @ recs'))"
  defines "wfile \<equiv> posix_writable sys_write error" and "sfile \<equiv> posix_sequential sys_read lseek error"
  shows "(\<exists>w w'. AddRecords wfile recs (new_Writer f) = Some (status_OK, w)
      \<and> on_disk (pwf_system (lw_dest w)) = log_bytes 0 recs
      \<and> AddRecords wfile recs' (new_Writer_at (lw_dest w) (of_nat (length (log_bytes 0 recs)))) = Some (status_OK, w')
      \<and> on_disk (pwf_system (lw_dest w')) = log_bytes 0 (recs @ recs'))
    \<and> (\<exists>n r. read_records sfile (new_Reader k True True 0) = Some (take n (recs @ recs'), r)
      \<and> lr_drops r = [] \<and> n \<le> length (recs @ recs')
      \<and> (\<forall>j\<le>length (recs @ recs'). j \<le> n \<longleftrightarrow> length (log_bytes 0 (take j (recs @ recs'))) \<le> m))"
proof (intro conjI)
  obtain w where w: "AddRecords wfile recs (new_Writer f) = Some (status_OK, w)"
    "on_disk (pwf_system (lw_dest w)) = log_bytes 0 recs" "pwf_buf (lw_dest w) = []"
    using posix_write.AddRecords_on_disk [OF assms(1), of "new_Writer f" error recs] assms(3,4)
    by (auto simp: new_Writer_def wfile_def)
  have "length (log_bytes 0 recs) mod kBlockSize = log_offset 0 recs mod kBlockSize"
    and le: "log_offset 0 recs \<le> kBlockSize"
    using log_offset_mod [of 0 recs] by simp_all
  moreover have "unat (of_nat (length (log_bytes 0 recs)) :: u64) = length (log_bytes 0 recs)"
    using assms(5) by (simp add: unat_of_nat take_bit_nat_eq_self)
  ultimately have offset: "lw_block_offset (new_Writer_at (lw_dest w) (of_nat (length (log_bytes 0 recs))))
      = log_offset 0 recs mod kBlockSize"
    by (simp add: new_Writer_at_def)
  from posix_write.AddRecords_on_disk
      [OF assms(1), of "new_Writer_at (lw_dest w) (of_nat (length (log_bytes 0 recs)))" error recs'] w(3)
  have "\<exists>w'. AddRecords wfile recs' (new_Writer_at (lw_dest w) (of_nat (length (log_bytes 0 recs)))) = Some (status_OK, w')
      \<and> on_disk (pwf_system (lw_dest w')) = log_bytes 0 recs @ log_bytes (log_offset 0 recs mod kBlockSize) recs'"
    unfolding offset wfile_def by (auto simp: new_Writer_at_def w(2))
  then show "\<exists>w w'. AddRecords wfile recs (new_Writer f) = Some (status_OK, w)
      \<and> on_disk (pwf_system (lw_dest w)) = log_bytes 0 recs
      \<and> AddRecords wfile recs' (new_Writer_at (lw_dest w) (of_nat (length (log_bytes 0 recs)))) = Some (status_OK, w')
      \<and> on_disk (pwf_system (lw_dest w')) = log_bytes 0 (recs @ recs')"
    unfolding log_bytes_mod [OF le] using w(1,2) log_bytes_append [of 0 recs recs'] by auto
  show "\<exists>n r. read_records sfile (new_Reader k True True 0) = Some (take n (recs @ recs'), r)
      \<and> lr_drops r = [] \<and> n \<le> length (recs @ recs')
      \<and> (\<forall>j\<le>length (recs @ recs'). j \<le> n \<longleftrightarrow> length (log_bytes 0 (take j (recs @ recs'))) \<le> m)"
    unfolding sfile_def by (rule posix_read.read_log_posix [OF assms(2,6)])
qed

lemma ldb_log_crash_safe_witness:
  "let recs = [[1, 2], [3]]; k = (take 12 (log_bytes 0 recs), 2) in
     \<exists>n r. read_records (posix_sequential listed_read (\<lambda>n k. (0, 0, k)) (PosixError (\<lambda>e. []) [])) (new_Reader k True True 0)
         = Some (take n recs, r) \<and> lr_drops r = []"
  using ldb_log_crash_safe [OF listed.posix_write_axioms listed_r.posix_read_axioms, THEN conjunct2,
      of "\<lparr>pwf_buf = [], pwf_system = ([], [3, 0])\<rparr>" "[]" "(take 12 (log_bytes 0 [[1, 2], [3]]), 2)" 12 "[[1, 2], [3]]"
        "\<lambda>n k. (0, 0, k)" "PosixError (\<lambda>e. []) []"]
  by auto

text \<open>C29: The log reader on any file: with checksums on, reading it to the end always returns, and every
  record it gives is put together of the payloads of physical records that stand in the file
  with a matching checksum.\<close>

theorem ldb_log_reader_any_file:
  fixes error :: "int \<Rightarrow> Status" and lseek :: "'k lseek_call"
  assumes "posix_read sys_read ahead interrupts"
  shows "\<exists>recs r. read_records (posix_sequential sys_read lseek error) (new_Reader k reporter True 0) = Some (recs, r)
    \<and> (\<forall>rec\<in>set recs. \<exists>ps. rec = concat ps
        \<and> (\<forall>p\<in>set ps. \<exists>t xs ys. ahead k = xs @ physical t p @ ys))"
  using posix_read.read_any_posix [OF assms, of lseek error k reporter]
  unfolding made_of_intact_def intact_def .

lemma ldb_log_reader_any_file_witness:
  "\<exists>recs r. read_records (posix_sequential listed_read (\<lambda>n k. (0, 0, k)) (PosixError (\<lambda>e. []) []))
      (new_Reader (replicate 40000 7, 1) False True 0) = Some (recs, r)"
  using ldb_log_reader_any_file [OF listed_r.posix_read_axioms] by blast

end
