(* ===== verification/Ldb_Block.thy ===== *)
theory Ldb_Block imports Ldb_Comparator Ldb_Status begin

text \<open>
  The blocks of a table: \<open>table/block_builder.cc\<close> writes sorted entries with shared prefixes and a list of
  restart points, the iterator of \<open>table/block.cc\<close> walks and searches them. Offsets into the block stand for
  pointers. A result \<open>None\<close> is a read or a pointer outside the block, which the language leaves undefined.
\<close>

subsection \<open>Builder\<close>

record BlockBuilder =
  bb_buffer :: bytes
  bb_restarts :: "u32 list"
  bb_counter :: nat
  bb_finished :: bool
  bb_last_key :: bytes

definition new_BlockBuilder :: BlockBuilder where
  "new_BlockBuilder = \<lparr>bb_buffer = [], bb_restarts = [0], bb_counter = 0, bb_finished = False, bb_last_key = []\<rparr>"

definition BlockBuilder_Reset :: "BlockBuilder \<Rightarrow> BlockBuilder" where
  "BlockBuilder_Reset b =
     b\<lparr>bb_buffer := [], bb_restarts := [0], bb_counter := 0, bb_finished := False, bb_last_key := []\<rparr>"

definition CurrentSizeEstimate :: "BlockBuilder \<Rightarrow> nat" where
  "CurrentSizeEstimate b = length (bb_buffer b) + length (bb_restarts b) * 4 + 4"

definition BlockBuilder_Finish :: "BlockBuilder \<Rightarrow> bytes \<times> BlockBuilder" where
  "BlockBuilder_Finish b =
     (let buffer = fold (\<lambda>r buffer. PutFixed32 buffer r) (bb_restarts b) (bb_buffer b);
          buffer = PutFixed32 buffer (of_nat (length (bb_restarts b)))
      in (buffer, b\<lparr>bb_buffer := buffer, bb_finished := True\<rparr>))"

text \<open>How many characters the keys share, when the loop starts at none.\<close>

fun shared_prefix :: "bytes \<Rightarrow> bytes \<Rightarrow> nat" where
  "shared_prefix (a # last_key) (b # key) = (if a = b then Suc (shared_prefix last_key key) else 0)"
| "shared_prefix _ _ = 0"

text \<open>\<open>interval\<close> is the option \<open>block_restart_interval\<close>.\<close>

definition BlockBuilder_Add :: "nat \<Rightarrow> bytes \<Rightarrow> bytes \<Rightarrow> BlockBuilder \<Rightarrow> BlockBuilder" where
  "BlockBuilder_Add interval key value b =
     (let (shared, restarts, counter) =
            (if bb_counter b < interval
             then (shared_prefix (bb_last_key b) key, bb_restarts b, bb_counter b)
             else (0, bb_restarts b @ [of_nat (length (bb_buffer b))], 0));
          non_shared = length key - shared;
          buffer = PutVarint32 (bb_buffer b) (of_nat shared);
          buffer = PutVarint32 buffer (of_nat non_shared);
          buffer = PutVarint32 buffer (of_nat (length value));
          buffer = buffer @ take non_shared (drop shared key) @ value
      in b\<lparr>bb_buffer := buffer, bb_restarts := restarts, bb_counter := counter + 1,
           bb_last_key := take shared (bb_last_key b) @ take non_shared (drop shared key)\<rparr>)"

subsection \<open>Block\<close>

definition NumRestarts :: "bytes \<Rightarrow> nat" where
  "NumRestarts data = unat (the (DecodeFixed32 (drop (length data - 4) data)))"

text \<open>The members \<open>size_\<close> and \<open>restart_offset_\<close>. The latter has 32 bits, so that a block has less than 4 GiB.\<close>

record Block =
  bl_data :: bytes
  bl_size :: nat
  bl_restart_offset :: nat

definition new_Block :: "bytes \<Rightarrow> Block" where
  "new_Block contents =
     (let n = length contents in
      if n < 4 then \<lparr>bl_data = contents, bl_size = 0, bl_restart_offset = 0\<rparr>
      else
        let max_restarts_allowed = (n - 4) div 4 in
        if max_restarts_allowed < NumRestarts contents
        then \<lparr>bl_data = contents, bl_size = 0, bl_restart_offset = 0\<rparr>
        else \<lparr>bl_data = contents, bl_size = n, bl_restart_offset = n - (1 + NumRestarts contents) * 4\<rparr>)"

text \<open>The three numbers in front of the entry at \<open>p\<close>, and the offset behind them.\<close>

definition DecodeEntry :: "bytes \<Rightarrow> nat \<Rightarrow> nat \<Rightarrow> (u32 \<times> u32 \<times> u32 \<times> nat) option" where
  "DecodeEntry data p limit =
     (if limit < p + 3 then None
      else
        let b = (\<lambda>i. ucast (data ! (p + i)) :: u32);
            check = (\<lambda>(shared, non_shared, value_length, rest).
              if (of_nat (length rest) :: u32) < non_shared + value_length then None
              else Some (shared, non_shared, value_length, limit - length rest))
        in if b 0 OR b 1 OR b 2 < 128
           then check (b 0, b 1, b 2, take (limit - (p + 3)) (drop (p + 3) data))
           else case GetVarint32Ptr (take (limit - p) (drop p data)) of
               None \<Rightarrow> None
             | Some (shared, q) \<Rightarrow> (case GetVarint32Ptr q of
                 None \<Rightarrow> None
               | Some (non_shared, q) \<Rightarrow> (case GetVarint32Ptr q of
                   None \<Rightarrow> None
                 | Some (value_length, q) \<Rightarrow> check (shared, non_shared, value_length, q))))"

subsection \<open>Iterator\<close>

text \<open>\<open>value_\<close> is a slice of the block, an offset and a length, or the empty slice outside of it.\<close>

record Iter =
  it_data :: bytes
  it_restarts :: nat
  it_num_restarts :: nat
  it_current :: nat
  it_restart_index :: nat
  it_key :: bytes
  it_value :: "(nat \<times> nat) option"
  it_status :: Status

definition new_Iter :: "bytes \<Rightarrow> nat \<Rightarrow> nat \<Rightarrow> Iter" where
  "new_Iter data restarts num_restarts =
     \<lparr>it_data = data, it_restarts = restarts, it_num_restarts = num_restarts, it_current = restarts,
      it_restart_index = num_restarts, it_key = [], it_value = None, it_status = status_OK\<rparr>"

definition Valid :: "Iter \<Rightarrow> bool" where
  "Valid it \<longleftrightarrow> it_current it < it_restarts it"

definition iter_value :: "Iter \<Rightarrow> bytes" where
  "iter_value it = (case it_value it of None \<Rightarrow> [] | Some (off, n) \<Rightarrow> take n (drop off (it_data it)))"

definition NextEntryOffset :: "Iter \<Rightarrow> nat option" where
  "NextEntryOffset it = map_option (\<lambda>(off, n). off + n) (it_value it)"

definition GetRestartPoint :: "Iter \<Rightarrow> nat \<Rightarrow> nat option" where
  "GetRestartPoint it index = map_option unat (DecodeFixed32 (drop (it_restarts it + index * 4) (it_data it)))"

definition SeekToRestartPoint :: "nat \<Rightarrow> Iter \<Rightarrow> Iter option" where
  "SeekToRestartPoint index it =
     (let it = it\<lparr>it_key := [], it_restart_index := index\<rparr> in
      map_option (\<lambda>offset. it\<lparr>it_value := Some (offset, 0)\<rparr>) (GetRestartPoint it index))"

definition CorruptionError :: "Iter \<Rightarrow> Iter" where
  "CorruptionError it =
     it\<lparr>it_current := it_restarts it, it_restart_index := it_num_restarts it,
        it_status := Corruption (chars ''bad entry in block''), it_key := [], it_value := None\<rparr>"

function advance_restart :: "Iter \<Rightarrow> Iter option" where
  "advance_restart it =
     (if it_restart_index it + 1 < it_num_restarts it
      then case GetRestartPoint it (it_restart_index it + 1) of
          None \<Rightarrow> None
        | Some point \<Rightarrow>
            if point < it_current it then advance_restart (it\<lparr>it_restart_index := it_restart_index it + 1\<rparr>)
            else Some it
      else Some it)"
  by pat_completeness auto
termination by (relation "measure (\<lambda>it. it_num_restarts it - it_restart_index it)") auto

declare advance_restart.simps [simp del]

definition ParseNextKey :: "Iter \<Rightarrow> (bool \<times> Iter) option" where
  "ParseNextKey it =
     (case NextEntryOffset it of
        None \<Rightarrow> None
      | Some current \<Rightarrow>
          let it = it\<lparr>it_current := current\<rparr> in
          if it_restarts it \<le> current
          then Some (False, it\<lparr>it_current := it_restarts it, it_restart_index := it_num_restarts it\<rparr>)
          else case DecodeEntry (it_data it) current (it_restarts it) of
              None \<Rightarrow> Some (False, CorruptionError it)
            | Some (shared, non_shared, value_length, p) \<Rightarrow>
                if length (it_key it) < unat shared then Some (False, CorruptionError it)
                else if length (it_data it) < p + unat non_shared + unat value_length then None
                else map_option (Pair True)
                  (advance_restart
                    (it\<lparr>it_key := take (unat shared) (it_key it) @ take (unat non_shared) (drop p (it_data it)),
                        it_value := Some (p + unat non_shared, unat value_length)\<rparr>)))"

definition Iter_Next :: "Iter \<Rightarrow> Iter option" where
  "Iter_Next it = map_option snd (ParseNextKey it)"

definition SeekToFirst :: "Iter \<Rightarrow> Iter option" where
  "SeekToFirst it =
     (case SeekToRestartPoint 0 it of None \<Rightarrow> None | Some it \<Rightarrow> map_option snd (ParseNextKey it))"

text \<open>Each entry ends behind the one before, so the loops over entries end.\<close>

lemma GetVarint32Ptr_length: "GetVarint32Ptr p = Some (v, q) \<Longrightarrow> length q < length p"
  using varint32.get_length [of p v q] by (simp add: GetVarint32_def)

lemma DecodeEntry_offset:
  assumes "DecodeEntry data p limit = Some (shared, non_shared, value_length, q)"
  shows "p < q \<and> q \<le> limit"
  using assms unfolding DecodeEntry_def Let_def
  by (auto split: if_splits option.splits dest!: GetVarint32Ptr_length) arith+

lemma advance_restart_same:
  "advance_restart it = Some it' \<Longrightarrow>
     it_data it' = it_data it \<and> it_restarts it' = it_restarts it \<and> it_value it' = it_value it"
proof (induction it rule: advance_restart.induct)
  case (1 it)
  then show ?case
    by (subst (asm) (2) advance_restart.simps) (auto split: if_splits option.splits)
qed

lemma ParseNextKey_progress:
  assumes "ParseNextKey it = Some (True, it')"
  obtains c c' where "NextEntryOffset it = Some c" "c < it_restarts it" "NextEntryOffset it' = Some c'" "c < c'"
    "it_restarts it' = it_restarts it"
proof -
  from assms obtain c shared non_shared n q it1 where c: "NextEntryOffset it = Some c" "c < it_restarts it"
    and d: "DecodeEntry (it_data it) c (it_restarts it) = Some (shared, non_shared, n, q)"
    and it': "advance_restart it1 = Some it'" "it_value it1 = Some (q + unat non_shared, unat n)"
      "it_restarts it1 = it_restarts it"
    by (force simp: ParseNextKey_def Let_def split: option.splits if_splits)
  with advance_restart_same [OF it'(1)] DecodeEntry_offset [OF d] that show thesis
    by (auto simp: NextEntryOffset_def)
qed

abbreviation entries_left :: "Iter \<Rightarrow> nat" where
  "entries_left it \<equiv> (case NextEntryOffset it of None \<Rightarrow> 0 | Some c \<Rightarrow> Suc (it_restarts it) - c)"

lemma entries_left_less: "ParseNextKey it = Some (True, it') \<Longrightarrow> entries_left it' < entries_left it"
  by (erule ParseNextKey_progress) auto

text \<open>Go on while there is an entry and the iterator satisfies a condition.\<close>

function parse_while :: "(Iter \<Rightarrow> bool) \<Rightarrow> Iter \<Rightarrow> Iter option" where
  "parse_while cond it =
     (case ParseNextKey it of
        None \<Rightarrow> None
      | Some (found, it) \<Rightarrow> if found \<and> cond it then parse_while cond it else Some it)"
  by pat_completeness auto
termination
  by (relation "measure (\<lambda>(cond, it). entries_left it)") (auto dest: entries_left_less)

declare parse_while.simps [simp del]

definition SeekToLast :: "Iter \<Rightarrow> Iter option" where
  "SeekToLast it =
     (case SeekToRestartPoint (it_num_restarts it - 1) it of
        None \<Rightarrow> None
      | Some it \<Rightarrow> parse_while (\<lambda>it. the (NextEntryOffset it) < it_restarts it) it)"

text \<open>The last restart point before \<open>original\<close>, if there is one.\<close>

fun restart_before :: "Iter \<Rightarrow> nat \<Rightarrow> nat \<Rightarrow> nat option option" where
  "restart_before it original index =
     (case GetRestartPoint it index of
        None \<Rightarrow> None
      | Some point \<Rightarrow>
          if original \<le> point
          then (case index of 0 \<Rightarrow> Some None | Suc index \<Rightarrow> restart_before it original index)
          else Some (Some index))"

declare restart_before.simps [simp del]

definition Iter_Prev :: "Iter \<Rightarrow> Iter option" where
  "Iter_Prev it =
     (let original = it_current it in
      case restart_before it original (it_restart_index it) of
        None \<Rightarrow> None
      | Some None \<Rightarrow> Some (it\<lparr>it_current := it_restarts it, it_restart_index := it_num_restarts it\<rparr>)
      | Some (Some index) \<Rightarrow>
          (case SeekToRestartPoint index it of
             None \<Rightarrow> None
           | Some it \<Rightarrow> parse_while (\<lambda>it. the (NextEntryOffset it) < original) it))"

text \<open>The binary search over restart points; \<open>Inl\<close> is the return after an error.\<close>

function restart_search ::
  "(bytes \<Rightarrow> bytes \<Rightarrow> int) \<Rightarrow> bytes \<Rightarrow> Iter \<Rightarrow> nat \<Rightarrow> nat \<Rightarrow> (Iter + nat) option" where
  "restart_search Compare target it left right =
     (if left < right
      then
        let mid = (left + right + 1) div 2 in
        case GetRestartPoint it mid of
          None \<Rightarrow> None
        | Some region_offset \<Rightarrow>
            (case DecodeEntry (it_data it) region_offset (it_restarts it) of
               None \<Rightarrow> Some (Inl (CorruptionError it))
             | Some (shared, non_shared, value_length, key_ptr) \<Rightarrow>
                 if shared \<noteq> 0 then Some (Inl (CorruptionError it))
                 else if length (it_data it) < key_ptr + unat non_shared then None
                 else if Compare (take (unat non_shared) (drop key_ptr (it_data it))) target < 0
                 then restart_search Compare target it mid right
                 else restart_search Compare target it left (mid - 1))
      else Some (Inr left))"
  by pat_completeness auto
termination
  by (relation "measure (\<lambda>(Compare, target, it, left, right). right - left)") (auto simp: Let_def)

declare restart_search.simps [simp del]

definition Seek :: "(bytes \<Rightarrow> bytes \<Rightarrow> int) \<Rightarrow> bytes \<Rightarrow> Iter \<Rightarrow> Iter option" where
  "Seek Compare target it =
     (case restart_search Compare target it 0 (it_num_restarts it - 1) of
        None \<Rightarrow> None
      | Some (Inl it) \<Rightarrow> Some it
      | Some (Inr left) \<Rightarrow>
          (case SeekToRestartPoint left it of
             None \<Rightarrow> None
           | Some it \<Rightarrow> parse_while (\<lambda>it. Compare (it_key it) target < 0) it))"

text \<open>The iterator of a block: an error, nothing, or an iterator over entries.\<close>

datatype block_iterator = ErrorIterator Status | EmptyIterator | BlockIterator Iter

definition NewIterator :: "Block \<Rightarrow> block_iterator" where
  "NewIterator b =
     (if bl_size b < 4 then ErrorIterator (Corruption (chars ''bad block contents''))
      else if NumRestarts (bl_data b) = 0 then EmptyIterator
      else BlockIterator (new_Iter (bl_data b) (bl_restart_offset b) (NumRestarts (bl_data b))))"

end
