(* ===== verification/Ldb_Block_Correct.thy ===== *)
theory Ldb_Block_Correct imports Ldb_Block begin

text \<open>
  The iterator over a block that the builder made is a cursor over the entries: \<open>layout\<close> describes the
  bytes, \<open>points\<close> relates an iterator to the entry it shows, and each operation moves as expected.
\<close>

subsection \<open>Layout\<close>

text \<open>An entry with the number of characters it shares with the key before.\<close>

type_synonym entry = "nat \<times> bytes \<times> bytes"

abbreviation e_shared :: "entry \<Rightarrow> nat" where "e_shared e \<equiv> fst e"
abbreviation e_key :: "entry \<Rightarrow> bytes" where "e_key e \<equiv> fst (snd e)"
abbreviation e_value :: "entry \<Rightarrow> bytes" where "e_value e \<equiv> snd (snd e)"

definition entry_head :: "entry \<Rightarrow> bytes" where
  "entry_head e = EncodeVarint32 (of_nat (e_shared e)) @ EncodeVarint32 (of_nat (length (e_key e) - e_shared e))
     @ EncodeVarint32 (of_nat (length (e_value e)))"

definition entry_bytes :: "entry \<Rightarrow> bytes" where
  "entry_bytes e = entry_head e @ drop (e_shared e) (e_key e) @ e_value e"

definition entry_offset :: "entry list \<Rightarrow> nat \<Rightarrow> nat" where
  "entry_offset T i = length (concat (map entry_bytes (take i T)))"

definition chained :: "entry list \<Rightarrow> bool" where
  "chained T \<longleftrightarrow> (\<forall>i<length T. e_shared (T ! i) \<le> length (e_key (T ! i)) \<and>
     (e_shared (T ! i) \<noteq> 0 \<longrightarrow> i \<noteq> 0 \<and> e_shared (T ! i) \<le> length (e_key (T ! (i - 1)))
        \<and> take (e_shared (T ! i)) (e_key (T ! i)) = take (e_shared (T ! i)) (e_key (T ! (i - 1)))))"

definition restarts_ok :: "entry list \<Rightarrow> nat list \<Rightarrow> bool" where
  "restarts_ok T R \<longleftrightarrow> R \<noteq> [] \<and> R ! 0 = 0
     \<and> (if T = [] then R = [0] else \<forall>r\<in>set R. r < length T \<and> e_shared (T ! r) = 0)"

definition block_bytes :: "entry list \<Rightarrow> nat list \<Rightarrow> bytes" where
  "block_bytes T R = concat (map entry_bytes T)
     @ concat (map (\<lambda>r. le_bytes 4 (of_nat (entry_offset T r) :: u32)) R) @ le_bytes 4 (of_nat (length R) :: u32)"

definition layout :: "bytes \<Rightarrow> entry list \<Rightarrow> nat list \<Rightarrow> bool" where
  "layout data T R \<longleftrightarrow> data = block_bytes T R \<and> chained T \<and> restarts_ok T R \<and> length data < 2 ^ 32"

abbreviation data_end :: "entry list \<Rightarrow> nat" where
  "data_end T \<equiv> entry_offset T (length T)"

lemma EncodeVarint32_not_Nil [simp]: "EncodeVarint32 v \<noteq> []"
  using varint32.put_not_Nil [of v] by simp

lemma length_entry_head: "3 \<le> length (entry_head e)"
proof -
  have "0 < length (EncodeVarint32 v)" for v by simp
  then have "1 \<le> length (EncodeVarint32 v)" for v by (simp only: Suc_le_eq One_nat_def)
  from this [of "of_nat (e_shared e)"] this [of "of_nat (length (e_key e) - e_shared e)"]
    this [of "of_nat (length (e_value e))"]
  show ?thesis by (simp add: entry_head_def)
qed

lemma entry_offset_Suc: "i < length T \<Longrightarrow> entry_offset T (Suc i) = entry_offset T i + length (entry_bytes (T ! i))"
  by (simp add: entry_offset_def take_Suc_conv_app_nth)

lemma entry_offset_0 [simp]: "entry_offset T 0 = 0"
  by (simp add: entry_offset_def)

lemma entry_offset_less:
  assumes "i < j" "j \<le> length T"
  shows "entry_offset T i < entry_offset T j"
  using assms
proof (induction j)
  case (Suc j)
  have "3 \<le> length (entry_bytes (T ! j))"
    using length_entry_head [of "T ! j"] by (simp add: entry_bytes_def)
  with Suc show ?case by (cases "i = j") (auto simp: entry_offset_Suc)
qed simp

lemma entry_offset_less_iff:
  "i \<le> length T \<Longrightarrow> j \<le> length T \<Longrightarrow> entry_offset T i < entry_offset T j \<longleftrightarrow> i < j"
  using entry_offset_less [of i j T] entry_offset_less [of j i T] by (cases i j rule: linorder_cases) auto

lemma data_end_eq: "data_end T = length (concat (map entry_bytes T))"
  by (simp add: entry_offset_def)

lemma length_concat_4: "length (concat (map (\<lambda>r. le_bytes 4 (f r :: u32)) R)) = 4 * length R"
  by (induction R) simp_all

lemma length_block_bytes: "length (block_bytes T R) = data_end T + 4 * length R + 4"
  by (simp add: block_bytes_def data_end_eq length_concat_4)

lemma drop_concat_4:
  "j < length R \<Longrightarrow> \<exists>rest. drop (j * 4) (concat (map (\<lambda>r. le_bytes 4 (f r :: u32)) R)) = le_bytes 4 (f (R ! j)) @ rest"
proof (induction R arbitrary: j)
  case (Cons r R)
  then show ?case by (cases j) auto
qed simp

lemma restarts_entry:
  "restarts_ok T R \<Longrightarrow> j < length R \<Longrightarrow> R ! j < length T \<and> e_shared (T ! (R ! j)) = 0 \<or> j = 0 \<and> R ! j = 0 \<and> T = []"
  by (auto simp: restarts_ok_def split: if_splits)

lemma restarts_le: "restarts_ok T R \<Longrightarrow> j < length R \<Longrightarrow> R ! j \<le> length T"
  using restarts_entry [of T R j] by auto

text \<open>What the operations of the block read.\<close>

lemma layout_restart_point:
  assumes "layout data T R" "j < length R" "it_data it = data" "it_restarts it = data_end T"
  shows "GetRestartPoint it j = Some (entry_offset T (R ! j))"
proof -
  let ?f = "\<lambda>r. of_nat (entry_offset T r) :: u32"
  from drop_concat_4 [OF assms(2), of ?f] obtain rest where
    rest: "drop (j * 4) (concat (map (\<lambda>r. le_bytes 4 (?f r)) R)) = le_bytes 4 (?f (R ! j)) @ rest" by blast
  have j4: "j * 4 \<le> length (concat (map (\<lambda>r. le_bytes 4 (?f r)) R))" using assms(2) by (simp add: length_concat_4)
  have "drop (data_end T + j * 4) data = le_bytes 4 (?f (R ! j)) @ rest @ le_bytes 4 (of_nat (length R) :: u32)"
    using assms(1) rest j4 by (simp add: layout_def block_bytes_def data_end_eq)
  moreover have "entry_offset T (R ! j) < 2 ^ 32"
  proof -
    have "entry_offset T (R ! j) \<le> data_end T"
      using entry_offset_less [of "R ! j" "length T" T] restarts_le [of T R j] assms(1,2)
      by (cases "R ! j = length T") (auto simp: layout_def)
    also have "\<dots> < 2 ^ 32" using assms(1) by (auto simp: layout_def length_block_bytes)
    finally show ?thesis .
  qed
  ultimately show ?thesis
    using assms(3,4) by (simp add: GetRestartPoint_def unat_of_nat take_bit_nat_eq_self)
qed

lemma layout_num_restarts:
  assumes "layout data T R"
  shows "NumRestarts data = length R" and "bl_size (new_Block data) = length data"
    and "bl_restart_offset (new_Block data) = data_end T" and "bl_data (new_Block data) = data"
proof -
  have len: "length data = data_end T + 4 * length R + 4" "length R < 2 ^ 32"
    using assms by (auto simp: layout_def length_block_bytes)
  have "drop (length data - 4) data = le_bytes 4 (of_nat (length R) :: u32)"
    using assms len by (simp add: layout_def block_bytes_def data_end_eq length_concat_4)
  then show num: "NumRestarts data = length R"
    using len by (simp add: NumRestarts_def unat_of_nat take_bit_nat_eq_self)
  show "bl_size (new_Block data) = length data" "bl_restart_offset (new_Block data) = data_end T"
    "bl_data (new_Block data) = data"
    using len num by (auto simp: new_Block_def Let_def)
qed

lemma small_or_32:
  fixes x y z :: u32
  assumes "x OR y OR z < 128"
  shows "x AND 128 = 0" "y AND 128 = 0" "z AND 128 = 0"
proof -
  have "\<not> bit w 7" if "w < 128" for w :: u32
  proof -
    have "unat w < 2 ^ 7" using that by (simp add: word_less_nat_alt)
    then have "take_bit 7 w = w" by (simp add: word_unat_eq_iff unsigned_take_bit_eq take_bit_nat_eq_self)
    then show ?thesis by (metis bit_take_bit_iff less_irrefl)
  qed
  from this [OF assms] have "\<not> bit (x OR y OR z) 7" .
  then have "\<not> bit x 7" "\<not> bit y 7" "\<not> bit z 7" by (simp_all add: bit_or_iff)
  moreover have "w AND 128 = 0 \<longleftrightarrow> \<not> bit w 7" for w :: u32
    using and_exp_eq_0_iff_not_bit [of w 7] by simp
  ultimately show "x AND 128 = 0" "y AND 128 = 0" "z AND 128 = 0" by simp_all
qed

lemma GetVarint32Ptr_byte: "(ucast b :: u32) AND 128 = 0 \<Longrightarrow> GetVarint32Ptr (b # q) = Some (ucast b, q)"
  by (simp add: GetVarint32Ptr_def)

text \<open>The fast path of \<open>DecodeEntry\<close> agrees with the other one.\<close>

lemma DecodeEntry_varints:
  assumes "p + 3 \<le> limit" "limit \<le> length data"
    and "GetVarint32Ptr (take (limit - p) (drop p data)) = Some (a, q1)" "GetVarint32Ptr q1 = Some (b, q2)"
    and "GetVarint32Ptr q2 = Some (c, q3)" and "\<not> (of_nat (length q3) :: u32) < b + c"
  shows "DecodeEntry data p limit = Some (a, b, c, limit - length q3)"
proof (cases "(ucast (data ! p) :: u32) OR ucast (data ! (p + 1)) OR ucast (data ! (p + 2)) < 128")
  case True
  let ?b = "\<lambda>i. data ! (p + i)"
  have "take (limit - p) (drop p data) = ?b 0 # ?b 1 # ?b 2 # take (limit - (p + 3)) (drop (p + 3) data)"
  proof -
    have "drop p data = ?b 0 # ?b 1 # ?b 2 # drop (p + 3) data"
      using assms(1,2) Cons_nth_drop_Suc [of p data] Cons_nth_drop_Suc [of "p + 1" data] Cons_nth_drop_Suc [of "p + 2" data]
      by (simp add: numeral_3_eq_3)
    moreover have "limit - p = Suc (Suc (Suc (limit - (p + 3))))" using assms(1) by simp
    ultimately show ?thesis by simp
  qed
  moreover note small_or_32 [OF True]
  ultimately have "a = ucast (?b 0)" "b = ucast (?b 1)" "c = ucast (?b 2)"
    "q3 = take (limit - (p + 3)) (drop (p + 3) data)"
    using assms(3-5) by (auto simp: GetVarint32Ptr_byte)
  with True assms(1,6) show ?thesis by (simp add: DecodeEntry_def Let_def)
next
  case False
  with assms show ?thesis by (simp add: DecodeEntry_def Let_def)
qed

lemma layout_drop_entry:
  assumes "layout data T R" "i < length T"
  shows "take (data_end T - entry_offset T i) (drop (entry_offset T i) data) = concat (map entry_bytes (drop i T))"
proof -
  have split: "concat (map entry_bytes T) = concat (map entry_bytes (take i T)) @ concat (map entry_bytes (drop i T))"
    by (metis append_take_drop_id concat_append map_append)
  then have "data_end T - entry_offset T i = length (concat (map entry_bytes (drop i T)))"
    by (simp only: data_end_eq entry_offset_def length_append) simp
  then show ?thesis
    using assms(1) by (simp add: layout_def block_bytes_def split entry_offset_def)
qed

lemma chained_key_length:
  "chained T \<Longrightarrow> i < length T \<Longrightarrow> length (e_key (T ! i)) \<le> entry_offset T (Suc i)"
proof (induction i)
  case 0
  then have "e_shared (T ! 0) = 0" by (auto simp: chained_def)
  with 0 show ?case by (simp add: entry_offset_Suc entry_bytes_def)
next
  case (Suc i)
  then have "e_shared (T ! Suc i) \<le> length (e_key (T ! i))"
    by (cases "e_shared (T ! Suc i) = 0") (auto simp: chained_def dest!: spec [of _ "Suc i"])
  moreover have "length (e_key (T ! Suc i)) \<le> e_shared (T ! Suc i) + length (entry_bytes (T ! Suc i))"
    by (simp add: entry_bytes_def)
  ultimately show ?case using Suc by (simp add: entry_offset_Suc)
qed

lemma layout_DecodeEntry:
  assumes "layout data T R" "i < length T"
  defines "e \<equiv> T ! i"
  defines "p \<equiv> entry_offset T i + length (entry_head e)"
  shows "DecodeEntry data (entry_offset T i) (data_end T) =
      Some (of_nat (e_shared e), of_nat (length (e_key e) - e_shared e), of_nat (length (e_value e)), p)"
    and "drop p data = drop (e_shared e) (e_key e) @ e_value e @ drop (entry_offset T (Suc i)) data"
    and "p + (length (e_key e) - e_shared e) + length (e_value e) = entry_offset T (Suc i)"
    and "entry_offset T (Suc i) \<le> data_end T"
    and "unat (of_nat (e_shared e) :: u32) = e_shared e"
      "unat (of_nat (length (e_key e) - e_shared e) :: u32) = length (e_key e) - e_shared e"
      "unat (of_nat (length (e_value e)) :: u32) = length (e_value e)"
proof -
  let ?a = "of_nat (e_shared e) :: u32" and ?b = "of_nat (length (e_key e) - e_shared e) :: u32"
    and ?c = "of_nat (length (e_value e)) :: u32"
  let ?delta = "drop (e_shared e) (e_key e) @ e_value e"
  let ?rest = "concat (map entry_bytes (drop (Suc i) T))"
  have shared: "e_shared e \<le> length (e_key e)"
    using assms(1,2) by (auto simp: layout_def chained_def e_def)
  have next_le: "entry_offset T (Suc i) \<le> data_end T"
    using entry_offset_less [of "Suc i" "length T" T] assms(2) by (cases "Suc i = length T") auto
  then show "entry_offset T (Suc i) \<le> data_end T" .
  have end_small: "data_end T < 2 ^ 32" "data_end T \<le> length data"
    using assms(1) by (auto simp: layout_def length_block_bytes)
  have Suc_i: "entry_offset T (Suc i) = entry_offset T i + length (entry_bytes e)"
    using entry_offset_Suc [OF assms(2)] by (simp add: e_def)
  then show sum: "p + (length (e_key e) - e_shared e) + length (e_value e) = entry_offset T (Suc i)"
    by (simp add: p_def entry_bytes_def)
  have small: "length (e_key e) - e_shared e < 2 ^ 32" "length (e_value e) < 2 ^ 32"
    using sum next_le end_small by linarith+
  show b: "unat ?b = length (e_key e) - e_shared e" and c: "unat ?c = length (e_value e)"
    using small by (simp_all add: unat_of_nat take_bit_nat_eq_self)
  have "length (e_key e) \<le> entry_offset T (Suc i)"
    using chained_key_length [of T i] assms(1,2) by (simp add: layout_def e_def)
  then show a: "unat ?a = e_shared e"
    using shared next_le end_small by (simp add: unat_of_nat take_bit_nat_eq_self)
  have tail: "concat (map entry_bytes (drop i T)) = entry_head e @ ?delta @ ?rest"
    using assms(2) by (simp add: e_def entry_bytes_def flip: Cons_nth_drop_Suc)
  define q where "q = ?delta @ ?rest"
  have area: "take (data_end T - entry_offset T i) (drop (entry_offset T i) data) = entry_head e @ q"
    using layout_drop_entry [OF assms(1,2)] tail by (simp add: q_def)
  have rest_area: "take (data_end T - entry_offset T (Suc i)) (drop (entry_offset T (Suc i)) data) = ?rest"
  proof (cases "Suc i < length T")
    case True
    then show ?thesis by (rule layout_drop_entry [OF assms(1)])
  next
    case False
    then show ?thesis using assms(2) by (simp add: not_less le_Suc_eq)
  qed
  have len: "data_end T - entry_offset T i = length (entry_head e) + length q"
    using arg_cong [OF area, of length] end_small next_le Suc_i by simp
  have q_end: "data_end T - length q = p"
    using len next_le Suc_i by (simp add: p_def)
  have "DecodeEntry data (entry_offset T i) (data_end T) = Some (?a, ?b, ?c, data_end T - length q)"
  proof (rule DecodeEntry_varints)
    show "entry_offset T i + 3 \<le> data_end T"
      using next_le Suc_i length_entry_head [of e] by (simp add: entry_bytes_def)
    show "data_end T \<le> length data" by (rule end_small)
    show "GetVarint32Ptr (take (data_end T - entry_offset T i) (drop (entry_offset T i) data))
        = Some (?a, EncodeVarint32 ?b @ EncodeVarint32 ?c @ q)"
      unfolding area using varint32.get_put [of ?a] by (simp add: entry_head_def GetVarint32_def)
    show "GetVarint32Ptr (EncodeVarint32 ?b @ EncodeVarint32 ?c @ q) = Some (?b, EncodeVarint32 ?c @ q)"
      using varint32.get_put [of ?b] by (simp add: GetVarint32_def)
    show "GetVarint32Ptr (EncodeVarint32 ?c @ q) = Some (?c, q)"
      using varint32.get_put [of ?c] by (simp add: GetVarint32_def)
    have "length q < 2 ^ 32" using len end_small by linarith
    moreover have "length (e_key e) - e_shared e + length (e_value e) \<le> length q" by (simp add: q_def)
    ultimately show "\<not> (of_nat (length q) :: u32) < ?b + ?c"
      by (simp add: word_less_nat_alt unat_word_ariths b c unat_of_nat take_bit_nat_eq_self not_less)
  qed
  then show "DecodeEntry data (entry_offset T i) (data_end T) = Some (?a, ?b, ?c, p)" by (simp add: q_end)
  have "drop p data = drop (length (entry_head e)) (drop (entry_offset T i) data)"
    by (simp add: p_def add.commute)
  moreover have "drop (entry_offset T i) data = entry_bytes e @ drop (entry_offset T (Suc i)) data"
  proof -
    have "concat (map entry_bytes T) = concat (map entry_bytes (take i T)) @ entry_bytes e @ ?rest"
      using assms(2) id_take_nth_drop [of i T] by (metis concat.simps(2) concat_append e_def list.simps(9) map_append)
    then show ?thesis
      using assms(1,2) by (simp add: layout_def block_bytes_def entry_offset_def take_Suc_conv_app_nth e_def)
  qed
  ultimately show "drop p data = drop (e_shared e) (e_key e) @ e_value e @ drop (entry_offset T (Suc i)) data"
    by (simp add: entry_bytes_def)
qed

subsection \<open>The cursor\<close>

text \<open>An iterator over the block, one that will parse entry \<open>i\<close> next, and one that stands at it.\<close>

definition over :: "bytes \<Rightarrow> entry list \<Rightarrow> nat list \<Rightarrow> Iter \<Rightarrow> bool" where
  "over data T R it \<longleftrightarrow> it_data it = data \<and> it_restarts it = data_end T \<and> it_num_restarts it = length R
     \<and> it_status it = status_OK"

definition before :: "bytes \<Rightarrow> entry list \<Rightarrow> nat list \<Rightarrow> nat \<Rightarrow> Iter \<Rightarrow> bool" where
  "before data T R i it \<longleftrightarrow> over data T R it \<and> i \<le> length T \<and> NextEntryOffset it = Some (entry_offset T i)
     \<and> (i < length T \<longrightarrow> e_shared (T ! i) \<le> length (it_key it)
          \<and> take (e_shared (T ! i)) (it_key it) = take (e_shared (T ! i)) (e_key (T ! i)))
     \<and> it_restart_index it < length R \<and> R ! it_restart_index it \<le> i"

definition stands_at :: "bytes \<Rightarrow> entry list \<Rightarrow> nat list \<Rightarrow> nat \<Rightarrow> Iter \<Rightarrow> bool" where
  "stands_at data T R i it \<longleftrightarrow> over data T R it \<and> i < length T \<and> it_current it = entry_offset T i
     \<and> it_key it = e_key (T ! i) \<and> iter_value it = e_value (T ! i)
     \<and> NextEntryOffset it = Some (entry_offset T (Suc i))
     \<and> it_restart_index it < length R \<and> R ! it_restart_index it \<le> i"

definition cursor :: "bytes \<Rightarrow> entry list \<Rightarrow> nat list \<Rightarrow> nat \<Rightarrow> Iter \<Rightarrow> bool" where
  "cursor data T R i it \<longleftrightarrow> (if i < length T then stands_at data T R i it
     else i = length T \<and> over data T R it \<and> it_current it = data_end T)"

lemma advance_restart_ok:
  assumes "layout data T R"
  shows "over data T R it \<Longrightarrow> it_current it = entry_offset T i \<Longrightarrow> i < length T \<Longrightarrow>
    it_restart_index it < length R \<Longrightarrow> R ! it_restart_index it \<le> i \<Longrightarrow>
    \<exists>index. advance_restart it = Some (it\<lparr>it_restart_index := index\<rparr>) \<and> index < length R \<and> R ! index \<le> i"
proof (induction it rule: advance_restart.induct)
  case (1 it)
  let ?k = "it_restart_index it"
  show ?case
  proof (cases "?k + 1 < length R")
    case True
    with 1(2) have point: "GetRestartPoint it (?k + 1) = Some (entry_offset T (R ! (?k + 1)))"
      by (intro layout_restart_point [OF assms]) (simp_all add: over_def)
    show ?thesis
    proof (cases "entry_offset T (R ! (?k + 1)) < it_current it")
      case less: True
      then have "R ! (?k + 1) \<le> i"
        using 1(3,4) restarts_le [of T R "?k + 1"] assms True by (simp add: entry_offset_less_iff layout_def)
      with 1(1) [OF _ point less] 1(2-) True less point show ?thesis
        by (subst advance_restart.simps) (simp add: over_def)
    next
      case False
      with 1(2-) True point show ?thesis
        by (subst advance_restart.simps) (auto simp: over_def intro!: exI [of _ ?k])
    qed
  next
    case False
    with 1(2-) show ?thesis
      by (subst advance_restart.simps) (auto simp: over_def intro!: exI [of _ ?k])
  qed
qed

lemma ParseNextKey_entry:
  assumes "layout data T R" "before data T R i it" "i < length T"
  shows "\<exists>it'. ParseNextKey it = Some (True, it') \<and> stands_at data T R i it'"
proof -
  note entry = layout_DecodeEntry [OF assms(1,3)]
  let ?e = "T ! i"
  let ?p = "entry_offset T i + length (entry_head ?e)"
  let ?n = "length (e_key ?e) - e_shared ?e"
  have it: "over data T R it" "NextEntryOffset it = Some (entry_offset T i)" "e_shared ?e \<le> length (it_key it)"
    "take (e_shared ?e) (it_key it) = take (e_shared ?e) (e_key ?e)"
    "it_restart_index it < length R" "R ! it_restart_index it \<le> i"
    using assms(2,3) by (simp_all add: before_def)
  define it1 where "it1 = it\<lparr>it_current := entry_offset T i, it_key := e_key ?e, it_value := Some (?p + ?n, length (e_value ?e))\<rparr>"
  have delta: "take ?n (drop ?p data) = drop (e_shared ?e) (e_key ?e)" by (simp add: entry(2))
  have key: "take (e_shared ?e) (it_key it) @ take ?n (drop ?p data) = e_key ?e"
    unfolding delta it(4) by simp
  have "data_end T \<le> length data" using assms(1) by (auto simp: layout_def length_block_bytes)
  then have inside: "?p + ?n + length (e_value ?e) \<le> length data" using entry(3,4) by linarith
  have "entry_offset T i < data_end T" using assms(3) by (simp add: entry_offset_less_iff)
  then have parse: "ParseNextKey it = map_option (Pair True) (advance_restart it1)"
    using it(1-3) inside key
    by (simp add: ParseNextKey_def it1_def over_def entry(1,5,6,7) Let_def not_less)
  have "over data T R it1" using it(1) by (simp add: over_def it1_def)
  from advance_restart_ok [OF assms(1) this, of i] obtain index where
    index: "advance_restart it1 = Some (it1\<lparr>it_restart_index := index\<rparr>)" "index < length R" "R ! index \<le> i"
    using assms(3) it(5,6) by (auto simp: it1_def)
  have "drop (?p + ?n) data = e_value ?e @ drop (entry_offset T (Suc i)) data"
    using entry(2) by (metis (no_types, lifting) add.commute append_eq_conv_conj drop_drop length_drop)
  then have "stands_at data T R i (it1\<lparr>it_restart_index := index\<rparr>)"
    using index(2,3) it(1) assms(3) entry(3)
    by (simp add: stands_at_def over_def it1_def iter_value_def NextEntryOffset_def)
  with parse index(1) show ?thesis by simp
qed

lemma ParseNextKey_end:
  assumes "layout data T R" "before data T R (length T) it"
  shows "\<exists>it'. ParseNextKey it = Some (False, it') \<and> cursor data T R (length T) it'"
  using assms by (simp add: ParseNextKey_def before_def cursor_def over_def Let_def)

lemma stands_at_before:
  assumes "layout data T R" "stands_at data T R i it"
  shows "before data T R (Suc i) it"
proof -
  have "chained T" using assms(1) by (simp add: layout_def)
  then have "e_shared (T ! Suc i) \<le> length (e_key (T ! i))
      \<and> take (e_shared (T ! Suc i)) (e_key (T ! i)) = take (e_shared (T ! Suc i)) (e_key (T ! Suc i))"
    if "Suc i < length T"
    using that unfolding chained_def by (cases "e_shared (T ! Suc i) = 0") (auto dest!: spec [of _ "Suc i"])
  with assms(2) show ?thesis by (auto simp: stands_at_def before_def)
qed

lemma SeekToRestartPoint_before:
  assumes "layout data T R" "over data T R it" "j < length R"
  shows "\<exists>it'. SeekToRestartPoint j it = Some it' \<and> before data T R (R ! j) it'"
proof -
  have "GetRestartPoint (it\<lparr>it_key := [], it_restart_index := j\<rparr>) j = Some (entry_offset T (R ! j))"
    using assms by (intro layout_restart_point) (simp_all add: over_def)
  moreover have "R ! j < length T \<longrightarrow> e_shared (T ! (R ! j)) = 0"
    using assms(1,3) restarts_entry [of T R j] by (auto simp: layout_def)
  moreover have "R ! j \<le> length T" using assms(1,3) by (simp add: restarts_le layout_def)
  ultimately show ?thesis
    using assms(2,3) by (simp add: SeekToRestartPoint_def before_def over_def NextEntryOffset_def)
qed

text \<open>Going on to the first entry from \<open>i\<close> on where the condition fails.\<close>

lemma parse_while_cursor:
  assumes "layout data T R" and "before data T R i it" and "i \<le> j" "j \<le> length T"
    and "\<And>l it. i \<le> l \<Longrightarrow> l < j \<Longrightarrow> stands_at data T R l it \<Longrightarrow> cond it"
    and "\<And>it. stands_at data T R j it \<Longrightarrow> \<not> cond it"
  shows "\<exists>it'. parse_while cond it = Some it' \<and> cursor data T R j it'"
  using assms(2-5)
proof (induction "j - i" arbitrary: i it)
  case 0
  show ?case
  proof (cases "j < length T")
    case True
    with 0 ParseNextKey_entry [OF assms(1), of j it] assms(6) show ?thesis
      by (auto simp: parse_while.simps [of _ it] cursor_def)
  next
    case False
    with 0 ParseNextKey_end [OF assms(1), of it] show ?thesis
      by (auto simp: parse_while.simps [of _ it])
  qed
next
  case (Suc d)
  then have i: "i < length T" "i < j" by linarith+
  with Suc.prems obtain it' where it': "ParseNextKey it = Some (True, it')" "stands_at data T R i it'"
    using ParseNextKey_entry [OF assms(1), of i it] by auto
  have "cond it'" by (rule Suc.prems(4) [OF order_refl i(2) it'(2)])
  moreover have "\<exists>it''. parse_while cond it' = Some it'' \<and> cursor data T R j it''"
  proof (rule Suc.hyps(1))
    show "d = j - Suc i" "Suc i \<le> j" "j \<le> length T" using Suc.hyps(2) i(2) Suc.prems(3) by auto
    show "before data T R (Suc i) it'" by (rule stands_at_before [OF assms(1) it'(2)])
    show "cond it" if "Suc i \<le> l" "l < j" "stands_at data T R l it" for l it
      using Suc.prems(4) [of l it] that by simp
  qed
  ultimately show ?case by (simp add: parse_while.simps [of _ it] it'(1))
qed

lemma cursor_over: "cursor data T R i it \<Longrightarrow> over data T R it"
  by (auto simp: cursor_def stands_at_def split: if_splits)

lemma SeekToFirst_cursor:
  assumes "layout data T R" "over data T R it"
  shows "\<exists>it'. SeekToFirst it = Some it' \<and> cursor data T R 0 it'"
proof -
  have R: "0 < length R" "R ! 0 = 0" using assms(1) by (auto simp: layout_def restarts_ok_def)
  from SeekToRestartPoint_before [OF assms R(1)] R(2) obtain it' where
    it': "SeekToRestartPoint 0 it = Some it'" "before data T R 0 it'" by auto
  show ?thesis
  proof (cases "T = []")
    case True
    with ParseNextKey_end [OF assms(1), of it'] it' show ?thesis by (auto simp: SeekToFirst_def)
  next
    case False
    with ParseNextKey_entry [OF assms(1) it'(2)] it' show ?thesis by (auto simp: SeekToFirst_def cursor_def)
  qed
qed

lemma Iter_Next_cursor:
  assumes "layout data T R" "cursor data T R i it" "i < length T"
  shows "\<exists>it'. Iter_Next it = Some it' \<and> cursor data T R (Suc i) it'"
proof -
  have b: "before data T R (Suc i) it"
    using assms(2,3) stands_at_before [OF assms(1)] by (simp add: cursor_def)
  show ?thesis
  proof (cases "Suc i = length T")
    case True
    with ParseNextKey_end [OF assms(1), of it] b show ?thesis by (auto simp: Iter_Next_def)
  next
    case False
    with ParseNextKey_entry [OF assms(1) b] assms(3) show ?thesis by (auto simp: Iter_Next_def cursor_def)
  qed
qed

lemma SeekToLast_cursor:
  assumes "layout data T R" "over data T R it"
  shows "\<exists>it'. SeekToLast it = Some it' \<and> cursor data T R (length T - 1) it'"
proof -
  let ?j = "length R - 1"
  have R: "?j < length R" "R \<noteq> []" using assms(1) by (auto simp: layout_def restarts_ok_def)
  have Rj: "R ! ?j < length T \<or> R ! ?j = 0 \<and> T = []"
    using assms(1) R(1) restarts_entry [of T R ?j] by (auto simp: layout_def)
  from SeekToRestartPoint_before [OF assms R(1)] obtain it' where
    it': "SeekToRestartPoint ?j it = Some it'" "before data T R (R ! ?j) it'" by auto
  have "\<exists>it''. parse_while (\<lambda>it. the (NextEntryOffset it) < it_restarts it) it' = Some it''
      \<and> cursor data T R (length T - 1) it''"
  proof (rule parse_while_cursor [OF assms(1) it'(2)])
    show "R ! ?j \<le> length T - 1" using Rj by auto
    show "the (NextEntryOffset it) < it_restarts it" if "l < length T - 1" "stands_at data T R l it" for l it
      using that by (simp add: stands_at_def over_def entry_offset_less_iff)
    show "\<not> the (NextEntryOffset it) < it_restarts it" if "stands_at data T R (length T - 1) it" for it
    proof -
      have "Suc (length T - 1) = length T" using that by (auto simp: stands_at_def)
      with that show ?thesis by (simp add: stands_at_def over_def)
    qed
  qed simp
  with it'(1) assms(2) show ?thesis by (simp add: SeekToLast_def over_def)
qed

lemma restart_before_cursor:
  assumes "layout data T R" "over data T R it" "i \<le> length T"
  shows "index < length R \<Longrightarrow> if i = 0 then restart_before it (entry_offset T i) index = Some None
    else \<exists>j. restart_before it (entry_offset T i) index = Some (Some j) \<and> j < length R \<and> R ! j < i"
proof (induction index)
  case 0
  have "R ! 0 = 0" using assms(1) by (simp add: layout_def restarts_ok_def)
  moreover have "GetRestartPoint it 0 = Some (entry_offset T (R ! 0))"
    using assms(2) 0 by (intro layout_restart_point [OF assms(1)]) (simp_all add: over_def)
  moreover have "i \<noteq> 0 \<Longrightarrow> 0 < entry_offset T i"
    using entry_offset_less [of 0 i T] assms(3) by simp
  ultimately show ?case using 0 by (cases "i = 0") (simp_all add: restart_before.simps [of it _ 0])
next
  case (Suc index)
  have "GetRestartPoint it (Suc index) = Some (entry_offset T (R ! Suc index))"
    using assms(2) Suc(2) by (intro layout_restart_point [OF assms(1)]) (simp_all add: over_def)
  moreover have "entry_offset T i \<le> entry_offset T (R ! Suc index) \<longleftrightarrow> i \<le> R ! Suc index"
    using entry_offset_less_iff [of "R ! Suc index" T i] restarts_le [of T R "Suc index"] assms(1,3) Suc(2)
    by (simp add: layout_def not_less [symmetric])
  ultimately show ?case
    using Suc by (auto simp: restart_before.simps [of it _ "Suc index"])
qed

lemma Iter_Prev_cursor:
  assumes "layout data T R" "cursor data T R i it" "i < length T"
  shows "\<exists>it'. Iter_Prev it = Some it' \<and> cursor data T R (if i = 0 then length T else i - 1) it'"
proof -
  have it: "over data T R it" "it_current it = entry_offset T i" "it_restart_index it < length R"
    using assms(2,3) by (simp_all add: cursor_def stands_at_def)
  note prior = restart_before_cursor [OF assms(1) it(1) _ it(3), of i]
  show ?thesis
  proof (cases "i = 0")
    case True
    with prior it show ?thesis by (simp add: Iter_Prev_def cursor_def over_def Let_def)
  next
    case False
    with prior assms(3) obtain j where j: "restart_before it (entry_offset T i) (it_restart_index it) = Some (Some j)"
      "j < length R" "R ! j < i" by auto
    from SeekToRestartPoint_before [OF assms(1) it(1) j(2)] obtain it' where
      it': "SeekToRestartPoint j it = Some it'" "before data T R (R ! j) it'" by blast
    have "\<exists>it''. parse_while (\<lambda>it. the (NextEntryOffset it) < entry_offset T i) it' = Some it''
        \<and> cursor data T R (i - 1) it''"
    proof (rule parse_while_cursor [OF assms(1) it'(2)])
      show "R ! j \<le> i - 1" "i - 1 \<le> length T" using j(3) assms(3) by auto
      show "the (NextEntryOffset it) < entry_offset T i" if "l < i - 1" "stands_at data T R l it" for l it
        using that assms(3) by (simp add: stands_at_def entry_offset_less_iff)
      show "\<not> the (NextEntryOffset it) < entry_offset T i" if "stands_at data T R (i - 1) it" for it
        using that False by (simp add: stands_at_def)
    qed
    with it'(1) j(1) it(2) False show ?thesis by (simp add: Iter_Prev_def Let_def)
  qed
qed

text \<open>The binary search ends at a restart point with a key before the target, or at the first one.\<close>

lemma restart_search_cursor:
  assumes "layout data T R" "over data T R it"
  shows "left \<le> right \<Longrightarrow> right < length R \<Longrightarrow>
    left = 0 \<or> Compare (e_key (T ! (R ! left))) target < 0 \<Longrightarrow>
    \<exists>index. restart_search Compare target it left right = Some (Inr index) \<and> index < length R
      \<and> (index = 0 \<or> Compare (e_key (T ! (R ! index))) target < 0)"
proof (induction "right - left" arbitrary: left right rule: less_induct)
  case less
  show ?case
  proof (cases "left < right")
    case False
    with less.prems show ?thesis by (subst restart_search.simps) simp
  next
    case True
    define mid where "mid = (left + right + 1) div 2"
    have mid: "left < mid" "mid \<le> right" "mid < length R" using True less.prems(2) by (auto simp: mid_def)
    have point: "GetRestartPoint it mid = Some (entry_offset T (R ! mid))"
      using assms(2) mid(3) by (intro layout_restart_point [OF assms(1)]) (auto simp: over_def)
    let ?e = "T ! (R ! mid)"
    have r: "R ! mid < length T" "e_shared ?e = 0"
      using restarts_entry [of T R mid] mid assms(1) by (auto simp: layout_def)
    note entry = layout_DecodeEntry [OF assms(1) r(1)]
    let ?p = "entry_offset T (R ! mid) + length (entry_head ?e)"
    have key: "take (length (e_key ?e)) (drop ?p data) = e_key ?e" using entry(2) r(2) by simp
    have "data_end T \<le> length data" using assms(1) by (auto simp: layout_def length_block_bytes)
    then have inside: "?p + length (e_key ?e) \<le> length data" using entry(3,4) r(2) by linarith
    have step: "restart_search Compare target it left right =
        (if Compare (e_key ?e) target < 0 then restart_search Compare target it mid right
         else restart_search Compare target it left (mid - 1))"
      using assms(2) True r(2) entry(1,6) point inside key
      by (subst restart_search.simps, fold mid_def) (simp add: over_def Let_def not_less)
    show ?thesis
    proof (cases "Compare (e_key ?e) target < 0")
      case True
      with step mid less.prems(2) less.hyps [of right mid] show ?thesis by simp
    next
      case False
      with step mid less.prems less.hyps [of "mid - 1" left] show ?thesis by simp
    qed
  qed
qed

lemma Seek_cursor:
  assumes "layout data T R" "over data T R it"
    and sorted: "\<And>l j. l < j \<Longrightarrow> j < length T \<Longrightarrow> Compare (e_key (T ! j)) target < 0 \<Longrightarrow> Compare (e_key (T ! l)) target < 0"
    and j: "j \<le> length T" "\<And>l. l < j \<Longrightarrow> Compare (e_key (T ! l)) target < 0"
      "j < length T \<Longrightarrow> \<not> Compare (e_key (T ! j)) target < 0"
  shows "\<exists>it'. Seek Compare target it = Some it' \<and> cursor data T R j it'"
proof -
  have R: "0 < length R" "R ! 0 = 0" using assms(1) by (auto simp: layout_def restarts_ok_def)
  from restart_search_cursor [OF assms(1,2), of 0 "length R - 1" Compare target] R(1) obtain index where
    index: "restart_search Compare target it 0 (length R - 1) = Some (Inr index)" "index < length R"
    "index = 0 \<or> Compare (e_key (T ! (R ! index))) target < 0" by auto
  from SeekToRestartPoint_before [OF assms(1,2) index(2)] obtain it' where
    it': "SeekToRestartPoint index it = Some it'" "before data T R (R ! index) it'" by blast
  have start: "R ! index \<le> j"
  proof (rule ccontr)
    assume "\<not> R ! index \<le> j"
    then have "j < R ! index" by simp
    moreover from this have "index \<noteq> 0" using R(2) by (metis not_less_zero)
    moreover have "R ! index < length T"
      using restarts_entry [of T R index] index(2) assms(1) \<open>index \<noteq> 0\<close> by (auto simp: layout_def)
    ultimately show False using sorted [of j "R ! index"] index(3) j(3) by auto
  qed
  have "\<exists>it''. parse_while (\<lambda>it. Compare (it_key it) target < 0) it' = Some it'' \<and> cursor data T R j it''"
    by (rule parse_while_cursor [OF assms(1) it'(2) start j(1)]) (use j in \<open>auto simp: stands_at_def\<close>)
  with index(1) it'(1) assms(2) show ?thesis by (simp add: Seek_def over_def)
qed

subsection \<open>The builder\<close>

lemma shared_prefix_le: "shared_prefix a b \<le> length a" "shared_prefix a b \<le> length b"
  and take_shared_prefix: "take (shared_prefix a b) a = take (shared_prefix a b) b"
  by (induction a b rule: shared_prefix.induct) auto

definition built :: "BlockBuilder \<Rightarrow> entry list \<Rightarrow> nat list \<Rightarrow> bool" where
  "built b T R \<longleftrightarrow> bb_buffer b = concat (map entry_bytes T)
     \<and> bb_restarts b = map (\<lambda>r. of_nat (entry_offset T r)) R
     \<and> bb_last_key b = (if T = [] then [] else e_key (last T)) \<and> (T = [] \<longrightarrow> bb_counter b = 0)
     \<and> chained T \<and> restarts_ok T R"

lemma built_new: "built new_BlockBuilder [] [0]"
  by (simp add: built_def new_BlockBuilder_def chained_def restarts_ok_def)

lemma entry_offset_snoc: "r \<le> length T \<Longrightarrow> entry_offset (T @ [e]) r = entry_offset T r"
  by (simp add: entry_offset_def)

lemma chained_snoc:
  assumes "chained T" and "n \<le> length key"
    and "n \<noteq> 0 \<Longrightarrow> T \<noteq> [] \<and> n \<le> length (e_key (last T)) \<and> take n key = take n (e_key (last T))"
  shows "chained (T @ [(n, key, value)])"
  unfolding chained_def
proof (intro allI impI)
  fix i assume i: "i < length (T @ [(n, key, value)])"
  let ?T = "T @ [(n, key, value)]"
  show "e_shared (?T ! i) \<le> length (e_key (?T ! i)) \<and> (e_shared (?T ! i) \<noteq> 0 \<longrightarrow> i \<noteq> 0
      \<and> e_shared (?T ! i) \<le> length (e_key (?T ! (i - 1)))
      \<and> take (e_shared (?T ! i)) (e_key (?T ! i)) = take (e_shared (?T ! i)) (e_key (?T ! (i - 1))))"
  proof (cases "i < length T")
    case True
    then have "i - 1 < length T" by simp
    with True assms(1) show ?thesis unfolding chained_def by (simp add: nth_append)
  next
    case False
    with i have "i = length T" by simp
    moreover have "T \<noteq> [] \<Longrightarrow> ?T ! (length T - 1) = last T" by (simp add: nth_append last_conv_nth)
    ultimately show ?thesis using assms(2,3) by (cases "n = 0") auto
  qed
qed

lemma BlockBuilder_Add_built:
  assumes "built b T R" "0 < interval"
  shows "\<exists>n R'. built (BlockBuilder_Add interval key value b) (T @ [(n, key, value)]) R'"
proof -
  define n where "n = (if bb_counter b < interval then shared_prefix (bb_last_key b) key else 0)"
  define R' where "R' = (if bb_counter b < interval then R else R @ [length T])"
  let ?T = "T @ [(n, key, value)]"
  note b = assms(1) [unfolded built_def]
  have n: "n \<le> length key" "take n (bb_last_key b) = take n key" "n \<le> length (bb_last_key b)"
    using shared_prefix_le take_shared_prefix by (auto simp: n_def)
  have chained: "chained ?T"
    using b n by (intro chained_snoc) (auto split: if_splits)
  have R: "r \<le> length T" if "r \<in> set R" for r
    using restarts_le [of T R] b that by (auto simp: in_set_conv_nth)
  have "restarts_ok ?T R'"
  proof (cases "T = []")
    case True
    with b assms(2) have "R = [0]" "R' = [0]" "n = 0"
      by (simp_all add: restarts_ok_def R'_def n_def)
    with True show ?thesis by (simp add: restarts_ok_def)
  next
    case False
    with b R show ?thesis by (auto simp: restarts_ok_def R'_def n_def nth_append)
  qed
  moreover have "map (\<lambda>r. of_nat (entry_offset ?T r)) R' =
      (if bb_counter b < interval then bb_restarts b else bb_restarts b @ [of_nat (length (bb_buffer b))])"
    using b R by (simp add: R'_def entry_offset_snoc) (simp add: entry_offset_def)
  moreover have "\<exists>c. BlockBuilder_Add interval key value b = b\<lparr>bb_buffer := bb_buffer b @ entry_bytes (n, key, value),
      bb_restarts := (if bb_counter b < interval then bb_restarts b else bb_restarts b @ [of_nat (length (bb_buffer b))]),
      bb_counter := c, bb_last_key := key\<rparr>"
  proof (cases "bb_counter b < interval")
    case True
    then have nn: "n = shared_prefix (bb_last_key b) key" by (simp add: n_def)
    have "take n (bb_last_key b) @ drop n key = key" using n(2) by simp
    with True show ?thesis
      by (auto simp: BlockBuilder_Add_def Let_def PutVarint32_def entry_bytes_def entry_head_def nn)
  next
    case False
    then have "n = 0" by (simp add: n_def)
    with False show ?thesis
      by (auto simp: BlockBuilder_Add_def Let_def PutVarint32_def entry_bytes_def entry_head_def)
  qed
  ultimately have "built (BlockBuilder_Add interval key value b) ?T R'"
    using chained b by (auto simp: built_def)
  then show ?thesis by blast
qed

text \<open>Adding all entries of a list.\<close>

definition build_block :: "nat \<Rightarrow> (bytes \<times> bytes) list \<Rightarrow> bytes" where
  "build_block interval es =
     fst (BlockBuilder_Finish (fold (\<lambda>(key, value). BlockBuilder_Add interval key value) es new_BlockBuilder))"

lemma fold_Add_built:
  assumes "0 < interval"
  shows "built b T R \<Longrightarrow>
    \<exists>T' R'. built (fold (\<lambda>(key, value). BlockBuilder_Add interval key value) es b) (T @ T') R' \<and> map snd T' = es"
proof (induction es arbitrary: b T R)
  case Nil
  then show ?case by (intro exI [of _ "[]"] exI [of _ R]) simp
next
  case (Cons e es)
  obtain key v where e: "e = (key, v)" by force
  from BlockBuilder_Add_built [OF Cons.prems assms, of key v] obtain n R1 where
    "built (BlockBuilder_Add interval key v b) (T @ [(n, key, v)]) R1" by blast
  from Cons.IH [OF this] obtain T' R' where
    "built (fold (\<lambda>(key, value). BlockBuilder_Add interval key value) es (BlockBuilder_Add interval key v b))
      (T @ (n, key, v) # T') R'" "map snd T' = es" by auto
  then show ?case by (intro exI [of _ "(n, key, v) # T'"] exI [of _ R']) (simp add: e)
qed

lemma build_block_layout:
  assumes "0 < interval" "length (build_block interval es) < 2 ^ 32"
  shows "\<exists>T R. layout (build_block interval es) T R \<and> map snd T = es"
proof -
  from fold_Add_built [OF assms(1) built_new, of es] obtain T R where
    b: "built (fold (\<lambda>(key, value). BlockBuilder_Add interval key value) es new_BlockBuilder) T R" "map snd T = es"
    by auto
  then have "build_block interval es = block_bytes T R"
    by (simp add: build_block_def BlockBuilder_Finish_def Let_def PutFixed32_def fold_PutFixed32 built_def
        block_bytes_def comp_def)
  with b assms(2) show ?thesis unfolding layout_def built_def by metis
qed

subsection \<open>A corrupt block\<close>

text \<open>\<open>DecodeEntry\<close> adds the two lengths in 32 bits. In this block, with a length of \<open>2 ^ 32 - 1\<close> and one of 1, the sum
  is 0 and the entry is taken, so that the iterator would read far behind the block.\<close>

lemma DecodeEntry_wraps:
  "DecodeEntry [0, 0xff, 0xff, 0xff, 0xff, 0x0f, 1, 0, 0, 0, 0, 1, 0, 0, 0] 0 7 = Some (0, 0xffffffff, 1, 7)"
  by (simp add: DecodeEntry_def GetVarint32Ptr_def GetVarint32PtrFallback_def Let_def)

lemma seven: "7 = Suc (Suc (Suc (Suc (Suc (Suc (Suc 0))))))"
  by simp

lemma SeekToFirst_outside:
  "let block = new_Block [0, 0xff, 0xff, 0xff, 0xff, 0x0f, 1, 0, 0, 0, 0, 1, 0, 0, 0] in
     \<exists>it. NewIterator block = BlockIterator it \<and> SeekToFirst it = None"
  by (simp add: NewIterator_def new_Block_def NumRestarts_def new_Iter_def SeekToFirst_def SeekToRestartPoint_def
      GetRestartPoint_def ParseNextKey_def NextEntryOffset_def Let_def
      DecodeEntry_wraps [unfolded seven])

subsection \<open>Properties\<close>

text \<open>An iterator over the block of the entries \<open>es\<close>, and one that shows entry \<open>i\<close>, or none for the number of
  entries.\<close>

definition block_over :: "bytes \<Rightarrow> (bytes \<times> bytes) list \<Rightarrow> Iter \<Rightarrow> bool" where
  "block_over contents es it \<longleftrightarrow> (\<exists>T R. layout contents T R \<and> map snd T = es \<and> over contents T R it)"

definition block_cursor :: "bytes \<Rightarrow> (bytes \<times> bytes) list \<Rightarrow> nat \<Rightarrow> Iter \<Rightarrow> bool" where
  "block_cursor contents es i it \<longleftrightarrow> (\<exists>T R. layout contents T R \<and> map snd T = es \<and> cursor contents T R i it)"

lemma block_over_op:
  assumes "block_over contents es it"
    and "\<And>T R. layout contents T R \<Longrightarrow> map snd T = es \<Longrightarrow> over contents T R it \<Longrightarrow>
      \<exists>it'. x = Some it' \<and> cursor contents T R i it'"
  shows "\<exists>it'. x = Some it' \<and> block_cursor contents es i it'"
  using assms unfolding block_over_def block_cursor_def by metis

lemma block_cursor_op:
  assumes "block_cursor contents es i it"
    and "\<And>T R. layout contents T R \<Longrightarrow> map snd T = es \<Longrightarrow> cursor contents T R i it \<Longrightarrow>
      \<exists>it'. x = Some it' \<and> cursor contents T R j it'"
  shows "\<exists>it'. x = Some it' \<and> block_cursor contents es j it'"
  using assms unfolding block_cursor_def by metis

lemma block_cursor_shows:
  assumes "block_cursor contents es i it"
  shows "block_over contents es it" "ok (it_status it)" "Valid it \<longleftrightarrow> i < length es" "i \<le> length es"
    "i < length es \<Longrightarrow> it_key it = fst (es ! i) \<and> iter_value it = snd (es ! i)"
proof -
  obtain T R where T: "layout contents T R" "map snd T = es" "cursor contents T R i it"
    using assms unfolding block_cursor_def by blast
  have len: "length T = length es" using T(2) by auto
  show "block_over contents es it" using T cursor_over unfolding block_over_def by blast
  show "ok (it_status it)" using cursor_over [OF T(3)] by (simp add: over_def)
  have "Valid it = (i < length es) \<and> i \<le> length es"
  proof (cases "i < length T")
    case True
    then have "it_current it = entry_offset T i" "it_restarts it = data_end T"
      using T(3) by (simp_all add: cursor_def stands_at_def over_def)
    with True show ?thesis using entry_offset_less_iff [of i T "length T"] len by (simp add: Valid_def)
  next
    case False
    with T(3) have "i = length T" "it_current it = data_end T" "it_restarts it = data_end T"
      by (simp_all add: cursor_def over_def)
    then show ?thesis using len by (simp add: Valid_def)
  qed
  then show "Valid it \<longleftrightarrow> i < length es" "i \<le> length es" by simp_all
  show "it_key it = fst (es ! i) \<and> iter_value it = snd (es ! i)" if "i < length es"
  proof -
    have "es ! i = snd (T ! i)" unfolding T(2) [symmetric] using that len by (intro nth_map) simp
    moreover have "stands_at contents T R i it" using T(3) that len by (simp add: cursor_def)
    ultimately show ?thesis by (simp add: stands_at_def)
  qed
qed

lemma NewIterator_over:
  assumes "0 < interval" "length (build_block interval es) < 2 ^ 32"
  shows "\<exists>it. NewIterator (new_Block (build_block interval es)) = BlockIterator it
    \<and> block_over (build_block interval es) es it"
proof -
  let ?c = "build_block interval es"
  from build_block_layout [OF assms] obtain T R where T: "layout ?c T R" "map snd T = es" by blast
  let ?it = "new_Iter ?c (data_end T) (length R)"
  have "0 < length R" using T(1) by (simp add: layout_def restarts_ok_def)
  moreover have "4 \<le> length ?c" using T(1) by (auto simp: layout_def length_block_bytes)
  ultimately have "NewIterator (new_Block ?c) = BlockIterator ?it"
    using layout_num_restarts [OF T(1)] by (simp add: NewIterator_def)
  moreover have "over ?c T R ?it" by (simp add: over_def new_Iter_def)
  ultimately show ?thesis using T unfolding block_over_def by blast
qed

lemma block_SeekToFirst: "block_over contents es it \<Longrightarrow> \<exists>it'. SeekToFirst it = Some it' \<and> block_cursor contents es 0 it'"
  by (erule block_over_op) (rule SeekToFirst_cursor)

lemma block_SeekToLast:
  "block_over contents es it \<Longrightarrow> \<exists>it'. SeekToLast it = Some it' \<and> block_cursor contents es (length es - 1) it'"
  by (erule block_over_op) (use SeekToLast_cursor in fastforce)

lemma block_Next:
  "block_cursor contents es i it \<Longrightarrow> i < length es \<Longrightarrow> \<exists>it'. Iter_Next it = Some it' \<and> block_cursor contents es (i + 1) it'"
  by (erule block_cursor_op) (use Iter_Next_cursor in fastforce)

lemma block_Prev:
  "block_cursor contents es i it \<Longrightarrow> i < length es \<Longrightarrow>
    \<exists>it'. Iter_Prev it = Some it' \<and> block_cursor contents es (if i = 0 then length es else i - 1) it'"
  by (erule block_cursor_op) (use Iter_Prev_cursor in fastforce)

text \<open>C30: The iterator over a finished block is a cursor over the entries that were added. It starts over the
  block, \<open>SeekToFirst\<close> and \<open>SeekToLast\<close> bring it to the ends, \<open>Next\<close> and \<open>Prev\<close> to the neighbours, and
  where it stands it shows key and value of the entry with an OK status.\<close>

theorem ldb_block_iterator:
  assumes "0 < interval" and "length (build_block interval es) < 2 ^ 32"
  defines "shows_entry \<equiv> block_cursor (build_block interval es) es"
  shows "(\<exists>it. NewIterator (new_Block (build_block interval es)) = BlockIterator it
      \<and> block_over (build_block interval es) es it)
    \<and> (block_over (build_block interval es) es it \<longrightarrow>
        (\<exists>it'. SeekToFirst it = Some it' \<and> shows_entry 0 it')
        \<and> (\<exists>it'. SeekToLast it = Some it' \<and> shows_entry (length es - 1) it'))
    \<and> (shows_entry i it \<longrightarrow> ok (it_status it) \<and> Valid it = (i < length es))
    \<and> (shows_entry i it \<and> i < length es \<longrightarrow> it_key it = fst (es ! i) \<and> iter_value it = snd (es ! i)
        \<and> (\<exists>it'. Iter_Next it = Some it' \<and> shows_entry (i + 1) it')
        \<and> (\<exists>it'. Iter_Prev it = Some it' \<and> shows_entry (if i = 0 then length es else i - 1) it'))"
proof (intro conjI impI; (elim conjE)?)
  let ?c = "build_block interval es"
  show "\<exists>it. NewIterator (new_Block ?c) = BlockIterator it \<and> block_over ?c es it"
    by (rule NewIterator_over [OF assms(1,2)])
  show "\<exists>it'. SeekToFirst it = Some it' \<and> shows_entry 0 it'"
    "\<exists>it'. SeekToLast it = Some it' \<and> shows_entry (length es - 1) it'" if "block_over ?c es it"
    unfolding shows_entry_def by (rule block_SeekToFirst [OF that] block_SeekToLast [OF that])+
  assume at_i: "shows_entry i it"
  note it = block_cursor_shows [OF at_i [unfolded shows_entry_def]]
  show "ok (it_status it)" "Valid it = (i < length es)" by (rule it)+
  assume i: "i < length es"
  show "it_key it = fst (es ! i)" "iter_value it = snd (es ! i)" using it(5) i by simp_all
  show "\<exists>it'. Iter_Next it = Some it' \<and> shows_entry (i + 1) it'"
    "\<exists>it'. Iter_Prev it = Some it' \<and> shows_entry (if i = 0 then length es else i - 1) it'"
    using block_Next [OF at_i [unfolded shows_entry_def] i] block_Prev [OF at_i [unfolded shows_entry_def] i]
    unfolding shows_entry_def by simp_all
qed

lemma ldb_block_iterator_witness:
  "\<exists>it it'. NewIterator (new_Block (build_block 1 [([1], [2, 3])])) = BlockIterator it
    \<and> SeekToFirst it = Some it' \<and> it_key it' = [1] \<and> iter_value it' = [2, 3]"
proof -
  have size: "length (build_block 1 [([1], [2, 3])]) < 2 ^ 32"
    by (simp add: build_block_def BlockBuilder_Finish_def BlockBuilder_Add_def new_BlockBuilder_def Let_def
        PutVarint32_def EncodeVarint32_def PutFixed32_def)
  note block = ldb_block_iterator [OF zero_less_one size]
  obtain it where it: "NewIterator (new_Block (build_block 1 [([1], [2, 3])])) = BlockIterator it"
    "block_over (build_block 1 [([1], [2, 3])]) [([1], [2, 3])] it"
    using block [THEN conjunct1] by blast
  obtain it' where it': "SeekToFirst it = Some it'"
    "block_cursor (build_block 1 [([1], [2, 3])]) [([1], [2, 3])] 0 it'"
    using block [of it, THEN conjunct2, THEN conjunct1] it(2) by blast
  have "it_key it' = [1] \<and> iter_value it' = [2, 3]"
    using block [of it' 0, THEN conjunct2, THEN conjunct2, THEN conjunct2] it'(2) by simp
  with it(1) it'(1) show ?thesis by blast
qed

text \<open>The search, for keys that ascend in a transitive order.\<close>

lemma block_Seek:
  assumes "block_over contents es it"
    and trans: "\<And>a b. a \<in> set es \<Longrightarrow> b \<in> set es \<Longrightarrow> Compare (fst a) (fst b) < 0 \<Longrightarrow> Compare (fst b) target < 0 \<Longrightarrow>
      Compare (fst a) target < 0"
    and ascend: "sorted_wrt (\<lambda>a b. Compare (fst a) (fst b) < 0) es"
  shows "\<exists>it'. Seek Compare target it = Some it'
    \<and> block_cursor contents es (length (takeWhile (\<lambda>e. Compare (fst e) target < 0) es)) it'"
proof (rule block_over_op [OF assms(1)])
  fix T R
  assume T: "layout contents T R" "map snd T = es" "over contents T R it"
  let ?P = "\<lambda>e. Compare (fst e) target < 0"
  let ?j = "length (takeWhile ?P es)"
  have key: "e_key (T ! l) = fst (es ! l)" if "l < length T" for l
    using that T(2) by (auto simp: case_prod_beta)
  have len: "length T = length es" using T(2) by auto
  show "\<exists>it'. Seek Compare target it = Some it' \<and> cursor contents T R ?j it'"
  proof (rule Seek_cursor [OF T(1,3)])
    show "Compare (e_key (T ! l)) target < 0" if "l < j" "j < length T" "Compare (e_key (T ! j)) target < 0" for l j
      using trans [of "es ! l" "es ! j"] that sorted_wrt_nth_less [OF ascend, of l j] key [of l] key [of j] len by simp
    show "?j \<le> length T" using len by (simp add: length_takeWhile_le)
    show "Compare (e_key (T ! l)) target < 0" if "l < ?j" for l
      using that nth_mem [OF that] takeWhile_nth [OF that] key [of l] len
        length_takeWhile_le [of ?P es] by (auto dest!: set_takeWhileD)
    show "\<not> Compare (e_key (T ! ?j)) target < 0" if "?j < length T"
      using nth_length_takeWhile [of ?P es] that key [of ?j] len by simp
  qed
qed

text \<open>C31: A search in a block whose keys ascend in a comparator, restart points and shared prefixes
  included, brings the iterator to the first entry with a key not before the target.\<close>

theorem ldb_block_seek:
  assumes "0 < interval" and "length (build_block interval es) < 2 ^ 32"
    and "comparator Compare separator successor valid" and "\<forall>(key, value)\<in>set es. valid key" and "valid target"
    and "sorted_wrt (\<lambda>a b. Compare (fst a) (fst b) < 0) es"
    and "block_over (build_block interval es) es it"
  shows "\<exists>it'. Seek Compare target it = Some it'
    \<and> block_cursor (build_block interval es) es (length (takeWhile (\<lambda>(key, value). Compare key target < 0) es)) it'"
proof -
  have "\<exists>it'. Seek Compare target it = Some it'
    \<and> block_cursor (build_block interval es) es (length (takeWhile (\<lambda>e. Compare (fst e) target < 0) es)) it'"
  proof (rule block_Seek [OF assms(7) _ assms(6)])
    fix a b assume "a \<in> set es" "b \<in> set es"
    then have "valid (fst a)" "valid (fst b)" using assms(4) by auto
    then show "Compare (fst a) (fst b) < 0 \<Longrightarrow> Compare (fst b) target < 0 \<Longrightarrow> Compare (fst a) target < 0"
      using comparator.Compare_trans [OF assms(3) _ _ assms(5)] by blast
  qed
  then show ?thesis by (simp add: case_prod_unfold)
qed

lemma ldb_block_seek_witness:
  "\<exists>it it'. NewIterator (new_Block (build_block 1 [([1], [2]), ([3], [4])])) = BlockIterator it
    \<and> Seek Slice_compare [2] it = Some it' \<and> it_key it' = [3] \<and> iter_value it' = [4]"
proof -
  let ?es = "[([1], [2]), ([3], [4])] :: (bytes \<times> bytes) list"
  have size: "length (build_block 1 ?es) < 2 ^ 32"
    by (simp add: build_block_def BlockBuilder_Finish_def BlockBuilder_Add_def new_BlockBuilder_def Let_def
        PutVarint32_def EncodeVarint32_def PutFixed32_def)
  obtain it where it: "NewIterator (new_Block (build_block 1 ?es)) = BlockIterator it"
    "block_over (build_block 1 ?es) ?es it"
    using NewIterator_over [OF zero_less_one size] by blast
  have "\<exists>it'. Seek Slice_compare [2] it = Some it'
      \<and> block_cursor (build_block 1 ?es) ?es (length (takeWhile (\<lambda>(key, value). Slice_compare key [2] < 0) ?es)) it'"
    by (rule ldb_block_seek [OF zero_less_one size bytewise.comparator_axioms _ _ _ it(2)]) simp_all
  then obtain it' where it': "Seek Slice_compare [2] it = Some it'" "block_cursor (build_block 1 ?es) ?es 1 it'"
    by auto
  from block_cursor_shows(5) [OF it'(2)] it it' show ?thesis by auto
qed

end
