(* ===== verification/Ldb_Skiplist.thy ===== *)
theory Ldb_Skiplist imports Ldb_Coding begin

text \<open>
  The skip list of the memtable, \<open>db/skiplist.h\<close>, with the random numbers of \<open>util/random.h\<close> that choose the
  heights. Nodes have numbers in the order of their allocation, the head is node 0. The code lets readers run
  beside one writer; the model has single operations. \<open>None\<close> is a read of a link that a node does not have,
  of an entry of \<open>prev\<close> that was not set, or a search that does not end.
\<close>

subsection \<open>Random numbers\<close>

definition new_Random :: "u32 \<Rightarrow> u32" where
  "new_Random s = (let seed = s AND 0x7fffffff in if seed = 0 \<or> seed = 2147483647 then 1 else seed)"

text \<open>The next seed, which is also the number returned.\<close>

definition Random_Next :: "u32 \<Rightarrow> u32" where
  "Random_Next seed =
     (let product = (ucast seed :: u64) * 16807;
          seed = (ucast (drop_bit 31 product + (product AND 2147483647)) :: u32)
      in if 2147483647 < seed then seed - 2147483647 else seed)"

text \<open>The number and the next seed, for a positive \<open>n\<close>.\<close>

definition Random_Uniform :: "u32 \<Rightarrow> u32 \<Rightarrow> u32 \<times> u32" where
  "Random_Uniform n seed = (let seed = Random_Next seed in (seed mod n, seed))"

definition Random_OneIn :: "u32 \<Rightarrow> u32 \<Rightarrow> bool \<times> u32" where
  "Random_OneIn n seed = (let seed = Random_Next seed in (seed mod n = 0, seed))"

definition Random_Skewed :: "u32 \<Rightarrow> u32 \<Rightarrow> u32 \<times> u32" where
  "Random_Skewed max_log seed =
     (let (r, seed) = Random_Uniform (max_log + 1) seed in Random_Uniform (push_bit (unat r) 1) seed)"

subsection \<open>Nodes\<close>

definition kMaxHeight :: nat where
  "kMaxHeight = 12"

record 'k Node =
  node_key :: 'k
  node_next :: "nat option list"

record 'k SkipList =
  sl_nodes :: "'k Node list"
  sl_max_height :: nat
  sl_rnd :: u32

definition Next :: "'k SkipList \<Rightarrow> nat \<Rightarrow> nat \<Rightarrow> nat option option" where
  "Next sl level x =
     (if x < length (sl_nodes sl) \<and> level < length (node_next (sl_nodes sl ! x))
      then Some (node_next (sl_nodes sl ! x) ! level) else None)"

definition SetNext :: "nat \<Rightarrow> nat \<Rightarrow> nat option \<Rightarrow> 'k SkipList \<Rightarrow> 'k SkipList" where
  "SetNext level x y sl =
     sl\<lparr>sl_nodes := (sl_nodes sl)[x := (sl_nodes sl ! x)
       \<lparr>node_next := (node_next (sl_nodes sl ! x))[level := y]\<rparr>]\<rparr>"

text \<open>\<open>any_key\<close> is the key of the head, which nothing reads.\<close>

definition new_SkipList :: "'k \<Rightarrow> 'k SkipList" where
  "new_SkipList any_key =
     \<lparr>sl_nodes = [\<lparr>node_key = any_key, node_next = replicate kMaxHeight None\<rparr>], sl_max_height = 1,
      sl_rnd = new_Random 0xdeadbeef\<rparr>"

subsection \<open>Searches\<close>

type_synonym 'k compare = "'k \<Rightarrow> 'k \<Rightarrow> int"

definition key_of :: "'k SkipList \<Rightarrow> nat \<Rightarrow> 'k" where
  "key_of sl x = node_key (sl_nodes sl ! x)"

definition KeyIsAfterNode :: "'k compare \<Rightarrow> 'k SkipList \<Rightarrow> 'k \<Rightarrow> nat option \<Rightarrow> bool" where
  "KeyIsAfterNode compare sl key n = (case n of None \<Rightarrow> False | Some n \<Rightarrow> compare (key_of sl n) key < 0)"

partial_function (option) FindGreaterOrEqual_loop ::
  "'k compare \<Rightarrow> 'k SkipList \<Rightarrow> 'k \<Rightarrow> nat \<Rightarrow> nat \<Rightarrow> (nat \<rightharpoonup> nat) \<Rightarrow> (nat option \<times> (nat \<rightharpoonup> nat)) option" where
  "FindGreaterOrEqual_loop compare sl key x level prev =
     (case Next sl level x of
        None \<Rightarrow> None
      | Some succ \<Rightarrow>
          if KeyIsAfterNode compare sl key succ
          then FindGreaterOrEqual_loop compare sl key (the succ) level prev
          else if level = 0 then Some (succ, prev(level \<mapsto> x))
          else FindGreaterOrEqual_loop compare sl key x (level - 1) (prev(level \<mapsto> x)))"

definition FindGreaterOrEqual ::
  "'k compare \<Rightarrow> 'k SkipList \<Rightarrow> 'k \<Rightarrow> (nat option \<times> (nat \<rightharpoonup> nat)) option" where
  "FindGreaterOrEqual compare sl key = FindGreaterOrEqual_loop compare sl key 0 (sl_max_height sl - 1) Map.empty"

partial_function (option) FindLessThan_loop ::
  "'k compare \<Rightarrow> 'k SkipList \<Rightarrow> 'k \<Rightarrow> nat \<Rightarrow> nat \<Rightarrow> nat option" where
  "FindLessThan_loop compare sl key x level =
     (case Next sl level x of
        None \<Rightarrow> None
      | Some succ \<Rightarrow>
          if succ = None \<or> 0 \<le> compare (key_of sl (the succ)) key
          then if level = 0 then Some x else FindLessThan_loop compare sl key x (level - 1)
          else FindLessThan_loop compare sl key (the succ) level)"

definition FindLessThan :: "'k compare \<Rightarrow> 'k SkipList \<Rightarrow> 'k \<Rightarrow> nat option" where
  "FindLessThan compare sl key = FindLessThan_loop compare sl key 0 (sl_max_height sl - 1)"

partial_function (option) FindLast_loop :: "'k SkipList \<Rightarrow> nat \<Rightarrow> nat \<Rightarrow> nat option" where
  "FindLast_loop sl x level =
     (case Next sl level x of
        None \<Rightarrow> None
      | Some succ \<Rightarrow>
          if succ = None then if level = 0 then Some x else FindLast_loop sl x (level - 1)
          else FindLast_loop sl (the succ) level)"

definition FindLast :: "'k SkipList \<Rightarrow> nat option" where
  "FindLast sl = FindLast_loop sl 0 (sl_max_height sl - 1)"

definition Contains :: "'k compare \<Rightarrow> 'k SkipList \<Rightarrow> 'k \<Rightarrow> bool option" where
  "Contains compare sl key =
     map_option (\<lambda>(x, prev). case x of None \<Rightarrow> False | Some x \<Rightarrow> compare key (key_of sl x) = 0)
       (FindGreaterOrEqual compare sl key)"

subsection \<open>Insertion\<close>

function RandomHeight_loop :: "nat \<Rightarrow> u32 \<Rightarrow> nat \<times> u32" where
  "RandomHeight_loop height rnd =
     (if height < kMaxHeight
      then let rnd = Random_Next rnd in if rnd mod 4 = 0 then RandomHeight_loop (height + 1) rnd else (height, rnd)
      else (height, rnd))"
  by pat_completeness auto
termination by (relation "measure (\<lambda>(height, rnd). kMaxHeight - height)") auto

declare RandomHeight_loop.simps [simp del]

definition RandomHeight :: "u32 \<Rightarrow> nat \<times> u32" where
  "RandomHeight rnd = RandomHeight_loop 1 rnd"

definition link_level :: "nat \<Rightarrow> (nat \<rightharpoonup> nat) \<Rightarrow> nat \<Rightarrow> 'k SkipList \<Rightarrow> 'k SkipList option" where
  "link_level x prev i sl =
     (case prev i of
        None \<Rightarrow> None
      | Some p \<Rightarrow> map_option (\<lambda>succ. SetNext i p (Some x) (SetNext i x succ sl)) (Next sl i p))"

fun link_levels :: "nat \<Rightarrow> (nat \<rightharpoonup> nat) \<Rightarrow> nat list \<Rightarrow> 'k SkipList \<Rightarrow> 'k SkipList option" where
  "link_levels x prev [] sl = Some sl"
| "link_levels x prev (i # levels) sl =
     (case link_level x prev i sl of None \<Rightarrow> None | Some sl \<Rightarrow> link_levels x prev levels sl)"

definition Insert :: "'k compare \<Rightarrow> 'k \<Rightarrow> 'k SkipList \<Rightarrow> 'k SkipList option" where
  "Insert compare key sl =
     (case FindGreaterOrEqual compare sl key of
        None \<Rightarrow> None
      | Some (x, prev) \<Rightarrow>
          let (height, rnd) = RandomHeight (sl_rnd sl);
              sl = sl\<lparr>sl_rnd := rnd\<rparr>;
              (sl, prev) =
                (if sl_max_height sl < height
                 then (sl\<lparr>sl_max_height := height\<rparr>, fold (\<lambda>i prev. prev(i \<mapsto> 0)) [sl_max_height sl..<height] prev)
                 else (sl, prev));
              x = length (sl_nodes sl);
              sl = sl\<lparr>sl_nodes := sl_nodes sl @ [\<lparr>node_key = key, node_next = replicate height None\<rparr>]\<rparr>
          in link_levels x prev [0..<height] sl)"

subsection \<open>Iterator\<close>

text \<open>The iterator is its node, if it is valid.\<close>

type_synonym SkipIterator = "nat option"

definition SkipIterator_Next :: "'k SkipList \<Rightarrow> nat \<Rightarrow> SkipIterator option" where
  "SkipIterator_Next sl x = Next sl 0 x"

definition SkipIterator_Prev :: "'k compare \<Rightarrow> 'k SkipList \<Rightarrow> nat \<Rightarrow> SkipIterator option" where
  "SkipIterator_Prev compare sl x =
     map_option (\<lambda>y. if y = 0 then None else Some y) (FindLessThan compare sl (key_of sl x))"

definition SkipIterator_Seek :: "'k compare \<Rightarrow> 'k SkipList \<Rightarrow> 'k \<Rightarrow> SkipIterator option" where
  "SkipIterator_Seek compare sl target = map_option fst (FindGreaterOrEqual compare sl target)"

definition SkipIterator_SeekToFirst :: "'k SkipList \<Rightarrow> SkipIterator option" where
  "SkipIterator_SeekToFirst sl = Next sl 0 0"

definition SkipIterator_SeekToLast :: "'k SkipList \<Rightarrow> SkipIterator option" where
  "SkipIterator_SeekToLast sl = map_option (\<lambda>y. if y = 0 then None else Some y) (FindLast sl)"

end
