(* ===== verification/Ldb_Skiplist_Correct.thy ===== *)
theory Ldb_Skiplist_Correct imports Ldb_Skiplist "HOL-Library.Multiset" begin

text \<open>
  The skip list keeps its keys in order: each level is a path through the nodes that ascends, with the nodes of
  the level above among its own. The searches find their place in that order and \<open>Insert\<close> keeps it.
  \<open>key_order\<close> is what the list needs of the comparator: an order in which different keys may be equal.
\<close>

subsection \<open>Random numbers\<close>

lemma Random_Next_mod:
  assumes "0 < seed" "seed < 2147483647"
  shows "unat (Random_Next seed) = unat seed * 16807 mod (2 ^ 31 - 1)" and "0 < Random_Next seed"
    and "Random_Next seed < 2147483647"
proof -
  define m :: nat where "m = 2147483647"
  define pr :: u64 where "pr = ucast seed * 16807"
  define q where "q = unat seed * 16807 div 2 ^ 31"
  define r where "r = unat seed * 16807 mod 2 ^ 31"
  have s: "0 < unat seed" "unat seed < m" using assms by (simp_all add: word_less_nat_alt m_def)
  have "unat (ucast seed :: u64) = unat seed" by (simp add: unsigned_ucast_eq take_bit_nat_eq_self)
  then have pr: "unat pr = unat seed * 16807"
    using s(2) by (simp add: pr_def unat_word_ariths m_def)
  have q: "unat (drop_bit 31 pr) = q" by (simp add: unat_drop_bit_eq drop_bit_eq_div unat_div pr q_def)
  have "(2147483647 :: u64) = mask 31" by (simp add: mask_eq_exp_minus_1)
  then have "pr AND 2147483647 = take_bit 31 pr" by (simp only: take_bit_eq_mask)
  then have r: "unat (pr AND 2147483647) = r"
    by (simp only: unsigned_take_bit_eq) (simp add: take_bit_eq_mod pr r_def)
  have q_less: "q < 16807" using s(2) by (simp add: q_def m_def less_mult_imp_div_less)
  have r_le: "r \<le> m" by (simp add: r_def m_def less_Suc_eq_le flip: Suc_le_eq) 
  have prod: "unat seed * 16807 = q * m + (q + r)"
  proof -
    have "unat seed * 16807 = q * 2 ^ 31 + r" by (simp add: q_def r_def)
    then show ?thesis by (simp add: m_def)
  qed
  then have cong: "unat seed * 16807 mod m = (q + r) mod m" by simp
  have "coprime m 16807"
    by (simp add: m_def coprime_iff_gcd_eq_1 gcd_non_0_nat)
  then have "\<not> m dvd unat seed * 16807"
    using s by (auto simp: coprime_dvd_mult_left_iff dest: dvd_imp_le)
  then have nz: "(q + r) mod m \<noteq> 0" using cong by (metis mod_eq_0_iff_dvd)
  have "unat (drop_bit 31 pr + (pr AND 2147483647)) = q + r"
    using q_less r_le by (simp add: unat_word_ariths q r m_def)
  then have sum: "unat (ucast (drop_bit 31 pr + (pr AND 2147483647)) :: u32) = q + r"
    using q_less r_le by (simp add: unsigned_ucast_eq take_bit_nat_eq_self m_def)
  have "unat (Random_Next seed) = (if m < q + r then q + r - m else q + r)"
    using sum by (simp add: Random_Next_def Let_def pr_def [symmetric] word_less_nat_alt m_def unat_sub word_le_nat_alt)
  also have "\<dots> = (q + r) mod m"
    using q_less r_le nz by (auto simp: m_def mod_if)
  finally have res: "unat (Random_Next seed) = (q + r) mod m" .
  then show "unat (Random_Next seed) = unat seed * 16807 mod (2 ^ 31 - 1)" using cong by (simp add: m_def)
  show "0 < Random_Next seed" using res nz by (simp add: word_less_nat_alt)
  show "Random_Next seed < 2147483647" using res by (simp add: word_less_nat_alt m_def)
qed

subsection \<open>Paths and the invariant\<close>

text \<open>The nodes from a successor of \<open>x\<close> to the end.\<close>

primrec path :: "(nat \<Rightarrow> nat option option) \<Rightarrow> nat \<Rightarrow> nat list \<Rightarrow> bool" where
  "path succ x [] \<longleftrightarrow> succ x = Some None"
| "path succ x (y # ys) \<longleftrightarrow> succ x = Some (Some y) \<and> path succ y ys"

abbreviation last_of :: "nat list \<Rightarrow> nat" where
  "last_of xs \<equiv> last (0 # xs)"

lemma path_suffix: "path succ x (as @ bs) \<Longrightarrow> path succ (last (x # as)) bs"
  by (induction as arbitrary: x) auto

lemma path_cong:
  "path succ x xs \<Longrightarrow> (\<And>y. y = x \<or> y \<in> set xs \<Longrightarrow> succ' y = succ y) \<Longrightarrow> path succ' x xs"
  by (induction xs arbitrary: x) auto

text \<open>Putting a new node \<open>z\<close> behind \<open>as\<close>.\<close>

lemma path_insert:
  assumes "path succ x (as @ bs)" and "distinct (x # as @ bs)" and "z \<notin> set (x # as @ bs)"
    and "succ' z = succ (last (x # as))" "succ' (last (x # as)) = Some (Some z)"
    and "\<And>y. y \<in> set (x # as @ bs) \<Longrightarrow> y \<noteq> last (x # as) \<Longrightarrow> succ' y = succ y"
  shows "path succ' x (as @ z # bs)"
  using assms
proof (induction as arbitrary: x)
  case Nil
  have "path succ' z bs"
  proof (cases bs)
    case (Cons b bs')
    with Nil have "path succ b bs'" by simp
    then have "path succ' b bs'" by (rule path_cong) (use Nil Cons in auto)
    with Nil Cons show ?thesis by simp
  qed (use Nil in simp)
  with Nil show ?case by simp
next
  case (Cons a as)
  have "last (a # as) \<noteq> x" using Cons.prems(2) by (metis distinct.simps(2) last_in_set list.distinct(1) set_append UnI1 append_Cons)
  with Cons.prems have "succ' x = succ x" by auto
  moreover have "path succ' a (as @ z # bs)"
    by (rule Cons.IH) (use Cons.prems \<open>last (a # as) \<noteq> x\<close> in auto)
  ultimately show ?case using Cons.prems(1) by simp
qed

subsection \<open>Linking a node\<close>

lemma Next_SetNext:
  "Next (SetNext l x v sl) l' y = (if y = x \<and> l' = l \<and> Next sl l x \<noteq> None then Some v else Next sl l' y)"
  by (auto simp: Next_def SetNext_def nth_list_update)

lemma SetNext_same [simp]:
  "length (sl_nodes (SetNext l x v sl)) = length (sl_nodes sl)" "key_of (SetNext l x v sl) y = key_of sl y"
  "sl_max_height (SetNext l x v sl) = sl_max_height sl"
proof -
  show "key_of (SetNext l x v sl) y = key_of sl y"
    by (cases "x < length (sl_nodes sl)"; cases "y = x") (simp_all add: SetNext_def key_of_def list_update_beyond)
qed (simp_all add: SetNext_def)

lemma link_levels_ok:
  assumes "distinct ls" and "\<And>l. l \<in> set ls \<Longrightarrow> prev l = Some (p l) \<and> p l \<noteq> x \<and> Next sl l (p l) = Some (s l) \<and> Next sl l x \<noteq> None"
  shows "\<exists>sl'. link_levels x prev ls sl = Some sl' \<and> length (sl_nodes sl') = length (sl_nodes sl)
    \<and> key_of sl' = key_of sl \<and> sl_max_height sl' = sl_max_height sl
    \<and> (\<forall>l y. Next sl' l y = (if l \<in> set ls \<and> y = x then Some (s l)
          else if l \<in> set ls \<and> y = p l then Some (Some x) else Next sl l y))"
  using assms
proof (induction ls arbitrary: sl)
  case (Cons i ls)
  from Cons.prems(2) [of i] have i: "prev i = Some (p i)" "p i \<noteq> x" "Next sl i (p i) = Some (s i)" "Next sl i x \<noteq> None"
    by auto
  let ?sl = "SetNext i (p i) (Some x) (SetNext i x (s i) sl)"
  have link: "link_level x prev i sl = Some ?sl" using i by (simp add: link_level_def)
  have nx: "Next ?sl l y = (if l = i \<and> y = x then Some (s l) else if l = i \<and> y = p l then Some (Some x) else Next sl l y)"
    for l y
    using i by (auto simp: Next_SetNext)
  have "\<exists>sl'. link_levels x prev ls ?sl = Some sl' \<and> length (sl_nodes sl') = length (sl_nodes ?sl)
    \<and> key_of sl' = key_of ?sl \<and> sl_max_height sl' = sl_max_height ?sl
    \<and> (\<forall>l y. Next sl' l y = (if l \<in> set ls \<and> y = x then Some (s l)
          else if l \<in> set ls \<and> y = p l then Some (Some x) else Next ?sl l y))"
    using Cons.prems by (intro Cons.IH) (auto simp: nx)
  then obtain sl' where sl': "link_levels x prev ls ?sl = Some sl'" "length (sl_nodes sl') = length (sl_nodes ?sl)"
    "key_of sl' = key_of ?sl" "sl_max_height sl' = sl_max_height ?sl"
    "\<And>l y. Next sl' l y = (if l \<in> set ls \<and> y = x then Some (s l)
          else if l \<in> set ls \<and> y = p l then Some (Some x) else Next ?sl l y)" by blast
  have "key_of ?sl = key_of sl" by (rule ext) simp
  moreover have "Next sl' l y = (if l \<in> set (i # ls) \<and> y = x then Some (s l)
      else if l \<in> set (i # ls) \<and> y = p l then Some (Some x) else Next sl l y)" for l y
    using Cons.prems(1) unfolding sl'(5) nx by auto
  ultimately show ?case using link sl'(1-4) by simp
qed simp

lemma RandomHeight_range: "1 \<le> fst (RandomHeight rnd) \<and> fst (RandomHeight rnd) \<le> kMaxHeight"
proof -
  have "h \<le> fst (RandomHeight_loop h rnd) \<and> (h \<le> kMaxHeight \<longrightarrow> fst (RandomHeight_loop h rnd) \<le> kMaxHeight)" for h
  proof (induction h rnd rule: RandomHeight_loop.induct)
    case (1 h rnd)
    show ?case
    proof (cases "h < kMaxHeight \<and> Random_Next rnd mod 4 = 0")
      case True
      then have "RandomHeight_loop h rnd = RandomHeight_loop (h + 1) (Random_Next rnd)"
        by (subst RandomHeight_loop.simps) (simp add: Let_def)
      with 1 [OF _ refl] True show ?thesis by simp
    next
      case False
      then show ?thesis by (subst (1 2) RandomHeight_loop.simps) (auto simp: Let_def)
    qed
  qed
  from this [of 1] show ?thesis by (simp add: RandomHeight_def kMaxHeight_def)
qed

lemma fold_head: "fold (\<lambda>i prev. prev(i \<mapsto> 0)) is prev = (\<lambda>i. if i \<in> set is then Some 0 else prev i)"
  by (induction "is" arbitrary: prev) (auto simp: fun_eq_iff)

definition ascending_keys :: "'k compare \<Rightarrow> ('k \<Rightarrow> bool) \<Rightarrow> 'k list \<Rightarrow> bool" where
  "ascending_keys compare valid ks \<longleftrightarrow> sorted_wrt (\<lambda>a b. compare a b < 0) ks \<and> (\<forall>k\<in>set ks. valid k)"

text \<open>\<open>chain l\<close> are the nodes of level \<open>l\<close>.\<close>

definition skip_levels :: "'k compare \<Rightarrow> ('k \<Rightarrow> bool) \<Rightarrow> 'k SkipList \<Rightarrow> (nat \<Rightarrow> nat list) \<Rightarrow> bool" where
  "skip_levels compare valid sl chain \<longleftrightarrow>
     1 \<le> sl_max_height sl \<and> sl_max_height sl \<le> kMaxHeight \<and> sl_nodes sl \<noteq> []
     \<and> (\<forall>l<kMaxHeight. path (Next sl l) 0 (chain l) \<and> ascending_keys compare valid (map (key_of sl) (chain l))
          \<and> (\<forall>x\<in>set (chain l). 0 < x \<and> x < length (sl_nodes sl))
          \<and> (sl_max_height sl \<le> l \<longrightarrow> chain l = []))
     \<and> (\<forall>l. Suc l < kMaxHeight \<longrightarrow> set (chain (Suc l)) \<subseteq> set (chain l))"

text \<open>The list with the nodes \<open>ns\<close> on its lowest level.\<close>

definition skip_list :: "'k compare \<Rightarrow> ('k \<Rightarrow> bool) \<Rightarrow> 'k SkipList \<Rightarrow> nat list \<Rightarrow> bool" where
  "skip_list compare valid sl ns \<longleftrightarrow> (\<exists>chain. skip_levels compare valid sl chain \<and> chain 0 = ns)"

primrec Inserts :: "'k compare \<Rightarrow> 'k list \<Rightarrow> 'k SkipList \<Rightarrow> 'k SkipList option" where
  "Inserts compare [] sl = Some sl"
| "Inserts compare (key # keys) sl = Option.bind (Insert compare key sl) (Inserts compare keys)"

locale key_order =
  fixes compare :: "'k compare" and valid :: "'k \<Rightarrow> bool"
  assumes compare_swap: "valid a \<Longrightarrow> valid b \<Longrightarrow> compare a b < 0 \<longleftrightarrow> 0 < compare b a"
    and compare_trans: "valid a \<Longrightarrow> valid b \<Longrightarrow> valid c \<Longrightarrow> compare a b < 0 \<Longrightarrow> compare b c < 0 \<Longrightarrow> compare a c < 0"
    and compare_le_trans: "valid a \<Longrightarrow> valid b \<Longrightarrow> valid c \<Longrightarrow> compare a b \<le> 0 \<Longrightarrow> compare b c < 0 \<Longrightarrow> compare a c < 0"
begin

abbreviation ascending :: "'k list \<Rightarrow> bool" where
  "ascending \<equiv> ascending_keys compare valid"

lemma ascending_simps [simp]:
  "ascending []" "ascending (k # ks) \<longleftrightarrow> valid k \<and> (\<forall>k'\<in>set ks. compare k k' < 0) \<and> ascending ks"
  by (auto simp: ascending_keys_def)

abbreviation skip_inv :: "'k SkipList \<Rightarrow> (nat \<Rightarrow> nat list) \<Rightarrow> bool" where
  "skip_inv \<equiv> skip_levels compare valid"

text \<open>The nodes of a level before and from the place of a key.\<close>

definition before_key :: "'k SkipList \<Rightarrow> 'k \<Rightarrow> nat list \<Rightarrow> nat list" where
  "before_key sl key xs = takeWhile (\<lambda>x. compare (key_of sl x) key < 0) xs"

definition from_key :: "'k SkipList \<Rightarrow> 'k \<Rightarrow> nat list \<Rightarrow> nat list" where
  "from_key sl key xs = dropWhile (\<lambda>x. compare (key_of sl x) key < 0) xs"

lemma before_from [simp]: "before_key sl key xs @ from_key sl key xs = xs"
  by (simp add: before_key_def from_key_def)

lemma before_key_set:
  assumes "ascending (map (key_of sl) xs)" "valid key"
  shows "x \<in> set (before_key sl key xs) \<longleftrightarrow> x \<in> set xs \<and> compare (key_of sl x) key < 0"
  using assms(1)
proof (induction xs)
  case (Cons y xs)
  have "compare (key_of sl y) key < 0" if "x \<in> set xs" "compare (key_of sl x) key < 0"
    using that Cons.prems compare_trans [of "key_of sl y" "key_of sl x" key] assms(2) by (auto simp: ascending_keys_def)
  with Cons show ?case by (auto simp: before_key_def)
qed (simp add: before_key_def)

lemma before_key_split:
  assumes "ascending (map (key_of sl) (as @ x # bs))" "valid key" "compare (key_of sl x) key < 0"
  shows "before_key sl key (as @ x # bs) = as @ x # before_key sl key bs"
    and "from_key sl key (as @ x # bs) = from_key sl key bs"
proof -
  have "compare (key_of sl a) key < 0" if "a \<in> set as" for a
    using that assms compare_trans [of "key_of sl a" "key_of sl x" key] by (auto simp: ascending_keys_def sorted_wrt_append)
  then show "before_key sl key (as @ x # bs) = as @ x # before_key sl key bs"
    and "from_key sl key (as @ x # bs) = from_key sl key bs"
    using assms(3) by (simp_all add: before_key_def from_key_def takeWhile_append dropWhile_append)
qed

text \<open>A search on one level, from a node before the key.\<close>

definition first_of :: "nat list \<Rightarrow> nat option" where
  "first_of xs = (case xs of [] \<Rightarrow> None | x # _ \<Rightarrow> Some x)"

lemma path_first: "path succ x xs \<Longrightarrow> succ x = Some (first_of xs)"
  by (cases xs) (simp_all add: first_of_def)

lemma FindGreaterOrEqual_level:
  "path (Next sl level) x bs \<Longrightarrow>
    FindGreaterOrEqual_loop compare sl key x level prev =
      (let y = last (x # before_key sl key bs); prev = prev(level \<mapsto> y) in
       if level = 0 then Some (first_of (from_key sl key bs), prev)
       else FindGreaterOrEqual_loop compare sl key y (level - 1) prev)"
proof (induction bs arbitrary: x)
  case Nil
  then show ?case
    by (simp add: FindGreaterOrEqual_loop.simps [of compare sl key x level prev] KeyIsAfterNode_def before_key_def from_key_def
        first_of_def Let_def fun_upd_def)
next
  case (Cons b bs)
  then have b: "Next sl level x = Some (Some b)" "path (Next sl level) b bs" by auto
  show ?case
  proof (cases "compare (key_of sl b) key < 0")
    case True
    with b Cons.IH [OF b(2)] show ?thesis
      by (simp add: FindGreaterOrEqual_loop.simps [of compare sl key x level prev] KeyIsAfterNode_def before_key_def from_key_def Let_def fun_upd_def)
  next
    case False
    with b show ?thesis
      by (simp add: FindGreaterOrEqual_loop.simps [of compare sl key x level prev] KeyIsAfterNode_def before_key_def from_key_def
          first_of_def Let_def fun_upd_def)
  qed
qed

text \<open>All levels from one downwards, from a node of that level before the key.\<close>

definition pred :: "'k SkipList \<Rightarrow> (nat \<Rightarrow> nat list) \<Rightarrow> 'k \<Rightarrow> nat \<Rightarrow> nat" where
  "pred sl chain key l = last (0 # before_key sl key (chain l))"

lemma skip_inv_level:
  assumes "skip_inv sl chain" "l < kMaxHeight"
  shows "path (Next sl l) 0 (chain l)" "ascending (map (key_of sl) (chain l))"
    "\<forall>x\<in>set (chain l). 0 < x \<and> x < length (sl_nodes sl)"
  using assms by (auto simp: skip_levels_def)

lemma level_split:
  assumes "skip_inv sl chain" "l < kMaxHeight" "valid key"
    and "x = 0 \<or> x \<in> set (chain l) \<and> compare (key_of sl x) key < 0"
  obtains bs where "path (Next sl l) x bs" "last (x # before_key sl key bs) = pred sl chain key l"
    "from_key sl key bs = from_key sl key (chain l)"
proof (cases "x = 0")
  case True
  with skip_inv_level(1) [OF assms(1,2)] that show thesis by (simp add: pred_def)
next
  case False
  with assms(4) obtain as bs where chain: "chain l = as @ x # bs" by (metis split_list)
  have "path (Next sl l) x bs"
    using skip_inv_level(1) [OF assms(1,2)] path_suffix [of _ 0 "as @ [x]" bs] by (simp add: chain)
  moreover note before_key_split [of sl as x bs key]
  ultimately show thesis
    using that [of bs] skip_inv_level(2) [OF assms(1,2)] assms(3,4) False chain by (simp add: pred_def)
qed

lemma pred_before:
  assumes "skip_inv sl chain" "l < kMaxHeight" "valid key"
  shows "pred sl chain key l = 0 \<or> pred sl chain key l \<in> set (chain l) \<and> compare (key_of sl (pred sl chain key l)) key < 0"
proof (cases "before_key sl key (chain l) = []")
  case False
  then have "pred sl chain key l \<in> set (before_key sl key (chain l))" by (simp add: pred_def)
  then show ?thesis using before_key_set [OF skip_inv_level(2) [OF assms(1,2)] assms(3)] by simp
qed (simp add: pred_def)

lemma FindGreaterOrEqual_loop_finds:
  assumes "skip_inv sl chain" "valid key"
  shows "l < kMaxHeight \<Longrightarrow> x = 0 \<or> x \<in> set (chain l) \<and> compare (key_of sl x) key < 0 \<Longrightarrow>
    \<exists>prev'. FindGreaterOrEqual_loop compare sl key x l prev = Some (first_of (from_key sl key (chain 0)), prev')
      \<and> (\<forall>i\<le>l. prev' i = Some (pred sl chain key i)) \<and> (\<forall>i>l. prev' i = prev i)"
proof (induction l arbitrary: x prev)
  case 0
  from level_split [OF assms(1) 0(1) assms(2) 0(2)] obtain bs where
    "path (Next sl 0) x bs" "last (x # before_key sl key bs) = pred sl chain key 0"
    "from_key sl key bs = from_key sl key (chain 0)" .
  with FindGreaterOrEqual_level [of sl 0 x bs key prev] show ?case by (simp add: Let_def)
next
  case (Suc l)
  from level_split [OF assms(1) Suc.prems(1) assms(2) Suc.prems(2)] obtain bs where
    bs: "path (Next sl (Suc l)) x bs" "last (x # before_key sl key bs) = pred sl chain key (Suc l)" .
  let ?y = "pred sl chain key (Suc l)"
  have l: "l < kMaxHeight" using Suc.prems(1) by simp
  have "?y = 0 \<or> ?y \<in> set (chain l) \<and> compare (key_of sl ?y) key < 0"
    using pred_before [OF assms(1) Suc.prems(1) assms(2)] assms(1) Suc.prems(1) by (auto simp: skip_levels_def)
  from Suc.IH [OF l this, of "prev(Suc l \<mapsto> ?y)"] obtain prev' where prev':
    "FindGreaterOrEqual_loop compare sl key ?y l (prev(Suc l \<mapsto> ?y)) = Some (first_of (from_key sl key (chain 0)), prev')"
    "\<forall>i\<le>l. prev' i = Some (pred sl chain key i)" "\<forall>i>l. prev' i = (prev(Suc l \<mapsto> ?y)) i" by blast
  have "\<forall>i\<le>Suc l. prev' i = Some (pred sl chain key i)" using prev'(2,3) by (auto simp: le_Suc_eq)
  moreover have "\<forall>i>Suc l. prev' i = prev i" using prev'(3) by auto
  ultimately show ?case
    using FindGreaterOrEqual_level [OF bs(1), of key prev] bs(2) prev'(1) by (simp add: Let_def)
qed

lemma FindGreaterOrEqual_finds:
  assumes "skip_inv sl chain" "valid key"
  shows "\<exists>prev. FindGreaterOrEqual compare sl key = Some (first_of (from_key sl key (chain 0)), prev)
    \<and> (\<forall>i < sl_max_height sl. prev i = Some (pred sl chain key i))"
proof -
  have h: "1 \<le> sl_max_height sl" "sl_max_height sl \<le> kMaxHeight" using assms(1) by (simp_all add: skip_levels_def)
  then have "sl_max_height sl - 1 < kMaxHeight" by (simp add: kMaxHeight_def)
  from FindGreaterOrEqual_loop_finds [OF assms this, of 0 Map.empty] obtain prev where
    "FindGreaterOrEqual compare sl key = Some (first_of (from_key sl key (chain 0)), prev)"
    "\<forall>i\<le> sl_max_height sl - 1. prev i = Some (pred sl chain key i)"
    by (auto simp: FindGreaterOrEqual_def)
  moreover have "i \<le> sl_max_height sl - 1" if "i < sl_max_height sl" for i using that by linarith
  ultimately show ?thesis by blast
qed

text \<open>The place of a new key.\<close>

definition insert_key :: "'k \<Rightarrow> 'k list \<Rightarrow> 'k list" where
  "insert_key key ks = takeWhile (\<lambda>k. compare k key < 0) ks @ key # dropWhile (\<lambda>k. compare k key < 0) ks"

lemma set_insert_key: "set (insert_key key ks) = insert key (set ks)"
proof -
  have "set ks = set (takeWhile (\<lambda>k. compare k key < 0) ks) \<union> set (dropWhile (\<lambda>k. compare k key < 0) ks)"
    by (metis set_append takeWhile_dropWhile_id)
  then show ?thesis by (auto simp: insert_key_def)
qed

lemma ascending_insert_key:
  assumes "ascending ks" "valid key" "\<forall>k\<in>set ks. compare k key \<noteq> 0"
  shows "ascending (insert_key key ks)"
  using assms(1,3)
proof (induction ks)
  case Nil
  then show ?case using assms(2) by (simp add: insert_key_def)
next
  case (Cons k ks)
  show ?case
  proof (cases "compare k key < 0")
    case True
    then have "insert_key key (k # ks) = k # insert_key key ks" by (simp add: insert_key_def)
    with Cons True show ?thesis by (auto simp: set_insert_key)
  next
    case False
    then have less: "compare key k < 0"
      using Cons.prems assms(2) compare_swap [of key k] by auto
    have "compare key k' < 0" if "k' \<in> set ks" for k'
      using that Cons.prems less compare_trans [of key k k'] assms(2) by (auto simp: ascending_keys_def)
    with False less Cons.prems assms(2) show ?thesis by (simp add: insert_key_def)
  qed
qed

lemma ascending_distinct: "ascending (map f xs) \<Longrightarrow> distinct xs"
proof (induction xs)
  case (Cons x xs)
  have "\<not> compare (f x) (f x) < 0" if "valid (f x)" using compare_swap [OF that that] by auto
  with Cons show ?case by auto
qed simp

lemma skip_inv_chain_0:
  assumes "skip_inv sl chain" "l < kMaxHeight"
  shows "set (chain l) \<subseteq> set (chain 0)"
  using assms(2)
proof (induction l)
  case (Suc l)
  then have "set (chain (Suc l)) \<subseteq> set (chain l)" using assms(1) by (simp add: skip_levels_def)
  with Suc show ?case by auto
qed simp

lemma Insert_inv:
  assumes inv: "skip_inv sl chain" and key: "valid key"
    and new: "\<forall>x\<in>set (chain 0). compare (key_of sl x) key \<noteq> 0"
  shows "\<exists>sl' chain'. Insert compare key sl = Some sl' \<and> skip_inv sl' chain'
    \<and> map (key_of sl') (chain' 0) = insert_key key (map (key_of sl) (chain 0))"
proof -
  obtain height rnd where h: "RandomHeight (sl_rnd sl) = (height, rnd)" by force
  then have height: "1 \<le> height" "height \<le> kMaxHeight" using RandomHeight_range [of "sl_rnd sl"] by simp_all
  obtain prev where find: "FindGreaterOrEqual compare sl key = Some (first_of (from_key sl key (chain 0)), prev)"
    "\<And>i. i < sl_max_height sl \<Longrightarrow> prev i = Some (pred sl chain key i)"
    using FindGreaterOrEqual_finds [OF inv key] by blast
  define x where "x = length (sl_nodes sl)"
  define mh where "mh = max (sl_max_height sl) height"
  define prev' where "prev' = (if sl_max_height sl < height
     then fold (\<lambda>i prev. prev(i \<mapsto> 0)) [sl_max_height sl..<height] prev else prev)"
  define sl1 where "sl1 = sl\<lparr>sl_rnd := rnd, sl_max_height := mh,
     sl_nodes := sl_nodes sl @ [\<lparr>node_key = key, node_next = replicate height None\<rparr>]\<rparr>"
  have "Insert compare key sl = link_levels x prev' [0..<height] sl1"
  proof (cases "sl_max_height sl < height")
    case True
    then show ?thesis
      by (simp add: Insert_def find(1) h Let_def prev'_def sl1_def x_def mh_def)
  next
    case False
    then show ?thesis
      by (simp add: Insert_def find(1) h Let_def prev'_def sl1_def x_def mh_def max_def)
  qed
  note insert = this
  define p where "p = pred sl chain key"
  have old: "y < x" if "l < kMaxHeight" "y = 0 \<or> y \<in> set (chain l)" for l y
    using that inv skip_inv_level(3) [OF inv that(1)] by (auto simp: x_def skip_levels_def)
  have nx1: "Next sl1 l y = Next sl l y" "key_of sl1 y = key_of sl y" if "y < x" for l y
    using that by (simp_all add: Next_def key_of_def sl1_def x_def nth_append)
  have key_x: "key_of sl1 x = key" by (simp add: key_of_def sl1_def x_def)
  have p_in: "p l = 0 \<or> p l \<in> set (chain l)" if "l < kMaxHeight" for l
    using pred_before [OF inv that key] by (auto simp: p_def)
  have p_next: "Next sl l (p l) = Some (first_of (from_key sl key (chain l)))" if "l < kMaxHeight" for l
  proof -
    have "path (Next sl l) 0 (before_key sl key (chain l) @ from_key sl key (chain l))"
      using skip_inv_level(1) [OF inv that] by simp
    from path_first [OF path_suffix [OF this]] show ?thesis by (simp add: p_def pred_def)
  qed
  have prev': "prev' l = Some (p l)" if "l < height" for l
  proof (cases "l < sl_max_height sl")
    case True
    then show ?thesis using find(2) by (simp add: prev'_def fold_head p_def)
  next
    case False
    then have "chain l = []" using inv that height by (auto simp: skip_levels_def)
    with False that show ?thesis by (simp add: prev'_def fold_head p_def pred_def before_key_def)
  qed
  have "\<exists>sl'. link_levels x prev' [0..<height] sl1 = Some sl' \<and> length (sl_nodes sl') = length (sl_nodes sl1)
    \<and> key_of sl' = key_of sl1 \<and> sl_max_height sl' = sl_max_height sl1
    \<and> (\<forall>l y. Next sl' l y = (if l \<in> set [0..<height] \<and> y = x then Some (first_of (from_key sl key (chain l)))
          else if l \<in> set [0..<height] \<and> y = p l then Some (Some x) else Next sl1 l y))"
  proof (rule link_levels_ok)
    fix l assume "l \<in> set [0..<height]"
    then have l: "l < height" "l < kMaxHeight" using height by auto
    have "p l < x" using old [OF l(2)] p_in [OF l(2)] by blast
    moreover have "Next sl1 l x \<noteq> None" using l(1) by (simp add: Next_def sl1_def x_def)
    ultimately show "prev' l = Some (p l) \<and> p l \<noteq> x \<and> Next sl1 l (p l) = Some (first_of (from_key sl key (chain l)))
        \<and> Next sl1 l x \<noteq> None"
      using prev' [OF l(1)] p_next [OF l(2)] by (simp add: nx1)
  qed simp
  then obtain sl' where sl1': "link_levels x prev' [0..<height] sl1 = Some sl'"
    "length (sl_nodes sl') = length (sl_nodes sl1)" "key_of sl' = key_of sl1" "sl_max_height sl' = sl_max_height sl1"
    and nx1': "\<forall>l y. Next sl' l y = (if l \<in> set [0..<height] \<and> y = x then Some (first_of (from_key sl key (chain l)))
          else if l \<in> set [0..<height] \<and> y = p l then Some (Some x) else Next sl1 l y)"
    by blast
  have sl': "link_levels x prev' [0..<height] sl1 = Some sl'" "length (sl_nodes sl') = Suc x"
    "key_of sl' = key_of sl1" "sl_max_height sl' = mh"
    using sl1' by (simp_all add: sl1_def x_def)
  have nx: "Next sl' l y = (if l < height \<and> y = x then Some (first_of (from_key sl key (chain l)))
          else if l < height \<and> y = p l then Some (Some x) else Next sl1 l y)" for l y
    using nx1' by simp
  define chain' where "chain' = (\<lambda>l. if l < height then before_key sl key (chain l) @ x # from_key sl key (chain l)
    else chain l)"
  have split: "set (chain l) = set (before_key sl key (chain l)) \<union> set (from_key sl key (chain l))" for l
    by (metis before_from set_append)
  have set': "set (chain' l) = (if l < height then insert x (set (chain l)) else set (chain l))" for l
    using split [of l] by (auto simp: chain'_def)
  have keys: "map (key_of sl') (chain' l) = (if l < height then insert_key key (map (key_of sl) (chain l))
      else map (key_of sl) (chain l))" if "l < kMaxHeight" for l
  proof -
    have "key_of sl' y = key_of sl y" if "y \<in> set (chain l)" for y
      using old [OF \<open>l < kMaxHeight\<close>] that by (simp add: sl'(3) nx1)
    then have "map (key_of sl') ys = map (key_of sl) ys" if "set ys \<subseteq> set (chain l)" for ys
      using that by auto
    from this [of "before_key sl key (chain l)"] this [of "from_key sl key (chain l)"] this [of "chain l"] split [of l]
    show ?thesis
      by (simp add: chain'_def insert_key_def sl'(3) key_x takeWhile_map dropWhile_map comp_def
          before_key_def from_key_def)
  qed
  have path': "path (Next sl' l) 0 (chain' l)" if l: "l < kMaxHeight" for l
  proof -
    have path1: "path (Next sl1 l) 0 (chain l)"
      by (rule path_cong [OF skip_inv_level(1) [OF inv l]]) (use old [OF l] nx1 in auto)
    show ?thesis
    proof (cases "l < height")
      case True
      have "distinct (0 # before_key sl key (chain l) @ from_key sl key (chain l))"
        using ascending_distinct [OF skip_inv_level(2) [OF inv l]] skip_inv_level(3) [OF inv l] by auto
      moreover have "x \<notin> set (0 # before_key sl key (chain l) @ from_key sl key (chain l))"
        using old [OF l] by auto
      ultimately have "path (Next sl' l) 0 (before_key sl key (chain l) @ x # from_key sl key (chain l))"
        using path1 True p_in [OF l] old [OF l] p_next [OF l] nx1 split [of l]
        by (intro path_insert [of "Next sl1 l"]) (auto simp: nx p_def pred_def)
      then show ?thesis using True by (simp add: chain'_def)
    next
      case False
      have "path (Next sl' l) 0 (chain l)" by (rule path_cong [OF path1]) (simp add: nx False)
      then show ?thesis using False by (simp add: chain'_def)
    qed
  qed
  have "skip_inv sl' chain'"
    unfolding skip_levels_def
  proof (intro conjI allI impI)
    fix l assume l: "l < kMaxHeight"
    show "path (Next sl' l) 0 (chain' l)" by (rule path' [OF l])
    have "\<forall>k\<in>set (map (key_of sl) (chain l)). compare k key \<noteq> 0"
      using new skip_inv_chain_0 [OF inv l] by auto
    then show "ascending (map (key_of sl') (chain' l))"
      using ascending_insert_key [OF skip_inv_level(2) [OF inv l] key] skip_inv_level(2) [OF inv l] keys [OF l] by simp
    show "\<forall>y\<in>set (chain' l). 0 < y \<and> y < length (sl_nodes sl')"
      using skip_inv_level(3) [OF inv l] inv old [OF l] unfolding set' sl'(2)
      by (auto simp: x_def skip_levels_def less_Suc_eq)
    show "chain' l = []" if "sl_max_height sl' \<le> l"
      using that inv l by (auto simp: chain'_def sl'(4) mh_def skip_levels_def)
  next
    fix l assume "Suc l < kMaxHeight"
    then have "set (chain (Suc l)) \<subseteq> set (chain l)" using inv by (simp add: skip_levels_def)
    then show "set (chain' (Suc l)) \<subseteq> set (chain' l)" by (auto simp: set')
  next
    show "1 \<le> sl_max_height sl'" "sl_max_height sl' \<le> kMaxHeight" "sl_nodes sl' \<noteq> []"
      using inv height sl'(2) by (auto simp: sl'(4) mh_def skip_levels_def)
  qed
  then show ?thesis
    using insert sl'(1) keys [of 0] height by (auto simp: kMaxHeight_def)
qed

lemma FindLessThan_level:
  "path (Next sl level) x bs \<Longrightarrow>
    FindLessThan_loop compare sl key x level =
      (let y = last (x # before_key sl key bs) in
       if level = 0 then Some y else FindLessThan_loop compare sl key y (level - 1))"
proof (induction bs arbitrary: x)
  case Nil
  then show ?case
    by (simp add: FindLessThan_loop.simps [of compare sl key x level] before_key_def Let_def)
next
  case (Cons b bs)
  then have b: "Next sl level x = Some (Some b)" "path (Next sl level) b bs" by auto
  with Cons.IH [OF b(2)] show ?case
    by (cases "compare (key_of sl b) key < 0")
      (simp_all add: FindLessThan_loop.simps [of compare sl key x level] before_key_def Let_def)
qed

lemma FindLessThan_finds:
  assumes "skip_inv sl chain" "valid key"
  shows "FindLessThan compare sl key = Some (last (0 # before_key sl key (chain 0)))"
proof -
  have "FindLessThan_loop compare sl key x l = Some (pred sl chain key 0)"
    if "l < kMaxHeight" "x = 0 \<or> x \<in> set (chain l) \<and> compare (key_of sl x) key < 0" for x l
    using that
  proof (induction l arbitrary: x)
    case 0
    from level_split [OF assms(1) 0(1) assms(2) 0(2)] obtain bs where
      "path (Next sl 0) x bs" "last (x # before_key sl key bs) = pred sl chain key 0" .
    with FindLessThan_level [of sl 0 x bs key] show ?case by (simp add: Let_def)
  next
    case (Suc l)
    from level_split [OF assms(1) Suc.prems(1) assms(2) Suc.prems(2)] obtain bs where
      bs: "path (Next sl (Suc l)) x bs" "last (x # before_key sl key bs) = pred sl chain key (Suc l)" .
    let ?y = "pred sl chain key (Suc l)"
    have "?y = 0 \<or> ?y \<in> set (chain l) \<and> compare (key_of sl ?y) key < 0"
      using pred_before [OF assms(1) Suc.prems(1) assms(2)] assms(1) Suc.prems(1) by (auto simp: skip_levels_def)
    with Suc.IH [of ?y] Suc.prems(1) FindLessThan_level [OF bs(1), of key] bs(2) show ?case
      by (simp add: Let_def)
  qed
  moreover have "sl_max_height sl - 1 < kMaxHeight" using assms(1) by (auto simp: skip_levels_def kMaxHeight_def)
  ultimately show ?thesis by (simp add: FindLessThan_def pred_def)
qed

lemma FindLast_level:
  "path (Next sl level) x bs \<Longrightarrow>
    FindLast_loop sl x level =
      (let y = last (x # bs) in if level = 0 then Some y else FindLast_loop sl y (level - 1))"
proof (induction bs arbitrary: x)
  case Nil
  then show ?case by (simp add: FindLast_loop.simps [of sl x level] Let_def)
next
  case (Cons b bs)
  then have b: "Next sl level x = Some (Some b)" "path (Next sl level) b bs" by auto
  with Cons.IH [OF b(2)] show ?case by (simp add: FindLast_loop.simps [of sl x level] Let_def)
qed

lemma FindLast_finds:
  assumes "skip_inv sl chain"
  shows "FindLast sl = Some (last (0 # chain 0))"
proof -
  have "FindLast_loop sl x l = Some (last (0 # chain 0))"
    if "l < kMaxHeight" "x = 0 \<or> x \<in> set (chain l)" for x l
    using that
  proof (induction l arbitrary: x)
    case (0 x)
    obtain bs where "path (Next sl 0) x bs" "last (x # bs) = last (0 # chain 0)"
    proof (cases "x = 0")
      case False
      with 0 obtain as bs where chain: "chain 0 = as @ x # bs" by (metis split_list)
      then have "path (Next sl 0) x bs"
        using skip_inv_level(1) [OF assms 0(1)] path_suffix [of _ 0 "as @ [x]" bs] by simp
      with chain that [of bs] show thesis by simp
    qed (use skip_inv_level(1) [OF assms 0(1)] in auto)
    with FindLast_level [of sl 0 x bs] show ?case by (simp add: Let_def)
  next
    case (Suc l x)
    obtain bs where bs: "path (Next sl (Suc l)) x bs" "set bs \<subseteq> set (chain (Suc l))"
    proof (cases "x = 0")
      case False
      with Suc.prems obtain as bs where chain: "chain (Suc l) = as @ x # bs" by (metis split_list)
      then have "path (Next sl (Suc l)) x bs"
        using skip_inv_level(1) [OF assms Suc.prems(1)] path_suffix [of _ 0 "as @ [x]" bs] by simp
      with chain that [of bs] show thesis by auto
    qed (use skip_inv_level(1) [OF assms Suc.prems(1)] that in blast)
    have sub: "set (chain (Suc l)) \<subseteq> set (chain l)" using assms Suc.prems(1) by (simp add: skip_levels_def)
    have "last (x # bs) = 0 \<or> last (x # bs) \<in> set (chain l)"
    proof (cases "bs = []")
      case True
      then show ?thesis using sub Suc.prems(2) by auto
    next
      case False
      have "last bs \<in> set (chain l)" using sub bs(2) last_in_set [OF False] by blast
      then show ?thesis using False by simp
    qed
    with Suc.IH [of "last (x # bs)"] Suc.prems(1) FindLast_level [OF bs(1)] show ?case by (simp add: Let_def)
  qed
  moreover have "sl_max_height sl - 1 < kMaxHeight" using assms by (auto simp: skip_levels_def kMaxHeight_def)
  ultimately show ?thesis by (simp add: FindLast_def)
qed

text \<open>What the operations do to the nodes of the lowest level.\<close>

lemma skip_list_keys: "skip_list compare valid sl ns \<Longrightarrow> ascending (map (key_of sl) ns)"
  by (auto simp: skip_list_def skip_levels_def kMaxHeight_def)

lemma skip_list_new: "skip_list compare valid (new_SkipList any_key) []"
  unfolding skip_list_def
  by (rule exI [of _ "\<lambda>_. []"]) (simp add: skip_levels_def new_SkipList_def Next_def kMaxHeight_def)

lemma find_from_key: "find (\<lambda>x. \<not> compare (key_of sl x) key < 0) ns = first_of (from_key sl key ns)"
  by (induction ns) (simp_all add: from_key_def first_of_def)

lemma skip_list_Seek:
  assumes "skip_list compare valid sl ns" "valid key"
  shows "SkipIterator_Seek compare sl key = Some (find (\<lambda>x. \<not> compare (key_of sl x) key < 0) ns)"
  using assms FindGreaterOrEqual_finds [OF _ assms(2), of sl]
  by (fastforce simp: skip_list_def SkipIterator_Seek_def find_from_key)

lemma skip_list_Contains:
  assumes "skip_list compare valid sl ns" "valid key"
  shows "Contains compare sl key = Some (\<exists>x\<in>set ns. compare key (key_of sl x) = 0)"
proof -
  obtain chain where inv: "skip_inv sl chain" "chain 0 = ns" using assms(1) by (auto simp: skip_list_def)
  from FindGreaterOrEqual_finds [OF inv(1) assms(2)] obtain prev where
    find: "FindGreaterOrEqual compare sl key = Some (first_of (from_key sl key ns), prev)" by (auto simp: inv(2))
  have asc: "ascending (map (key_of sl) ns)" by (rule skip_list_keys [OF assms(1)])
  have before: "compare key (key_of sl x) \<noteq> 0" if "x \<in> set (before_key sl key ns)" for x
    using that before_key_set [OF asc assms(2), of x] compare_swap [of "key_of sl x" key] assms(2) asc
    by (auto simp: ascending_keys_def)
  show ?thesis
  proof (cases "from_key sl key ns")
    case Nil
    then have "before_key sl key ns = ns" using before_from [of sl key ns] by simp
    with before Nil find show ?thesis by (simp add: Contains_def first_of_def)
  next
    case (Cons y ys)
    have ns: "ns = before_key sl key ns @ y # ys" using before_from [of sl key ns] Cons by simp
    have y: "\<not> compare (key_of sl y) key < 0"
      using Cons hd_dropWhile [of "\<lambda>x. compare (key_of sl x) key < 0" ns] by (simp add: from_key_def)
    have "ascending (map (key_of sl) (before_key sl key ns @ y # ys))" using asc ns by simp
    then have ys: "compare (key_of sl y) (key_of sl z) < 0 \<and> valid (key_of sl z)" "valid (key_of sl y)" if "z \<in> set ys" for z
      using that by (auto simp: ascending_keys_def sorted_wrt_append)
    have valid_y: "valid (key_of sl y)" using asc Cons before_from [of sl key ns]
      by (metis ascending_keys_def in_set_conv_decomp list.set_map image_eqI)
    have "compare key (key_of sl z) < 0" if "z \<in> set ys" for z
      using ys [OF that] y compare_swap [OF valid_y assms(2)] compare_le_trans [OF assms(2) valid_y, of "key_of sl z"]
        compare_swap [OF assms(2) valid_y] by force
    then have "(\<exists>x\<in>set ns. compare key (key_of sl x) = 0) \<longleftrightarrow> compare key (key_of sl y) = 0"
      using before by (subst ns) force
    with Cons find show ?thesis by (simp add: Contains_def first_of_def)
  qed
qed

lemma skip_list_Insert:
  assumes "skip_list compare valid sl ns" "valid key" "\<forall>x\<in>set ns. compare (key_of sl x) key \<noteq> 0"
  obtains sl' ns' where "Insert compare key sl = Some sl'" "skip_list compare valid sl' ns'"
    "map (key_of sl') ns' = insert_key key (map (key_of sl) ns)"
  using assms Insert_inv [of sl _ key] unfolding skip_list_def by metis

lemma path_nth: "path succ x xs \<Longrightarrow> i < length xs \<Longrightarrow> succ (xs ! i) = Some (if Suc i < length xs then Some (xs ! Suc i) else None)"
proof (induction xs arbitrary: x i)
  case (Cons y ys)
  then show ?case by (cases i; cases ys) auto
qed simp

lemma skip_list_path: "skip_list compare valid sl ns \<Longrightarrow> path (Next sl 0) 0 ns"
  by (auto simp: skip_list_def skip_levels_def kMaxHeight_def)

lemma skip_list_Next:
  assumes "skip_list compare valid sl ns" "i < length ns"
  shows "SkipIterator_Next sl (ns ! i) = Some (if Suc i < length ns then Some (ns ! Suc i) else None)"
  using path_nth [OF skip_list_path [OF assms(1)] assms(2)] by (simp add: SkipIterator_Next_def)

lemma skip_list_SeekToFirst:
  assumes "skip_list compare valid sl ns"
  shows "SkipIterator_SeekToFirst sl = Some (if ns = [] then None else Some (hd ns))"
  using skip_list_path [OF assms] by (cases ns) (auto simp: SkipIterator_SeekToFirst_def)

lemma skip_list_pos: "skip_list compare valid sl ns \<Longrightarrow> x \<in> set ns \<Longrightarrow> 0 < x"
  using skip_inv_level(3) [of sl _ 0] by (fastforce simp: skip_list_def kMaxHeight_def)

lemma skip_list_SeekToLast:
  assumes "skip_list compare valid sl ns"
  shows "SkipIterator_SeekToLast sl = Some (if ns = [] then None else Some (last ns))"
proof -
  from assms obtain chain where "skip_inv sl chain" "chain 0 = ns" by (auto simp: skip_list_def)
  then have "FindLast sl = Some (last (0 # ns))" using FindLast_finds by blast
  moreover have "last ns \<noteq> 0" if "ns \<noteq> []" using skip_list_pos [OF assms last_in_set [OF that]] by simp
  ultimately show ?thesis by (cases "ns = []") (simp_all add: SkipIterator_SeekToLast_def)
qed

lemma before_key_nth:
  assumes "ascending (map (key_of sl) ns)" "i < length ns"
  shows "before_key sl (key_of sl (ns ! i)) ns = take i ns"
proof -
  have "\<not> compare k k < 0" if "valid k" for k using compare_swap [OF that that] by auto
  moreover have "compare (key_of sl (ns ! j)) (key_of sl (ns ! i)) < 0" if "j < i" for j
    using that assms by (simp add: ascending_keys_def sorted_wrt_iff_nth_less)
  ultimately show ?thesis
    using assms unfolding before_key_def by (intro takeWhile_eq_take_P_nth) (auto simp: ascending_keys_def)
qed

lemma skip_list_Prev:
  assumes "skip_list compare valid sl ns" "i < length ns"
  shows "SkipIterator_Prev compare sl (ns ! i) = Some (if i = 0 then None else Some (ns ! (i - 1)))"
proof -
  from assms(1) obtain chain where inv: "skip_inv sl chain" "chain 0 = ns" by (auto simp: skip_list_def)
  have asc: "ascending (map (key_of sl) ns)" by (rule skip_list_keys [OF assms(1)])
  then have "valid (key_of sl (ns ! i))" using assms(2) by (auto simp: ascending_keys_def)
  from FindLessThan_finds [OF inv(1) this]
  have "FindLessThan compare sl (key_of sl (ns ! i)) = Some (last (0 # take i ns))"
    by (simp add: inv(2) before_key_nth [OF asc assms(2)])
  moreover have "last (take i ns) = ns ! (i - 1)" if "0 < i" using that assms(2) by (cases i) (simp_all add: take_Suc_conv_app_nth)
  moreover have "0 < ns ! (i - 1)" using assms(2) by (intro skip_list_pos [OF assms(1)] nth_mem) simp
  moreover have "ns \<noteq> []" using assms(2) by auto
  ultimately show ?thesis using assms(2) by (cases "i = 0") (simp_all add: SkipIterator_Prev_def last_ConsR)
qed

lemma skip_list_Inserts:
  assumes "skip_list compare valid sl ns" "\<forall>k\<in>set keys. valid k" "sorted_wrt (\<lambda>a b. compare a b \<noteq> 0) keys"
    and "\<forall>x\<in>set ns. \<forall>k\<in>set keys. compare (key_of sl x) k \<noteq> 0"
  shows "\<exists>sl' ns'. Inserts compare keys sl = Some sl' \<and> skip_list compare valid sl' ns'
    \<and> mset (map (key_of sl') ns') = mset (map (key_of sl) ns) + mset keys"
  using assms
proof (induction keys arbitrary: sl ns)
  case (Cons k keys)
  then have "valid k" "\<forall>x\<in>set ns. compare (key_of sl x) k \<noteq> 0" by simp_all
  from skip_list_Insert [OF Cons.prems(1) this] obtain sl1 ns1 where
    ins: "Insert compare k sl = Some sl1" "skip_list compare valid sl1 ns1"
    "map (key_of sl1) ns1 = insert_key k (map (key_of sl) ns)" .
  have "key_of sl1 ` set ns1 = insert k (key_of sl ` set ns)"
    using arg_cong [OF ins(3), of set] by (simp add: set_insert_key)
  moreover have "\<forall>x\<in>insert k (key_of sl ` set ns). \<forall>k'\<in>set keys. compare x k' \<noteq> 0"
    using Cons.prems(3,4) by auto
  ultimately have "\<forall>x\<in>set ns1. \<forall>k'\<in>set keys. compare (key_of sl1 x) k' \<noteq> 0" by (metis imageI)
  with Cons.IH [OF ins(2)] Cons.prems(2,3) obtain sl' ns' where
    "Inserts compare keys sl1 = Some sl'" "skip_list compare valid sl' ns'"
    "mset (map (key_of sl') ns') = mset (map (key_of sl1) ns1) + mset keys" by auto
  moreover have "mset (insert_key k ks) = add_mset k (mset ks)" for ks
    by (simp add: insert_key_def) (metis mset_append takeWhile_dropWhile_id)
  ultimately show ?case using ins(1,3) by (metis (no_types) Inserts.simps(2) Option.bind_lunit add_mset_add_single
    mset.simps(2) union_mset_add_mset_left union_mset_add_mset_right)
qed auto

end

text \<open>C32: The skip list is ordered. Inserting any keys of which no two compare equal returns, keeps the links of
  all levels in order, and leaves just these keys: from the first node \<open>Next\<close> walks through them in ascending
  order to the last one and \<open>Prev\<close> back. A search finds the first key that is not before the target, and
  \<open>Contains\<close> decides whether there is a key equal to it.\<close>

theorem ldb_skiplist_ordered:
  assumes "key_order compare valid" "\<forall>k\<in>set keys. valid k" "sorted_wrt (\<lambda>a b. compare a b \<noteq> 0) keys"
  shows "\<exists>sl ns. Inserts compare keys (new_SkipList any_key) = Some sl \<and> skip_list compare valid sl ns
    \<and> mset (map (key_of sl) ns) = mset keys \<and> sorted_wrt (\<lambda>a b. compare a b < 0) (map (key_of sl) ns)
    \<and> SkipIterator_SeekToFirst sl = Some (if ns = [] then None else Some (hd ns))
    \<and> SkipIterator_SeekToLast sl = Some (if ns = [] then None else Some (last ns))
    \<and> (\<forall>i<length ns. SkipIterator_Next sl (ns ! i) = Some (if Suc i < length ns then Some (ns ! Suc i) else None)
         \<and> SkipIterator_Prev compare sl (ns ! i) = Some (if i = 0 then None else Some (ns ! (i - 1))))
    \<and> (\<forall>key. valid key \<longrightarrow>
         SkipIterator_Seek compare sl key = Some (find (\<lambda>x. \<not> compare (key_of sl x) key < 0) ns)
         \<and> Contains compare sl key = Some (\<exists>x\<in>set ns. compare key (key_of sl x) = 0))"
proof -
  note new = key_order.skip_list_new [OF assms(1), of any_key]
  from key_order.skip_list_Inserts [OF assms(1) new assms(2,3)] obtain sl ns where
    sl: "Inserts compare keys (new_SkipList any_key) = Some sl" "skip_list compare valid sl ns"
    "mset (map (key_of sl) ns) = mset keys" by auto
  show ?thesis
    using sl key_order.skip_list_keys [OF assms(1) sl(2)] key_order.skip_list_SeekToFirst [OF assms(1) sl(2)]
      key_order.skip_list_SeekToLast [OF assms(1) sl(2)] key_order.skip_list_Next [OF assms(1) sl(2)]
      key_order.skip_list_Prev [OF assms(1) sl(2)] key_order.skip_list_Seek [OF assms(1) sl(2)]
      key_order.skip_list_Contains [OF assms(1) sl(2)]
    by (intro exI [of _ sl] exI [of _ ns]) (auto simp: ascending_keys_def)
qed

lemma ldb_skiplist_ordered_witness:
  "\<exists>sl ns. Inserts (\<lambda>a b. a - b) [3, 1, 2] (new_SkipList (0 :: int)) = Some sl
    \<and> mset (map (key_of sl) ns) = mset [3, 1, 2] \<and> sorted_wrt (\<lambda>a b. a - b < 0) (map (key_of sl) ns)
    \<and> Contains (\<lambda>a b. a - b) sl 2 = Some True"
proof -
  have "key_order (\<lambda>a b :: int. a - b) (\<lambda>_. True)" by unfold_locales auto
  from ldb_skiplist_ordered [OF this, of "[3, 1, 2]" 0] obtain sl ns where
    "Inserts (\<lambda>a b. a - b) [3, 1, 2] (new_SkipList (0 :: int)) = Some sl"
    "mset (map (key_of sl) ns) = mset [3, 1, 2]" "sorted_wrt (\<lambda>a b. a - b < 0) (map (key_of sl) ns)"
    "Contains (\<lambda>a b. a - b) sl 2 = Some (\<exists>x\<in>set ns. 2 - key_of sl x = 0)" by auto
  moreover from this(2) have "key_of sl ` set ns = {3, 1, 2}" by (metis list.simps(15) list.set(1) set_map set_mset_mset)
  then have "\<exists>x\<in>set ns. 2 - key_of sl x = 0" by (metis diff_self imageE insertI1 insertI2)
  ultimately show ?thesis by auto
qed

end
