(* ===== verification/Ldb_Memtable.thy ===== *)
theory Ldb_Memtable imports Ldb_Skiplist_Correct Ldb_Dbformat Ldb_Status begin

text \<open>
  The memtable, \<open>db/memtable.cc\<close>: a skip list of entries, each the bytes of an internal key and of a value with
  their lengths in front. A pointer to an entry is the list of the bytes from there to the end of its memory. The
  entries never change, so the addresses that the arena gives them are not modelled; nor is the deletion of a
  memtable whose count of references reaches zero.
\<close>

subsection \<open>The code\<close>

text \<open>The static function of the file. The assumption in the code is that the pointer leads to a length and
  that many bytes; \<open>None\<close> is a read without that. The rest are the bytes behind the slice.\<close>

definition GetLengthPrefixedSlice_entry :: "bytes \<Rightarrow> (bytes \<times> bytes) option" where
  "GetLengthPrefixedSlice_entry data =
     (case GetVarint32Ptr (take 5 data) of
        None \<Rightarrow> None
      | Some (len, rest) \<Rightarrow>
          let p = rest @ drop 5 data
          in if unat len \<le> length p then Some (take (unat len) p, drop (unat len) p) else None)"

text \<open>The order of the entries; for what is no entry the value is arbitrary.\<close>

definition memtable_Compare :: "(bytes \<Rightarrow> bytes \<Rightarrow> int) \<Rightarrow> bytes compare" where
  "memtable_Compare user_Compare aptr bptr =
     (case (GetLengthPrefixedSlice_entry aptr, GetLengthPrefixedSlice_entry bptr) of
        (Some (a, _), Some (b, _)) \<Rightarrow> internal_Compare user_Compare a b
      | _ \<Rightarrow> 0)"

definition memtable_EncodeKey :: "bytes \<Rightarrow> bytes" where
  "memtable_EncodeKey target = PutVarint32 [] (of_nat (length target)) @ target"

record MemTable =
  mt_refs :: int
  mt_table :: "bytes SkipList"

definition new_MemTable :: MemTable where
  "new_MemTable = \<lparr>mt_refs = 0, mt_table = new_SkipList []\<rparr>"

definition MemTable_Ref :: "MemTable \<Rightarrow> MemTable" where
  "MemTable_Ref mt = mt\<lparr>mt_refs := mt_refs mt + 1\<rparr>"

text \<open>\<open>None\<close> is the deletion.\<close>

definition MemTable_Unref :: "MemTable \<Rightarrow> MemTable option" where
  "MemTable_Unref mt = (let refs = mt_refs mt - 1 in if refs \<le> 0 then None else Some (mt\<lparr>mt_refs := refs\<rparr>))"

text \<open>The bytes that are written into the memory of the entry.\<close>

definition memtable_entry :: "SequenceNumber \<Rightarrow> ValueType \<Rightarrow> bytes \<Rightarrow> bytes \<Rightarrow> bytes" where
  "memtable_entry s type key val =
     EncodeVarint32 (of_nat (length key + 8)) @ key @ EncodeFixed64 (push_bit 8 s OR ValueType_code type)
     @ EncodeVarint32 (of_nat (length val)) @ val"

definition memtable_encoded_len :: "bytes \<Rightarrow> bytes \<Rightarrow> nat" where
  "memtable_encoded_len key val =
     VarintLength (of_nat (length key + 8)) + (length key + 8) + VarintLength (of_nat (length val)) + length val"

definition memtable_Add ::
  "(bytes \<Rightarrow> bytes \<Rightarrow> int) \<Rightarrow> SequenceNumber \<Rightarrow> ValueType \<Rightarrow> bytes \<Rightarrow> bytes \<Rightarrow> MemTable \<Rightarrow> MemTable option" where
  "memtable_Add user_Compare s type key val mt =
     map_option (\<lambda>table. mt\<lparr>mt_table := table\<rparr>)
       (Insert (memtable_Compare user_Compare) (memtable_entry s type key val) (mt_table mt))"

text \<open>What the entry at the place of the key says: the result, and what \<open>*value\<close> and \<open>*s\<close> are then.\<close>

definition memtable_Get_entry ::
  "(bytes \<Rightarrow> bytes \<Rightarrow> int) \<Rightarrow> LookupKey \<Rightarrow> bytes \<Rightarrow> bytes \<Rightarrow> Status \<Rightarrow> (bool \<times> bytes \<times> Status) option" where
  "memtable_Get_entry user_Compare key entry val s =
     Option.bind (GetVarint32Ptr (take 5 entry)) (\<lambda>(key_length, rest).
       let key_ptr = rest @ drop 5 entry; user_length = unat (key_length - 8)
       in if length key_ptr < user_length then None
          else if user_Compare (take user_length key_ptr) (user_key key) = 0 then
            Option.bind (DecodeFixed64 (drop user_length key_ptr)) (\<lambda>tag.
              let t = tag AND 0xff in
              if t = ValueType_code kTypeValue then
                map_option (\<lambda>(v, _). (True, v, s)) (GetLengthPrefixedSlice_entry (drop (unat key_length) key_ptr))
              else if t = ValueType_code kTypeDeletion then Some (True, val, NotFound [] [])
              else Some (False, val, s))
          else Some (False, val, s))"

definition memtable_Get ::
  "(bytes \<Rightarrow> bytes \<Rightarrow> int) \<Rightarrow> LookupKey \<Rightarrow> bytes \<Rightarrow> Status \<Rightarrow> MemTable \<Rightarrow> (bool \<times> bytes \<times> Status) option" where
  "memtable_Get user_Compare key val s mt =
     Option.bind (SkipIterator_Seek (memtable_Compare user_Compare) (mt_table mt) (memtable_key key)) (\<lambda>iter.
       case iter of
         None \<Rightarrow> Some (False, val, s)
       | Some x \<Rightarrow> memtable_Get_entry user_Compare key (key_of (mt_table mt) x) val s)"

text \<open>The iterator.\<close>

definition MemTableIterator_Seek :: "(bytes \<Rightarrow> bytes \<Rightarrow> int) \<Rightarrow> MemTable \<Rightarrow> bytes \<Rightarrow> SkipIterator option" where
  "MemTableIterator_Seek user_Compare mt k =
     SkipIterator_Seek (memtable_Compare user_Compare) (mt_table mt) (memtable_EncodeKey k)"

definition MemTableIterator_SeekToFirst :: "MemTable \<Rightarrow> SkipIterator option" where
  "MemTableIterator_SeekToFirst mt = SkipIterator_SeekToFirst (mt_table mt)"

definition MemTableIterator_SeekToLast :: "MemTable \<Rightarrow> SkipIterator option" where
  "MemTableIterator_SeekToLast mt = SkipIterator_SeekToLast (mt_table mt)"

definition MemTableIterator_Next :: "MemTable \<Rightarrow> nat \<Rightarrow> SkipIterator option" where
  "MemTableIterator_Next mt x = SkipIterator_Next (mt_table mt) x"

definition MemTableIterator_Prev :: "(bytes \<Rightarrow> bytes \<Rightarrow> int) \<Rightarrow> MemTable \<Rightarrow> nat \<Rightarrow> SkipIterator option" where
  "MemTableIterator_Prev user_Compare mt x = SkipIterator_Prev (memtable_Compare user_Compare) (mt_table mt) x"

definition MemTableIterator_key :: "MemTable \<Rightarrow> nat \<Rightarrow> bytes option" where
  "MemTableIterator_key mt x = map_option fst (GetLengthPrefixedSlice_entry (key_of (mt_table mt) x))"

definition MemTableIterator_value :: "MemTable \<Rightarrow> nat \<Rightarrow> bytes option" where
  "MemTableIterator_value mt x =
     Option.bind (GetLengthPrefixedSlice_entry (key_of (mt_table mt) x)) (\<lambda>(_, rest).
       map_option fst (GetLengthPrefixedSlice_entry rest))"

subsection \<open>Entries\<close>

lemma length_EncodeVarint32: "length (EncodeVarint32 v) \<le> 5"
  by (simp add: EncodeVarint32_def Let_def)

lemma GetVarint32Ptr_entry:
  "\<exists>rest. GetVarint32Ptr (take 5 (EncodeVarint32 v @ q)) = Some (v, rest) \<and> rest @ drop 5 (EncodeVarint32 v @ q) = q"
proof -
  let ?n = "5 - length (EncodeVarint32 v)"
  have "take 5 (EncodeVarint32 v @ q) = EncodeVarint32 v @ take ?n q"
    "drop 5 (EncodeVarint32 v @ q) = drop ?n q"
    using length_EncodeVarint32 [of v] by simp_all
  then show ?thesis using varint32.get_put [of v "take ?n q"] by (simp add: GetVarint32_def)
qed

lemma length_prefixed_eq: "length_prefixed v = EncodeVarint32 (of_nat (length v)) @ v"
  by (simp add: length_prefixed_def PutLengthPrefixedSlice_def PutVarint32_def)

lemma GetLengthPrefixedSlice_entry_put:
  assumes "length v < 2 ^ 32"
  shows "GetLengthPrefixedSlice_entry (length_prefixed v @ q) = Some (v, q)"
proof -
  obtain rest where "GetVarint32Ptr (take 5 (length_prefixed v @ q)) = Some (of_nat (length v), rest)"
    "rest @ drop 5 (length_prefixed v @ q) = v @ q"
    using GetVarint32Ptr_entry [of "of_nat (length v)" "v @ q"] by (auto simp: length_prefixed_eq)
  with assms show ?thesis
    by (simp only: GetLengthPrefixedSlice_entry_def option.case prod.case Let_def) (simp add: unat_of_nat take_bit_nat_eq_self)
qed

definition entry_key :: "SequenceNumber \<Rightarrow> ValueType \<Rightarrow> bytes \<Rightarrow> bytes" where
  "entry_key s type key = key @ le_bytes 8 (PackSequenceAndType s type)"

lemma memtable_entry_eq: "memtable_entry s type key val = length_prefixed (entry_key s type key) @ length_prefixed val"
  by (simp add: memtable_entry_def length_prefixed_eq entry_key_def PackSequenceAndType_def)

text \<open>The assertion about the length of an entry.\<close>

lemma length_memtable_entry:
  assumes "length key + 8 < 2 ^ 32" "length val < 2 ^ 32"
  shows "length (memtable_entry s type key val) = memtable_encoded_len key val"
proof -
  have "ucast (of_nat n :: u32) = (of_nat n :: u64)" if "n < 2 ^ 32" for n
    using that by (simp add: word_unat_eq_iff unsigned_ucast_eq unat_of_nat take_bit_nat_eq_self)
  from this [OF assms(1)] this [OF assms(2)] show ?thesis
    by (simp add: memtable_entry_def memtable_encoded_len_def VarintLength_eq EncodeVarint32_eq)
qed

text \<open>What the skip list compares: entries and keys of lookups.\<close>

definition valid_entry :: "bytes \<Rightarrow> bool" where
  "valid_entry e \<longleftrightarrow> (\<exists>ik rest. e = length_prefixed ik @ rest \<and> 8 \<le> length ik \<and> length ik < 2 ^ 32)"

lemma memtable_Compare_put [simp]:
  "length a < 2 ^ 32 \<Longrightarrow> length b < 2 ^ 32 \<Longrightarrow>
    memtable_Compare C (length_prefixed a @ q) (length_prefixed b @ q') = internal_Compare C a b"
  by (simp add: memtable_Compare_def GetLengthPrefixedSlice_entry_put)

lemmas memtable_Compare_put_Nil [simp] = memtable_Compare_put [where q' = "[]", simplified append_Nil2]

lemma valid_entryE:
  assumes "valid_entry e"
  obtains ik rest where "e = length_prefixed ik @ rest" "8 \<le> length ik" "length ik < 2 ^ 32"
  using assms by (auto simp: valid_entry_def)

sublocale internal_keys \<subseteq> memtable: key_order "memtable_Compare Compare" valid_entry
proof unfold_locales
  fix a b c
  assume "valid_entry a" "valid_entry b"
  then obtain x q y r where a: "a = length_prefixed x @ q" "8 \<le> length x" "length x < 2 ^ 32"
    and b: "b = length_prefixed y @ r" "8 \<le> length y" "length y < 2 ^ 32" by (metis valid_entryE)
  show "memtable_Compare Compare a b < 0 \<longleftrightarrow> 0 < memtable_Compare Compare b a"
    using Compare_swap [of x y] a b by simp
  assume "valid_entry c"
  then obtain z s where c: "c = length_prefixed z @ s" "8 \<le> length z" "length z < 2 ^ 32" by (metis valid_entryE)
  show "memtable_Compare Compare a b < 0 \<Longrightarrow> memtable_Compare Compare b c < 0 \<Longrightarrow> memtable_Compare Compare a c < 0"
    using Compare_trans [of x y z] a b c by simp
  show "memtable_Compare Compare a b \<le> 0 \<Longrightarrow> memtable_Compare Compare b c < 0 \<Longrightarrow> memtable_Compare Compare a c < 0"
    using key_le_less_trans [of x y z] a b c by (simp add: key_less_def)
qed

subsection \<open>The contents\<close>

type_synonym Entry = "SequenceNumber \<times> ValueType \<times> bytes \<times> bytes"

fun entry_bytes :: "Entry \<Rightarrow> bytes" where
  "entry_bytes (s, type, key, val) = memtable_entry s type key val"

fun entry_ok :: "Entry \<Rightarrow> bool" where
  "entry_ok (s, type, key, val) \<longleftrightarrow> s \<le> kMaxSequenceNumber \<and> length key + 8 < 2 ^ 32 \<and> length val < 2 ^ 32"

text \<open>The memtable has just the entries of the list.\<close>

definition memtable_holds :: "(bytes \<Rightarrow> bytes \<Rightarrow> int) \<Rightarrow> MemTable \<Rightarrow> Entry list \<Rightarrow> bool" where
  "memtable_holds C mt es \<longleftrightarrow> (\<exists>ns. skip_list (memtable_Compare C) valid_entry (mt_table mt) ns
     \<and> key_of (mt_table mt) ` set ns = entry_bytes ` set es) \<and> (\<forall>e\<in>set es. entry_ok e)"

lemma valid_entry_bytes: "entry_ok e \<Longrightarrow> valid_entry (entry_bytes e)"
  by (cases e) (auto simp: valid_entry_def memtable_entry_eq entry_key_def intro!: exI)

lemma ValueType_code_less: "ValueType_code t < ValueType_code t' \<longleftrightarrow> t = kTypeDeletion \<and> t' = kTypeValue"
  by (cases t; cases t') simp_all

lemma PackSequenceAndType_inject:
  "s \<le> kMaxSequenceNumber \<Longrightarrow> s' \<le> kMaxSequenceNumber \<Longrightarrow>
    PackSequenceAndType s t = PackSequenceAndType s' t' \<longleftrightarrow> s = s' \<and> t = t'"
  using PackSequenceAndType_less_iff [of s s' t t'] PackSequenceAndType_less_iff [of s' s t' t]
  by (cases t; cases t') (auto simp: not_less_iff_gr_or_eq)

text \<open>The key of a lookup, as an entry without a value.\<close>

lemma memtable_key_eq: "memtable_key (new_LookupKey u s) = length_prefixed (entry_key s kTypeValue u) @ []"
  by (simp add: memtable_key_def new_LookupKey_def Let_def length_prefixed_eq entry_key_def kValueTypeForSeek_def)

lemma user_key_new [simp]: "user_key (new_LookupKey u s) = u"
  by (simp add: user_key_def new_LookupKey_def Let_def)

text \<open>What an entry says about the key of a lookup.\<close>

fun entry_result :: "Entry \<Rightarrow> bytes \<Rightarrow> Status \<Rightarrow> bool \<times> bytes \<times> Status" where
  "entry_result (_, kTypeValue, _, v) val st = (True, v, st)"
| "entry_result (_, kTypeDeletion, _, v) val st = (True, val, NotFound [] [])"

lemma memtable_Get_entry_eq:
  assumes "entry_ok (s, type, key, v)"
  shows "memtable_Get_entry C k (memtable_entry s type key v) val st =
    Some (if C key (user_key k) = 0 then entry_result (s, type, key, v) val st else (False, val, st))"
proof -
  let ?tag = "PackSequenceAndType s type"
  let ?q = "key @ le_bytes 8 ?tag @ length_prefixed v"
  have entry: "memtable_entry s type key v = EncodeVarint32 (of_nat (length key + 8)) @ ?q"
    by (simp add: memtable_entry_eq length_prefixed_eq entry_key_def)
  obtain rest where r: "GetVarint32Ptr (take 5 (memtable_entry s type key v)) = Some (of_nat (length key + 8), rest)"
    "rest @ drop 5 (memtable_entry s type key v) = ?q"
    using GetVarint32Ptr_entry [of "of_nat (length key + 8)" ?q] unfolding entry by auto
  have n: "unat (of_nat (length key + 8) :: u32) = length key + 8"
    using assms by (simp add: unat_of_nat take_bit_nat_eq_self del: of_nat_add)
  have n8: "unat (of_nat (length key + 8) - 8 :: u32) = length key"
    using assms by (simp add: unat_of_nat take_bit_nat_eq_self)
  have v: "GetLengthPrefixedSlice_entry (length_prefixed v) = Some (v, [])"
    using GetLengthPrefixedSlice_entry_put [of v "[]"] assms by simp
  have tag: "?tag AND 0xff = ValueType_code type"
    using assms by (simp add: PackSequenceAndType_parts)
  have q: "take (length key) ?q = key" "drop (length key) ?q = le_bytes 8 ?tag @ length_prefixed v"
    "drop (length key + 8) ?q = length_prefixed v" "length key \<le> length ?q" by simp_all
  show ?thesis
    unfolding memtable_Get_entry_def r(1) bind.bind_lunit prod.case Let_def r(2) n n8 q
    using tag v by (cases type) simp_all
qed

lemma entry_bytes_imageE:
  assumes "x \<in> entry_bytes ` A"
  obtains s t k v where "(s, t, k, v) \<in> A" "x = entry_bytes (s, t, k, v)"
proof -
  obtain e where "e \<in> A" "x = entry_bytes e" using assms by (rule imageE)
  then show thesis using that by (cases e) simp
qed

context internal_keys begin

text \<open>Entries in their order.\<close>

lemma Compare_entries:
  assumes "entry_ok (s, t, k, v)" "entry_ok (s', t', k', v')"
  shows "memtable_Compare Compare (entry_bytes (s, t, k, v)) (entry_bytes (s', t', k', v')) < 0 \<longleftrightarrow>
      Compare k k' < 0 \<or> k = k' \<and> (s' < s \<or> s = s' \<and> t = kTypeValue \<and> t' = kTypeDeletion)"
    and "memtable_Compare Compare (entry_bytes (s, t, k, v)) (entry_bytes (s', t', k', v')) = 0 \<longleftrightarrow>
      k = k' \<and> s = s' \<and> t = t'"
  using assms user.Compare_eq_0 [of k k']
  by (cases t; cases t'; auto simp: memtable_entry_eq entry_key_def PackSequenceAndType_less_iff
      PackSequenceAndType_inject not_less_iff_gr_or_eq)+

lemma memtable_new: "memtable_holds Compare new_MemTable []"
  using memtable.skip_list_new [of "[]"] by (auto simp: memtable_holds_def new_MemTable_def)

lemma memtable_Add_holds:
  assumes "memtable_holds Compare mt es" "entry_ok (s, t, k, v)"
    and "\<forall>(s', t', k', v')\<in>set es. s' \<noteq> s"
  obtains mt' where "memtable_Add Compare s t k v mt = Some mt'" "memtable_holds Compare mt' ((s, t, k, v) # es)"
    "mt_refs mt' = mt_refs mt"
proof -
  obtain ns where ns: "skip_list (memtable_Compare Compare) valid_entry (mt_table mt) ns"
    "key_of (mt_table mt) ` set ns = entry_bytes ` set es" "\<forall>e\<in>set es. entry_ok e"
    using assms(1) by (auto simp: memtable_holds_def)
  have "memtable_Compare Compare (key_of (mt_table mt) x) (entry_bytes (s, t, k, v)) \<noteq> 0" if "x \<in> set ns" for x
  proof -
    have "key_of (mt_table mt) x \<in> entry_bytes ` set es" using that ns(2) by blast
    then obtain s' t' k' v' where e: "(s', t', k', v') \<in> set es" "key_of (mt_table mt) x = entry_bytes (s', t', k', v')"
      by (rule entry_bytes_imageE)
    with ns(3) have "entry_ok (s', t', k', v')" by blast
    from Compare_entries(2) [OF this assms(2)] show ?thesis using e assms(3) by auto
  qed
  with memtable.skip_list_Insert [OF ns(1) valid_entry_bytes [OF assms(2)]] obtain sl' ns' where
    ins: "Insert (memtable_Compare Compare) (entry_bytes (s, t, k, v)) (mt_table mt) = Some sl'"
    "skip_list (memtable_Compare Compare) valid_entry sl' ns'"
    "map (key_of sl') ns' = memtable.insert_key (entry_bytes (s, t, k, v)) (map (key_of (mt_table mt)) ns)"
    by metis
  have "key_of sl' ` set ns' = insert (entry_bytes (s, t, k, v)) (entry_bytes ` set es)"
    using arg_cong [OF ins(3), of set] ns(2) by (simp add: memtable.set_insert_key)
  then show thesis
    using that [of "mt\<lparr>mt_table := sl'\<rparr>"] ins(1,2) ns(3) assms(2)
    by (auto simp: memtable_Add_def memtable_holds_def)
qed

text \<open>The lookup finds the newest entry that is visible.\<close>

lemma memtable_Get_newest:
  assumes holds: "memtable_holds Compare mt es" and u: "length u + 8 < 2 ^ 32" and snapshot: "snapshot \<le> kMaxSequenceNumber"
  shows "(\<forall>(s, t, k, v)\<in>set es. k = u \<longrightarrow> snapshot < s) \<Longrightarrow>
      memtable_Get Compare (new_LookupKey u snapshot) val st mt = Some (False, val, st)"
    and "(s, t, u, v) \<in> set es \<Longrightarrow> s \<le> snapshot \<Longrightarrow>
      \<forall>(s', t', k', v')\<in>set es. k' = u \<and> s' \<le> snapshot \<longrightarrow> s' < s \<or> (s', t', k', v') = (s, t, u, v) \<Longrightarrow>
      memtable_Get Compare (new_LookupKey u snapshot) val st mt = Some (entry_result (s, t, u, v) val st)"
proof -
  let ?C = "memtable_Compare Compare"
  let ?k = "memtable_key (new_LookupKey u snapshot)"
  obtain ns where ns: "skip_list ?C valid_entry (mt_table mt) ns"
    "key_of (mt_table mt) ` set ns = entry_bytes ` set es" "\<forall>e\<in>set es. entry_ok e"
    using holds by (auto simp: memtable_holds_def)
  define before where "before = (\<lambda>x. ?C (key_of (mt_table mt) x) ?k < 0)"
  have "valid_entry ?k"
    using u unfolding memtable_key_eq valid_entry_def
    by (intro exI [of _ "entry_key snapshot kTypeValue u"] exI [of _ "[]"]) (simp add: entry_key_def)
  then have seek: "SkipIterator_Seek ?C (mt_table mt) ?k = Some (find (\<lambda>x. \<not> before x) ns)"
    using memtable.skip_list_Seek [OF ns(1)] by (simp add: before_def)
  have entry: "\<exists>s t k v. (s, t, k, v) \<in> set es \<and> key_of (mt_table mt) x = entry_bytes (s, t, k, v) \<and> entry_ok (s, t, k, v)"
    if "x \<in> set ns" for x
  proof -
    have "key_of (mt_table mt) x \<in> entry_bytes ` set es" using that ns(2) by blast
    then obtain s t k v where "(s, t, k, v) \<in> set es" "key_of (mt_table mt) x = entry_bytes (s, t, k, v)"
      by (rule entry_bytes_imageE)
    then show ?thesis using ns(3) by blast
  qed
  have before_iff: "?C (entry_bytes (s, t, k, v)) ?k < 0 \<longleftrightarrow> Compare k u < 0 \<or> k = u \<and> snapshot < s"
    if "entry_ok (s, t, k, v)" for s t k v
    using that snapshot u user.Compare_eq_0 [of k u] unfolding memtable_key_eq entry_bytes.simps memtable_entry_eq
    by (cases t) (auto simp: entry_key_def PackSequenceAndType_less_iff split: if_splits)
  have get: "memtable_Get Compare (new_LookupKey u snapshot) val st mt =
      (case find (\<lambda>x. \<not> before x) ns of None \<Rightarrow> Some (False, val, st)
       | Some x \<Rightarrow> memtable_Get_entry Compare (new_LookupKey u snapshot) (key_of (mt_table mt) x) val st)"
    by (simp add: memtable_Get_def seek)
  show "memtable_Get Compare (new_LookupKey u snapshot) val st mt = Some (False, val, st)"
    if none: "\<forall>(s, t, k, v)\<in>set es. k = u \<longrightarrow> snapshot < s"
  proof (cases "find (\<lambda>x. \<not> before x) ns")
    case (Some x)
    then have x: "x \<in> set ns" "\<not> before x" by (auto simp: find_Some_iff)
    from entry [OF x(1)] obtain s t k v where
      e: "(s, t, k, v) \<in> set es" "key_of (mt_table mt) x = entry_bytes (s, t, k, v)" "entry_ok (s, t, k, v)" by blast
    with x(2) before_iff [OF e(3)] none have "k \<noteq> u" by (auto simp: before_def)
    then show ?thesis
      using user.Compare_eq_0 [of k u] memtable_Get_entry_eq [OF e(3), of Compare "new_LookupKey u snapshot" val st]
      by (simp add: get Some e(2))
  qed (simp add: get)
  show "memtable_Get Compare (new_LookupKey u snapshot) val st mt = Some (entry_result (s, t, u, v) val st)"
    if e: "(s, t, u, v) \<in> set es" "s \<le> snapshot"
      and newest: "\<forall>(s', t', k', v')\<in>set es. k' = u \<and> s' \<le> snapshot \<longrightarrow> s' < s \<or> (s', t', k', v') = (s, t, u, v)"
  proof -
    have ok_e: "entry_ok (s, t, u, v)" using ns(3) e(1) by blast
    have "entry_bytes (s, t, u, v) \<in> key_of (mt_table mt) ` set ns" using ns(2) e(1) by blast
    then obtain y where y: "y \<in> set ns" "key_of (mt_table mt) y = entry_bytes (s, t, u, v)" by (metis imageE)
    have "\<not> before y" using before_iff [OF ok_e] e(2) y(2) by (simp add: before_def)
    with y(1) obtain x where x: "find (\<lambda>x. \<not> before x) ns = Some x"
      by (cases "find (\<lambda>x. \<not> before x) ns") (auto simp: find_None_iff)
    then obtain i where i: "i < length ns" "x = ns ! i" "\<not> before x" "\<And>j. j < i \<Longrightarrow> before (ns ! j)"
      by (auto simp: find_Some_iff)
    obtain j where j: "j < length ns" "y = ns ! j" using y(1) by (metis in_set_conv_nth)
    from entry [of x] i obtain s' t' k' v' where
      e': "(s', t', k', v') \<in> set es" "key_of (mt_table mt) x = entry_bytes (s', t', k', v')" "entry_ok (s', t', k', v')"
      by (metis nth_mem)
    have "i \<le> j" using i(4) [of j] j(2) \<open>\<not> before y\<close> by (auto simp: not_less [symmetric])
    then have "x = y \<or> ?C (key_of (mt_table mt) x) (key_of (mt_table mt) y) < 0"
      using memtable.skip_list_keys [OF ns(1)] i j
      by (cases "i = j") (auto simp: ascending_keys_def sorted_wrt_iff_nth_less)
    then have "(s', t', k', v') = (s, t, u, v) \<or> x = y"
      using Compare_entries(1) [OF e'(3) ok_e] before_iff [OF e'(3)] i(3) e'(1,2) y(2) newest
      by (fastforce simp: before_def)
    then have "key_of (mt_table mt) x = entry_bytes (s, t, u, v)" using e'(2) y(2) by auto
    then show ?thesis
      using memtable_Get_entry_eq [OF ok_e, of Compare "new_LookupKey u snapshot" val st]
      by (simp add: get x)
  qed
qed

end

interpretation memtable_order: key_order "memtable_Compare Slice_compare" valid_entry
  by (rule internal.memtable.key_order_axioms)

end
