(* ===== verification/Ldb_Write_Batch.thy ===== *)
theory Ldb_Write_Batch imports Ldb_Memtable begin

text \<open>
  Write batches, \<open>db/write_batch.cc\<close>: a byte string with a sequence number, a count and the operations. A batch
  is the member \<open>rep_\<close>; \<open>None\<close> is an access behind its end, or an insertion into a memtable that is undefined.
  A handler, which the code gives two virtual functions, is two functions on a state of any type. The \<open>int\<close> counters
  are integers between \<open>-2^31\<close> and \<open>2^31 - 1\<close>; what the language leaves undefined, a count beyond, wraps around.
\<close>

subsection \<open>The code\<close>

definition kHeader :: nat where
  "kHeader = 12"

type_synonym WriteBatch = bytes

definition WriteBatch_Clear :: WriteBatch where
  "WriteBatch_Clear = replicate kHeader 0"

definition ApproximateSize :: "WriteBatch \<Rightarrow> nat" where
  "ApproximateSize rep = length rep"

text \<open>The sum of two 32-bit \<open>int\<close>s.\<close>

definition wrap32 :: "int \<Rightarrow> int" where
  "wrap32 n = sint (word_of_int n :: u32)"

definition int_plus :: "int \<Rightarrow> int \<Rightarrow> int" where
  "int_plus a b = wrap32 (a + b)"

text \<open>The count is an \<open>int\<close> from 32 bits without a sign.\<close>

definition batch_Count :: "WriteBatch \<Rightarrow> int option" where
  "batch_Count rep = map_option (\<lambda>n. sint (n :: u32)) (DecodeFixed32 (drop 8 rep))"

definition batch_SetCount :: "int \<Rightarrow> WriteBatch \<Rightarrow> WriteBatch option" where
  "batch_SetCount n rep =
     (if length rep < 12 then None else Some (take 8 rep @ EncodeFixed32 (word_of_int n) @ drop 12 rep))"

definition batch_Sequence :: "WriteBatch \<Rightarrow> SequenceNumber option" where
  "batch_Sequence rep = DecodeFixed64 rep"

definition batch_SetSequence :: "SequenceNumber \<Rightarrow> WriteBatch \<Rightarrow> WriteBatch option" where
  "batch_SetSequence seq rep = (if length rep < 8 then None else Some (EncodeFixed64 seq @ drop 8 rep))"

definition batch_SetContents :: "bytes \<Rightarrow> WriteBatch" where
  "batch_SetContents contents = contents"

definition WriteBatch_Put :: "bytes \<Rightarrow> bytes \<Rightarrow> WriteBatch \<Rightarrow> WriteBatch option" where
  "WriteBatch_Put key val rep =
     Option.bind (batch_Count rep) (\<lambda>count.
       map_option (\<lambda>rep.
           let rep = rep @ [ucast (ValueType_code kTypeValue)];
               rep = PutLengthPrefixedSlice rep key
           in PutLengthPrefixedSlice rep val)
         (batch_SetCount (int_plus count 1) rep))"

definition WriteBatch_Delete :: "bytes \<Rightarrow> WriteBatch \<Rightarrow> WriteBatch option" where
  "WriteBatch_Delete key rep =
     Option.bind (batch_Count rep) (\<lambda>count.
       map_option (\<lambda>rep. PutLengthPrefixedSlice (rep @ [ucast (ValueType_code kTypeDeletion)]) key)
         (batch_SetCount (int_plus count 1) rep))"

definition batch_Append :: "WriteBatch \<Rightarrow> WriteBatch \<Rightarrow> WriteBatch option" where
  "batch_Append dst src =
     Option.bind (batch_Count dst) (\<lambda>n.
       Option.bind (batch_Count src) (\<lambda>m.
         Option.bind (batch_SetCount (int_plus n m) dst) (\<lambda>dst.
           if length src < kHeader then None else Some (dst @ drop kHeader src))))"

record 'h Handler =
  handler_Put :: "bytes \<Rightarrow> bytes \<Rightarrow> 'h \<Rightarrow> 'h option"
  handler_Delete :: "bytes \<Rightarrow> 'h \<Rightarrow> 'h option"

text \<open>The loop, until the end of the input or a return: the status of an early return, or the count \<open>found\<close>.\<close>

function Iterate_loop :: "'h Handler \<Rightarrow> bytes \<Rightarrow> int \<Rightarrow> 'h \<Rightarrow> ((Status + int) \<times> 'h) option" where
  "Iterate_loop handler [] found h = Some (Inr found, h)"
| "Iterate_loop handler (tag # input) found h =
     (let found = int_plus found 1 in
      if tag = ucast (ValueType_code kTypeValue) then
        (case GetLengthPrefixedSlice input of
           None \<Rightarrow> Some (Inl (Corruption (chars ''bad WriteBatch Put'')), h)
         | Some (key, input') \<Rightarrow>
             (case GetLengthPrefixedSlice input' of
                None \<Rightarrow> Some (Inl (Corruption (chars ''bad WriteBatch Put'')), h)
              | Some (val, input'') \<Rightarrow>
                  Option.bind (handler_Put handler key val h) (Iterate_loop handler input'' found)))
      else if tag = ucast (ValueType_code kTypeDeletion) then
        (case GetLengthPrefixedSlice input of
           None \<Rightarrow> Some (Inl (Corruption (chars ''bad WriteBatch Delete'')), h)
         | Some (key, input') \<Rightarrow> Option.bind (handler_Delete handler key h) (Iterate_loop handler input' found))
      else Some (Inl (Corruption (chars ''unknown WriteBatch tag'')), h))"
  by pat_completeness auto
termination
  by (relation "measure (\<lambda>(_, input, _, _). length input)") (auto dest!: slice.get_length)

definition Iterate :: "'h Handler \<Rightarrow> WriteBatch \<Rightarrow> 'h \<Rightarrow> (Status \<times> 'h) option" where
  "Iterate handler rep h =
     (if length rep < kHeader then Some (Corruption (chars ''malformed WriteBatch (too small)''), h)
      else Option.bind (Iterate_loop handler (drop kHeader rep) 0 h) (\<lambda>(r, h).
        case r of
          Inl status \<Rightarrow> Some (status, h)
        | Inr found \<Rightarrow>
            map_option (\<lambda>count. (if found \<noteq> count then Corruption (chars ''WriteBatch has wrong count'') else status_OK, h))
              (batch_Count rep)))"

text \<open>The handler that inserts: the next sequence number and the memtable.\<close>

definition MemTableInserter :: "(bytes \<Rightarrow> bytes \<Rightarrow> int) \<Rightarrow> (SequenceNumber \<times> MemTable) Handler" where
  "MemTableInserter user_Compare =
     \<lparr>handler_Put = \<lambda>key val (sequence, mem).
        map_option (\<lambda>mem. (sequence + 1, mem)) (memtable_Add user_Compare sequence kTypeValue key val mem),
      handler_Delete = \<lambda>key (sequence, mem).
        map_option (\<lambda>mem. (sequence + 1, mem)) (memtable_Add user_Compare sequence kTypeDeletion key [] mem)\<rparr>"

definition InsertInto :: "(bytes \<Rightarrow> bytes \<Rightarrow> int) \<Rightarrow> WriteBatch \<Rightarrow> MemTable \<Rightarrow> (Status \<times> MemTable) option" where
  "InsertInto user_Compare b memtable =
     Option.bind (batch_Sequence b) (\<lambda>sequence.
       map_option (\<lambda>(status, _, mem). (status, mem)) (Iterate (MemTableInserter user_Compare) b (sequence, memtable)))"

subsection \<open>Batches and their operations\<close>

datatype WriteOp = PutOp bytes bytes | DeleteOp bytes

primrec op_code :: "WriteOp \<Rightarrow> bytes" where
  "op_code (PutOp key val) = 1 # length_prefixed key @ length_prefixed val"
| "op_code (DeleteOp key) = 0 # length_prefixed key"

primrec op_ok :: "WriteOp \<Rightarrow> bool" where
  "op_ok (PutOp key val) \<longleftrightarrow> length key + 8 < 2 ^ 32 \<and> length val < 2 ^ 32"
| "op_ok (DeleteOp key) \<longleftrightarrow> length key + 8 < 2 ^ 32"

text \<open>A well-formed batch with these operations.\<close>

definition batch_of :: "SequenceNumber \<Rightarrow> WriteOp list \<Rightarrow> WriteBatch" where
  "batch_of seq ops = le_bytes 8 seq @ le_bytes 4 (of_nat (length ops) :: u32) @ concat (map op_code ops)"

primrec apply_op :: "'h Handler \<Rightarrow> WriteOp \<Rightarrow> 'h \<Rightarrow> 'h option" where
  "apply_op handler (PutOp key val) h = handler_Put handler key val h"
| "apply_op handler (DeleteOp key) h = handler_Delete handler key h"

primrec apply_ops :: "'h Handler \<Rightarrow> WriteOp list \<Rightarrow> 'h \<Rightarrow> 'h option" where
  "apply_ops handler [] h = Some h"
| "apply_ops handler (op # ops) h = Option.bind (apply_op handler op h) (apply_ops handler ops)"

lemma batch_of_parts [simp]:
  "length (batch_of seq ops) = 12 + length (concat (map op_code ops))" "take 8 (batch_of seq ops) = le_bytes 8 seq"
  "drop 8 (batch_of seq ops) = le_bytes 4 (of_nat (length ops) :: u32) @ concat (map op_code ops)"
  "drop 12 (batch_of seq ops) = concat (map op_code ops)"
  by (simp_all add: batch_of_def)

lemma Clear_batch_of: "WriteBatch_Clear = batch_of 0 []"
  by (simp add: WriteBatch_Clear_def batch_of_def kHeader_def le_bytes_def eval_nat_numeral upt_rec)

lemma batch_Count_of: "batch_Count (batch_of seq ops) = Some (sint (of_nat (length ops) :: u32))"
  by (simp add: batch_Count_def take_4_append)

lemma batch_SetCount_of:
  "batch_SetCount n (batch_of seq ops) = Some (le_bytes 8 seq @ le_bytes 4 (word_of_int n :: u32) @ concat (map op_code ops))"
  by (simp add: batch_SetCount_def)

lemma batch_Sequence_of: "batch_Sequence (batch_of seq ops) = Some seq"
  by (simp add: batch_Sequence_def)

lemma batch_SetSequence_of: "batch_SetSequence seq' (batch_of seq ops) = Some (batch_of seq' ops)"
  by (simp add: batch_SetSequence_def) (simp add: batch_of_def)

lemma wrap32_small: "0 \<le> n \<Longrightarrow> n < 2 ^ 31 \<Longrightarrow> wrap32 n = n"
  by (simp add: wrap32_def signed_of_int signed_take_bit_int_eq_self)

lemma int_plus_wrap32: "int_plus (wrap32 n) m = wrap32 (n + m)"
  by (simp add: int_plus_def wrap32_def flip: wi_hom_add)

lemma of_int_sint_add:
  "word_of_int (int_plus (sint (a :: u32)) 1) = a + 1" "word_of_int (int_plus (sint a) (sint b)) = a + (b :: u32)"
  by (simp_all add: int_plus_def wrap32_def wi_hom_syms)

lemma batch_Put_of: "WriteBatch_Put key val (batch_of seq ops) = Some (batch_of seq (ops @ [PutOp key val]))"
  by (simp add: WriteBatch_Put_def batch_Count_of batch_SetCount_of of_int_sint_add PutLengthPrefixedSlice_append)
    (simp add: batch_of_def add.commute)

lemma batch_Delete_of: "WriteBatch_Delete key (batch_of seq ops) = Some (batch_of seq (ops @ [DeleteOp key]))"
  by (simp add: WriteBatch_Delete_def batch_Count_of batch_SetCount_of of_int_sint_add PutLengthPrefixedSlice_append)
    (simp add: batch_of_def add.commute)

lemma batch_Append_of: "batch_Append (batch_of seq ops) (batch_of seq' ops') = Some (batch_of seq (ops @ ops'))"
  by (simp add: batch_Append_def batch_Count_of batch_SetCount_of of_int_sint_add kHeader_def)
    (simp add: batch_of_def)

lemma Iterate_loop_ops:
  "\<forall>op\<in>set ops. op_ok op \<Longrightarrow>
    Iterate_loop handler (concat (map op_code ops)) (wrap32 found) h =
      map_option (\<lambda>h. (Inr (wrap32 (found + int (length ops))), h)) (apply_ops handler ops h)"
proof (induction ops arbitrary: found h)
  case (Cons op ops)
  have len: "length k < 2 ^ 32" if "length k + 8 < 2 ^ 32" for k :: bytes using that by simp
  show ?case
  proof (cases op)
    case (PutOp key val)
    with Cons show ?thesis
      by (cases "handler_Put handler key val h") (simp_all add: slice.get_put int_plus_wrap32 Let_def add.assoc)
  next
    case (DeleteOp key)
    with Cons show ?thesis
      by (cases "handler_Delete handler key h") (simp_all add: slice.get_put int_plus_wrap32 Let_def add.assoc)
  qed
qed simp

lemma Iterate_of:
  assumes "\<forall>op\<in>set ops. op_ok op" "length ops < 2 ^ 31"
  shows "Iterate handler (batch_of seq ops) h = map_option (Pair status_OK) (apply_ops handler ops h)"
proof -
  have "sint (of_nat (length ops) :: u32) = int (length ops)"
    using assms(2) by (simp add: signed_of_nat signed_take_bit_int_eq_self)
  then show ?thesis
    using Iterate_loop_ops [OF assms(1), of handler 0 h] assms(2) by (cases "apply_ops handler ops h")
      (simp_all add: Iterate_def kHeader_def batch_Count_of wrap32_small)
qed

text \<open>Any bytes: what the handler has done is what some operations do, as many as counted.\<close>

lemma Iterate_loop_cases [case_names error op]:
  obtains m where "\<And>found h. Iterate_loop handler (tag # input) found h = Some (Inl (Corruption m), h)"
  | op rest where "length rest < length input"
    "\<And>found h. Iterate_loop handler (tag # input) found h =
       Option.bind (apply_op handler op h) (Iterate_loop handler rest (int_plus found 1))"
proof -
  consider (put) key input' val rest where "tag = 1" "GetLengthPrefixedSlice input = Some (key, input')"
      "GetLengthPrefixedSlice input' = Some (val, rest)"
    | (del) key rest where "tag = 0" "GetLengthPrefixedSlice input = Some (key, rest)"
    | (put_error) "tag = 1" "GetLengthPrefixedSlice input = None"
    | (put_error') key input' where "tag = 1" "GetLengthPrefixedSlice input = Some (key, input')"
        "GetLengthPrefixedSlice input' = None"
    | (del_error) "tag = 0" "GetLengthPrefixedSlice input = None"
    | (tag) "tag \<noteq> 0" "tag \<noteq> 1"
    by (metis option.exhaust surj_pair)
  then show thesis
  proof cases
    case put
    with slice.get_length [OF put(2)] slice.get_length [OF put(3)] that(2) [of rest "PutOp key val"]
    show thesis by simp
  next
    case del
    with slice.get_length [OF del(2)] that(2) [of rest "DeleteOp key"] show thesis by simp
  qed (use that(1) in simp_all)
qed

lemma Iterate_loop_any:
  "Iterate_loop handler input (wrap32 found) h = Some (r, h') \<Longrightarrow>
    \<exists>ops. apply_ops handler ops h = Some h' \<and> 2 * length ops \<le> length input
      \<and> (case r of Inr n \<Rightarrow> n = wrap32 (found + int (length ops)) | Inl s \<Rightarrow> \<not> ok s)"
proof (induction "length input" arbitrary: input found h rule: less_induct)
  case less
  show ?case
  proof (cases input)
    case Nil
    with less.prems show ?thesis by (auto intro: exI [of _ "[]"])
  next
    case (Cons tag input')
    show ?thesis
    proof (cases rule: Iterate_loop_cases [of handler tag input'])
      case (error m)
      with Cons less.prems show ?thesis by (intro exI [of _ "[]"]) auto
    next
      case (op op rest)
      from less.prems have "Option.bind (apply_op handler op h) (Iterate_loop handler rest (wrap32 (found + 1))) = Some (r, h')"
        unfolding Cons op(2) int_plus_wrap32 .
      then obtain h1 where h1: "apply_op handler op h = Some h1"
        "Iterate_loop handler rest (wrap32 (found + 1)) h1 = Some (r, h')" by (auto simp: bind_eq_Some_conv)
      from less.hyps [OF _ h1(2)] Cons op(1) obtain ops where ops: "apply_ops handler ops h1 = Some h'"
        "2 * length ops \<le> length rest"
        "case r of Inr n \<Rightarrow> n = wrap32 (found + 1 + int (length ops)) | Inl s \<Rightarrow> \<not> ok s" by auto
      with h1(1) Cons op(1) show ?thesis by (intro exI [of _ "op # ops"]) (auto simp: add.assoc split: sum.splits)
    qed
  qed
qed

lemma Iterate_loop_returns:
  assumes "\<forall>op h. apply_op handler op h \<noteq> None"
  shows "Iterate_loop handler input found h \<noteq> None"
proof (induction "length input" arbitrary: input found h rule: less_induct)
  case less
  show ?case
  proof (cases input)
    case (Cons tag input')
    show ?thesis
    proof (cases rule: Iterate_loop_cases [of handler tag input'])
      case (op op rest)
      with assms obtain h1 where "apply_op handler op h = Some h1" by (metis option.exhaust)
      with op less.hyps [of rest "int_plus found 1" h1] Cons show ?thesis by simp
    qed (simp add: Cons)
  qed simp
qed

text \<open>C34: Write batches are well formed. \<open>Clear\<close> makes the batch without operations; \<open>Put\<close> and \<open>Delete\<close> add
  theirs to a well-formed batch, \<open>Append\<close> those of another and \<open>SetSequence\<close> changes the number; count and number are
  read back, and \<open>Iterate\<close> gives a handler just these operations, in order, and the status OK.\<close>

theorem ldb_write_batch_wellformed:
  assumes "\<forall>op\<in>set ops. op_ok op" "length ops < 2 ^ 31"
  shows "WriteBatch_Clear = batch_of 0 []
    \<and> WriteBatch_Put key val (batch_of seq ops) = Some (batch_of seq (ops @ [PutOp key val]))
    \<and> WriteBatch_Delete key (batch_of seq ops) = Some (batch_of seq (ops @ [DeleteOp key]))
    \<and> batch_Append (batch_of seq ops) (batch_of seq' ops') = Some (batch_of seq (ops @ ops'))
    \<and> batch_SetSequence seq' (batch_of seq ops) = Some (batch_of seq' ops)
    \<and> batch_Sequence (batch_of seq ops) = Some seq \<and> batch_Count (batch_of seq ops) = Some (int (length ops))
    \<and> Iterate handler (batch_of seq ops) h = map_option (Pair status_OK) (apply_ops handler ops h)"
proof -
  have "sint (of_nat (length ops) :: u32) = int (length ops)"
    using assms(2) by (simp add: signed_of_nat signed_take_bit_int_eq_self)
  then show ?thesis
    using Iterate_of [OF assms]
    by (simp add: Clear_batch_of batch_Put_of batch_Delete_of batch_Append_of batch_SetSequence_of batch_Sequence_of
        batch_Count_of del: batch_of_parts)
qed

lemma ldb_write_batch_wellformed_witness:
  "batch_Count (batch_of 7 [PutOp [97] [98], DeleteOp [99]]) = Some 2"
proof -
  have "\<forall>op\<in>set [PutOp [97] [98], DeleteOp [99]]. op_ok op" "length [PutOp [97] [98], DeleteOp [99]] < 2 ^ 31"
    by simp_all
  from ldb_write_batch_wellformed [OF this, of _ _ 7 _ _ "undefined :: unit Handler"] show ?thesis by simp
qed

text \<open>C35: \<open>Iterate\<close> on any bytes. It returns when its handler does. What the handler has been given is a
  list of operations, also before an error, and only if their number modulo \<open>2^32\<close> is the count of the batch the
  status is OK; in a batch of at most \<open>2^32\<close> bytes the number itself is then the count.\<close>

theorem ldb_write_batch_any_bytes:
  "((\<forall>op h. apply_op handler op h \<noteq> None) \<longrightarrow> Iterate handler rep h \<noteq> None)
   \<and> (Iterate handler rep h = Some (status, h') \<longrightarrow>
      (\<exists>ops. apply_ops handler ops h = Some h'
         \<and> (ok status \<longrightarrow> batch_Count rep = Some (wrap32 (int (length ops))))
         \<and> (ok status \<and> length rep \<le> 2 ^ 32 \<longrightarrow> batch_Count rep = Some (int (length ops)))))"
proof (intro conjI impI)
  have count: "batch_Count rep \<noteq> None" if "\<not> length rep < kHeader" using that by (simp add: batch_Count_def kHeader_def)
  show "Iterate handler rep h \<noteq> None" if "\<forall>op h. apply_op handler op h \<noteq> None"
    using Iterate_loop_returns [OF that, of "drop kHeader rep" 0 h] count by (auto simp: Iterate_def split: sum.splits)
  assume it: "Iterate handler rep h = Some (status, h')"
  show "\<exists>ops. apply_ops handler ops h = Some h'
    \<and> (ok status \<longrightarrow> batch_Count rep = Some (wrap32 (int (length ops))))
    \<and> (ok status \<and> length rep \<le> 2 ^ 32 \<longrightarrow> batch_Count rep = Some (int (length ops)))"
  proof (cases "length rep < kHeader")
    case True
    with it show ?thesis by (intro exI [of _ "[]"]) (auto simp: Iterate_def)
  next
    case False
    with it obtain r where r: "Iterate_loop handler (drop kHeader rep) (wrap32 0) h = Some (r, h')"
      "r = Inl status \<or> (\<exists>count. r = Inr count \<and> (ok status \<longrightarrow> batch_Count rep = Some count))"
      by (cases "Iterate_loop handler (drop kHeader rep) 0 h") (auto simp: Iterate_def wrap32_small Corruption_def new_Status_def status_OK_def Let_def split: sum.splits if_splits)
    from Iterate_loop_any [OF r(1), simplified add_0] obtain ops where ops: "apply_ops handler ops h = Some h'"
      "2 * length ops \<le> length rep - kHeader" "case r of Inr n \<Rightarrow> n = wrap32 (int (length ops)) | Inl s \<Rightarrow> \<not> ok s"
      unfolding length_drop by blast
    moreover have "wrap32 (int (length ops)) = int (length ops)" if "length rep \<le> 2 ^ 32"
      using ops(2) that by (intro wrap32_small) (simp_all add: kHeader_def)
    ultimately show ?thesis using r(2) by (intro exI [of _ ops]) (auto split: sum.splits)
  qed
qed

lemma ldb_write_batch_any_bytes_witness:
  "Iterate \<lparr>handler_Put = \<lambda>_ _ n. Some (n + 1), handler_Delete = \<lambda>_ n. Some (n + 1)\<rparr> [1, 2, 3] (0 :: nat) \<noteq> None"
proof (rule ldb_write_batch_any_bytes [THEN conjunct1, rule_format])
  fix op and n :: nat
  show "apply_op \<lparr>handler_Put = \<lambda>_ _ n. Some (n + 1), handler_Delete = \<lambda>_ n. Some (n + 1)\<rparr> op n \<noteq> None"
    by (cases op) simp_all
qed

subsection \<open>Batches in the memtable\<close>

primrec op_key :: "WriteOp \<Rightarrow> bytes" where
  "op_key (PutOp key val) = key"
| "op_key (DeleteOp key) = key"

primrec op_value :: "WriteOp \<Rightarrow> bytes option" where
  "op_value (PutOp key val) = Some val"
| "op_value (DeleteOp key) = None"

text \<open>The specification: what a store knows of a key after some operations; \<open>Some None\<close> is a deletion.\<close>

definition store_after :: "WriteOp list \<Rightarrow> bytes \<Rightarrow> bytes option option" where
  "store_after ops = fold (\<lambda>op m. m(op_key op \<mapsto> op_value op)) ops Map.empty"

primrec write_ops :: "WriteOp list \<Rightarrow> WriteBatch \<Rightarrow> WriteBatch option" where
  "write_ops [] rep = Some rep"
| "write_ops (op # ops) rep =
     Option.bind (case op of PutOp key val \<Rightarrow> WriteBatch_Put key val rep | DeleteOp key \<Rightarrow> WriteBatch_Delete key rep)
       (write_ops ops)"

text \<open>Writing batches one after the other, as the database numbers them.\<close>

primrec write_batches ::
  "(bytes \<Rightarrow> bytes \<Rightarrow> int) \<Rightarrow> WriteOp list list \<Rightarrow> SequenceNumber \<Rightarrow> MemTable \<Rightarrow> MemTable option" where
  "write_batches C [] seq mt = Some mt"
| "write_batches C (ops # opss) seq mt =
     Option.bind (write_ops ops WriteBatch_Clear) (\<lambda>rep.
       Option.bind (batch_SetSequence seq rep) (\<lambda>rep.
         Option.bind (InsertInto C rep mt) (\<lambda>(status, mt).
           if ok status then write_batches C opss (seq + of_nat (length ops)) mt else None)))"

lemma store_after_cases:
  "(store_after ops u = None \<and> (\<forall>op\<in>set ops. op_key op \<noteq> u)) \<or>
   (\<exists>i<length ops. op_key (ops ! i) = u \<and> store_after ops u = Some (op_value (ops ! i))
      \<and> (\<forall>j<length ops. i < j \<longrightarrow> op_key (ops ! j) \<noteq> u))"
proof (induction ops rule: rev_induct)
  case (snoc op ops)
  have s: "store_after (ops @ [op]) u = (if op_key op = u then Some (op_value op) else store_after ops u)"
    by (simp add: store_after_def)
  show ?case
  proof (cases "op_key op = u")
    case True
    then show ?thesis using s by (intro disjI2 exI [of _ "length ops"]) simp
  next
    case False
    with snoc show ?thesis unfolding s by (auto simp: nth_append less_Suc_eq intro: exI)
  qed
qed (simp add: store_after_def)

lemma write_ops_of: "write_ops ops (batch_of seq ops') = Some (batch_of seq (ops' @ ops))"
proof (induction ops arbitrary: ops')
  case (Cons op ops)
  then show ?case by (cases op) (simp_all add: batch_Put_of batch_Delete_of)
qed simp

text \<open>The entries that the operations become.\<close>

definition op_entry :: "SequenceNumber \<Rightarrow> WriteOp \<Rightarrow> Entry" where
  "op_entry s op = (case op of PutOp key val \<Rightarrow> (s, kTypeValue, key, val) | DeleteOp key \<Rightarrow> (s, kTypeDeletion, key, []))"

primrec op_entries :: "SequenceNumber \<Rightarrow> WriteOp list \<Rightarrow> Entry list" where
  "op_entries s [] = []"
| "op_entries s (op # ops) = op_entry s op # op_entries (s + 1) ops"

lemma op_entries_append: "op_entries s (ops @ ops') = op_entries s ops @ op_entries (s + of_nat (length ops)) ops'"
  by (induction ops arbitrary: s) (simp_all add: add.assoc)

lemma op_entries_nth [simp]:
  "length (op_entries s ops) = length ops"
  "i < length ops \<Longrightarrow> op_entries s ops ! i = op_entry (s + of_nat i) (ops ! i)"
proof (induction ops arbitrary: s i)
  case (Cons op ops)
  { case 2 with Cons(2) show ?case by (cases i) (simp_all add: add.assoc) }
qed simp_all

lemma memtable_holds_set: "set es = set es' \<Longrightarrow> memtable_holds C mt es = memtable_holds C mt es'"
  by (simp add: memtable_holds_def)

context internal_keys begin

lemma insert_ops_holds:
  assumes "memtable_holds Compare mt es" "\<forall>op\<in>set ops. op_ok op" "unat seq + length ops \<le> 2 ^ 56"
    and "\<forall>e\<in>set es. fst e < seq"
  shows "\<exists>mt'. apply_ops (MemTableInserter Compare) ops (seq, mt) = Some (seq + of_nat (length ops), mt')
    \<and> memtable_holds Compare mt' (es @ op_entries seq ops)"
  using assms
proof (induction ops arbitrary: seq mt es)
  case (Cons op ops)
  obtain t k v where e: "op_entry seq op = (seq, t, k, v)" by (cases op) (auto simp: op_entry_def)
  have seq: "unat seq < 2 ^ 56" using Cons.prems(3) by simp
  then have "seq \<le> kMaxSequenceNumber" by (simp add: kMaxSequenceNumber_def word_le_nat_alt push_bit_eq_mult)
  then have ok_e: "entry_ok (seq, t, k, v)" using Cons.prems(2) e by (cases op) (auto simp: op_entry_def)
  have "\<forall>(s', t', k', v')\<in>set es. s' \<noteq> seq" using Cons.prems(4) by fastforce
  from memtable_Add_holds [OF Cons.prems(1) ok_e this] obtain mt1 where
    mt1: "memtable_Add Compare seq t k v mt = Some mt1" "memtable_holds Compare mt1 ((seq, t, k, v) # es)" .
  then have step: "apply_op (MemTableInserter Compare) op (seq, mt) = Some (seq + 1, mt1)"
    using e by (cases op) (auto simp: MemTableInserter_def op_entry_def)
  have seq1: "unat (seq + 1) = unat seq + 1" using seq by (simp add: unat_word_ariths)
  have "\<forall>e\<in>set (es @ [op_entry seq op]). fst e < seq + 1"
    using Cons.prems(4) seq1 e by (fastforce simp: word_less_nat_alt)
  moreover have "memtable_holds Compare mt1 (es @ [op_entry seq op])"
    using mt1(2) e by (subst memtable_holds_set [of _ "(seq, t, k, v) # es"]) simp_all
  ultimately obtain mt' where
    "apply_ops (MemTableInserter Compare) ops (seq + 1, mt1) = Some (seq + 1 + of_nat (length ops), mt')"
    "memtable_holds Compare mt' ((es @ [op_entry seq op]) @ op_entries (seq + 1) ops)"
    using Cons.IH [of mt1 "es @ [op_entry seq op]" "seq + 1"] Cons.prems(2,3) seq1 by auto
  with step show ?case by (auto simp: add.assoc)
qed simp

lemma write_batches_holds:
  assumes "memtable_holds Compare mt es" "\<forall>op\<in>set (concat opss). op_ok op" "\<forall>ops\<in>set opss. length ops < 2 ^ 31"
    and "unat seq + length (concat opss) \<le> 2 ^ 56" "\<forall>e\<in>set es. fst e < seq"
  shows "\<exists>mt'. write_batches Compare opss seq mt = Some mt' \<and> memtable_holds Compare mt' (es @ op_entries seq (concat opss))"
  using assms
proof (induction opss arbitrary: seq mt es)
  case (Cons ops opss)
  then obtain mt1 where
    mt1: "apply_ops (MemTableInserter Compare) ops (seq, mt) = Some (seq + of_nat (length ops), mt1)"
    "memtable_holds Compare mt1 (es @ op_entries seq ops)"
    using insert_ops_holds [of mt es ops seq] by auto
  have "write_ops ops WriteBatch_Clear = Some (batch_of 0 ops)" using write_ops_of [of ops 0 "[]"] by (simp add: Clear_batch_of)
  moreover have "InsertInto Compare (batch_of seq ops) mt = Some (status_OK, mt1)"
    using Iterate_of [of ops "MemTableInserter Compare" seq "(seq, mt)"] mt1(1) Cons.prems(2,3)
    by (simp add: InsertInto_def batch_Sequence_of)
  moreover have next_seq: "unat (seq + of_nat (length ops)) = unat seq + length ops"
    using Cons.prems(4) by (simp add: unat_word_ariths unat_of_nat)
  have old: "fst e < seq + of_nat (length ops)" if "e \<in> set (es @ op_entries seq ops)" for e
  proof (cases "e \<in> set es")
    case True
    with Cons.prems(5) next_seq show ?thesis by (fastforce simp: word_less_nat_alt)
  next
    case False
    with that obtain i where i: "i < length ops" "e = op_entry (seq + of_nat i) (ops ! i)"
      by (auto simp: in_set_conv_nth)
    then have "fst e = seq + of_nat i" by (cases "ops ! i") (auto simp: op_entry_def)
    moreover have "unat (seq + of_nat i) = unat seq + i"
      using Cons.prems(4) i(1) by (simp add: unat_word_ariths unat_of_nat)
    ultimately show ?thesis using i(1) next_seq by (simp add: word_less_nat_alt)
  qed
  obtain mt' where "write_batches Compare opss (seq + of_nat (length ops)) mt1 = Some mt'"
    "memtable_holds Compare mt' ((es @ op_entries seq ops) @ op_entries (seq + of_nat (length ops)) (concat opss))"
    using Cons.IH [OF mt1(2), of "seq + of_nat (length ops)"] Cons.prems(2-4) next_seq old by auto
  ultimately show ?case by (auto simp: batch_SetSequence_of op_entries_append)
qed simp

lemma memtable_Get_store:
  assumes "memtable_holds Compare mt (op_entries seq ops)" "unat seq + length ops \<le> 2 ^ 56"
    and "length u + 8 < 2 ^ 32" "snapshot \<le> kMaxSequenceNumber"
  shows "memtable_Get Compare (new_LookupKey u snapshot) val st mt =
    Some (case store_after (take (Suc (unat snapshot) - unat seq) ops) u of
            None \<Rightarrow> (False, val, st)
          | Some None \<Rightarrow> (True, val, NotFound [] [])
          | Some (Some v) \<Rightarrow> (True, v, st))"
proof -
  define m where "m = Suc (unat snapshot) - unat seq"
  have num: "unat (seq + of_nat i) = unat seq + i" if "i < length ops" for i
    using assms(2) that by (simp add: unat_word_ariths unat_of_nat)
  have visible: "seq + of_nat i \<le> snapshot \<longleftrightarrow> i < m" if "i < length ops" for i
    using num [OF that] by (auto simp: word_le_nat_alt m_def)
  have entries: "\<exists>i<length ops. s = seq + of_nat i \<and> k = op_key (ops ! i) \<and> (s, t, k, v) = op_entry (seq + of_nat i) (ops ! i)"
    if "(s, t, k, v) \<in> set (op_entries seq ops)" for s t k v
  proof -
    from that obtain i where i: "i < length ops" "(s, t, k, v) = op_entry (seq + of_nat i) (ops ! i)"
      by (auto simp: in_set_conv_nth)
    then show ?thesis by (intro exI [of _ i]) (cases "ops ! i"; simp add: op_entry_def)
  qed
  consider (none) "store_after (take m ops) u = None" "\<forall>op\<in>set (take m ops). op_key op \<noteq> u"
    | (last) i where "i < length (take m ops)" "op_key (ops ! i) = u" "store_after (take m ops) u = Some (op_value (ops ! i))"
        "\<forall>j<length (take m ops). i < j \<longrightarrow> op_key (ops ! j) \<noteq> u"
    using store_after_cases [of "take m ops" u] by auto
  then show ?thesis
  proof cases
    case none
    have "snapshot < s" if e: "(s, t, u, v) \<in> set (op_entries seq ops)" for s t v
    proof -
      from entries [OF e] obtain i where i: "i < length ops" "s = seq + of_nat i" "u = op_key (ops ! i)" by blast
      have "ops ! i \<in> set (take m ops)" if "i < m" using that i(1) by (simp add: in_set_conv_nth) (metis nth_take)
      with none(2) i(3) have "\<not> i < m" by auto
      with visible [OF i(1)] i(2) show ?thesis by simp
    qed
    with memtable_Get_newest(1) [OF assms(1,3,4), of val st] none(1) show ?thesis by (auto simp: m_def)
  next
    case last
    then have i: "i < length ops" "i < m" by simp_all
    obtain t v where e: "op_entry (seq + of_nat i) (ops ! i) = (seq + of_nat i, t, u, v)"
      using last(2) by (cases "ops ! i") (auto simp: op_entry_def)
    have "op_entries seq ops ! i \<in> set (op_entries seq ops)" using i(1) by (intro nth_mem) simp
    then have mem: "(seq + of_nat i, t, u, v) \<in> set (op_entries seq ops)" using i(1) e by simp
    have "s' < seq + of_nat i \<or> (s', t', u, v') = (seq + of_nat i, t, u, v)"
      if e': "(s', t', u, v') \<in> set (op_entries seq ops)" "s' \<le> snapshot" for s' t' v'
    proof -
      from entries [OF e'(1)] obtain j where j: "j < length ops" "s' = seq + of_nat j" "u = op_key (ops ! j)"
        "(s', t', u, v') = op_entry (seq + of_nat j) (ops ! j)" by blast
      with visible [OF j(1)] e'(2) have "j < m" by simp
      with last(4) j(1,3) have "j \<le> i" by (metis length_take min_less_iff_conj not_le)
      with j e num [OF j(1)] num [OF i(1)] show ?thesis by (cases "i = j") (auto simp: word_less_nat_alt)
    qed
    moreover have "seq + of_nat i \<le> snapshot" using visible [OF i(1)] i(2) by simp
    ultimately have "memtable_Get Compare (new_LookupKey u snapshot) val st mt = Some (entry_result (seq + of_nat i, t, u, v) val st)"
      using mem by (intro memtable_Get_newest(2) [OF assms(1,3,4)]) auto
    then show ?thesis using last(3) e by (cases "ops ! i") (auto simp: op_entry_def m_def)
  qed
qed

end

text \<open>C33: The memtable implements a store with snapshots. When batches are built, numbered one after the other and
  inserted into a new memtable, every step returns. A lookup at any snapshot then gives for every key what the last
  of the operations up to the snapshot says about it: a value, a deletion, or that there is nothing.\<close>

theorem ldb_memtable_store:
  assumes "\<forall>op\<in>set (concat opss). op_ok op" "\<forall>ops\<in>set opss. length ops < 2 ^ 31"
    and "unat seq + length (concat opss) \<le> 2 ^ 56"
  shows "\<exists>mt. write_batches Slice_compare opss seq new_MemTable = Some mt
    \<and> (\<forall>u snapshot val st. length u + 8 < 2 ^ 32 \<longrightarrow> snapshot \<le> kMaxSequenceNumber \<longrightarrow>
        memtable_Get Slice_compare (new_LookupKey u snapshot) val st mt =
          Some (case store_after (take (Suc (unat snapshot) - unat seq) (concat opss)) u of
                  None \<Rightarrow> (False, val, st)
                | Some None \<Rightarrow> (True, val, NotFound [] [])
                | Some (Some v) \<Rightarrow> (True, v, st)))"
proof -
  from internal.write_batches_holds [OF internal.memtable_new assms] obtain mt where
    "write_batches Slice_compare opss seq new_MemTable = Some mt"
    "memtable_holds Slice_compare mt (op_entries seq (concat opss))" by auto
  with internal.memtable_Get_store [OF _ assms(3)] show ?thesis by blast
qed

lemma ldb_memtable_store_witness:
  "\<exists>mt. write_batches Slice_compare [[PutOp [97] [1], PutOp [98] [2]], [DeleteOp [97]]] 5 new_MemTable = Some mt
    \<and> memtable_Get Slice_compare (new_LookupKey [97] 6) [] status_OK mt = Some (True, [1], status_OK)
    \<and> memtable_Get Slice_compare (new_LookupKey [97] 7) [] status_OK mt = Some (True, [], NotFound [] [])
    \<and> memtable_Get Slice_compare (new_LookupKey [98] 5) [] status_OK mt = Some (False, [], status_OK)"
proof -
  have 1: "\<forall>op\<in>set (concat [[PutOp [97] [1], PutOp [98] [2]], [DeleteOp [97]]]). op_ok op"
    "\<forall>ops\<in>set [[PutOp [97] [1], PutOp [98] [2]], [DeleteOp [97]]]. length ops < 2 ^ 31"
    "unat (5 :: u64) + length (concat [[PutOp [97] [1], PutOp [98] [2]], [DeleteOp [97]]]) \<le> 2 ^ 56" by simp_all
  from ldb_memtable_store [OF 1] obtain mt where
    mt: "write_batches Slice_compare [[PutOp [97] [1], PutOp [98] [2]], [DeleteOp [97]]] 5 new_MemTable = Some mt"
    "\<And>u snapshot val st. length u + 8 < 2 ^ 32 \<Longrightarrow> snapshot \<le> kMaxSequenceNumber \<Longrightarrow>
        memtable_Get Slice_compare (new_LookupKey u snapshot) val st mt =
          Some (case store_after (take (Suc (unat snapshot) - unat (5 :: u64))
                  (concat [[PutOp [97] [1], PutOp [98] [2]], [DeleteOp [97]]])) u of
                  None \<Rightarrow> (False, val, st)
                | Some None \<Rightarrow> (True, val, NotFound [] [])
                | Some (Some v) \<Rightarrow> (True, v, st))" by blast
  show ?thesis
    using mt(1) mt(2) [of "[97]" 6 "[]" status_OK] mt(2) [of "[97]" 7 "[]" status_OK] mt(2) [of "[98]" 5 "[]" status_OK]
    by (intro exI [of _ mt]) (simp add: kMaxSequenceNumber_def store_after_def)
qed

end
