(* ===== verification/Ldb_Version_Edit.thy ===== *)
theory Ldb_Version_Edit imports Ldb_Dbformat Ldb_Status "HOL-Library.Product_Lexorder" begin

text \<open>
  The changes of a version, \<open>db/version_edit.cc\<close>: what the manifest of a database logs. Internal keys are their
  bytes, the set of the deleted files is the ascending list of its elements.
\<close>

subsection \<open>The code\<close>

definition kNumLevels :: nat where
  "kNumLevels = 7"

datatype Tag = kComparator | kLogNumber | kNextFileNumber | kLastSequence | kCompactPointer | kDeletedFile | kNewFile
  | kPrevLogNumber

primrec Tag_value :: "Tag \<Rightarrow> u32" where
  "Tag_value kComparator = 1"
| "Tag_value kLogNumber = 2"
| "Tag_value kNextFileNumber = 3"
| "Tag_value kLastSequence = 4"
| "Tag_value kCompactPointer = 5"
| "Tag_value kDeletedFile = 6"
| "Tag_value kNewFile = 7"
| "Tag_value kPrevLogNumber = 9"

record FileMetaData =
  fm_refs :: int
  fm_allowed_seeks :: int
  fm_number :: u64
  fm_file_size :: u64
  fm_smallest :: bytes
  fm_largest :: bytes

text \<open>The number of a new object is not initialised; it is an argument.\<close>

definition new_FileMetaData :: "u64 \<Rightarrow> FileMetaData" where
  "new_FileMetaData number =
     \<lparr>fm_refs = 0, fm_allowed_seeks = 2 ^ 30, fm_number = number, fm_file_size = 0, fm_smallest = [], fm_largest = []\<rparr>"

record VersionEdit =
  ve_comparator :: bytes
  ve_log_number :: u64
  ve_prev_log_number :: u64
  ve_next_file_number :: u64
  ve_last_sequence :: SequenceNumber
  ve_has_comparator :: bool
  ve_has_log_number :: bool
  ve_has_prev_log_number :: bool
  ve_has_next_file_number :: bool
  ve_has_last_sequence :: bool
  ve_compact_pointers :: "(int \<times> bytes) list"
  ve_deleted_files :: "(int \<times> u64) list"
  ve_new_files :: "(int \<times> FileMetaData) list"

definition VersionEdit_Clear :: "VersionEdit \<Rightarrow> VersionEdit" where
  "VersionEdit_Clear e =
     e\<lparr>ve_comparator := [], ve_log_number := 0, ve_prev_log_number := 0, ve_last_sequence := 0,
       ve_next_file_number := 0, ve_has_comparator := False, ve_has_log_number := False,
       ve_has_prev_log_number := False, ve_has_next_file_number := False, ve_has_last_sequence := False,
       ve_deleted_files := [], ve_new_files := []\<rparr>"

definition new_VersionEdit :: VersionEdit where
  "new_VersionEdit = VersionEdit_Clear
     \<lparr>ve_comparator = [], ve_log_number = 0, ve_prev_log_number = 0, ve_next_file_number = 0, ve_last_sequence = 0,
      ve_has_comparator = False, ve_has_log_number = False, ve_has_prev_log_number = False,
      ve_has_next_file_number = False, ve_has_last_sequence = False, ve_compact_pointers = [], ve_deleted_files = [],
      ve_new_files = []\<rparr>"

definition SetComparatorName :: "bytes \<Rightarrow> VersionEdit \<Rightarrow> VersionEdit" where
  "SetComparatorName name e = e\<lparr>ve_has_comparator := True, ve_comparator := name\<rparr>"

definition SetLogNumber :: "u64 \<Rightarrow> VersionEdit \<Rightarrow> VersionEdit" where
  "SetLogNumber num e = e\<lparr>ve_has_log_number := True, ve_log_number := num\<rparr>"

definition SetPrevLogNumber :: "u64 \<Rightarrow> VersionEdit \<Rightarrow> VersionEdit" where
  "SetPrevLogNumber num e = e\<lparr>ve_has_prev_log_number := True, ve_prev_log_number := num\<rparr>"

definition SetNextFile :: "u64 \<Rightarrow> VersionEdit \<Rightarrow> VersionEdit" where
  "SetNextFile num e = e\<lparr>ve_has_next_file_number := True, ve_next_file_number := num\<rparr>"

definition SetLastSequence :: "SequenceNumber \<Rightarrow> VersionEdit \<Rightarrow> VersionEdit" where
  "SetLastSequence seq e = e\<lparr>ve_has_last_sequence := True, ve_last_sequence := seq\<rparr>"

definition SetCompactPointer :: "int \<Rightarrow> bytes \<Rightarrow> VersionEdit \<Rightarrow> VersionEdit" where
  "SetCompactPointer level key e = e\<lparr>ve_compact_pointers := ve_compact_pointers e @ [(level, key)]\<rparr>"

definition AddFile :: "int \<Rightarrow> u64 \<Rightarrow> u64 \<Rightarrow> bytes \<Rightarrow> bytes \<Rightarrow> VersionEdit \<Rightarrow> VersionEdit" where
  "AddFile level num file_size smallest largest e =
     (let f = (new_FileMetaData num)\<lparr>fm_number := num, fm_file_size := file_size, fm_smallest := smallest, fm_largest := largest\<rparr>
      in e\<lparr>ve_new_files := ve_new_files e @ [(level, f)]\<rparr>)"

definition DeleteFile :: "int \<Rightarrow> u64 \<Rightarrow> VersionEdit \<Rightarrow> VersionEdit" where
  "DeleteFile level num e = e\<lparr>ve_deleted_files := insort_insert (level, num) (ve_deleted_files e)\<rparr>"

definition PutTag :: "Tag \<Rightarrow> bytes \<Rightarrow> bytes" where
  "PutTag tag dst = PutVarint32 dst (Tag_value tag)"

definition encode_number :: "bool \<Rightarrow> Tag \<Rightarrow> u64 \<Rightarrow> bytes \<Rightarrow> bytes" where
  "encode_number has tag num dst = (if has then PutVarint64 (PutTag tag dst) num else dst)"

definition VersionEdit_EncodeTo :: "VersionEdit \<Rightarrow> bytes \<Rightarrow> bytes" where
  "VersionEdit_EncodeTo e dst =
     (let dst = (if ve_has_comparator e then PutLengthPrefixedSlice (PutTag kComparator dst) (ve_comparator e) else dst);
          dst = encode_number (ve_has_log_number e) kLogNumber (ve_log_number e) dst;
          dst = encode_number (ve_has_prev_log_number e) kPrevLogNumber (ve_prev_log_number e) dst;
          dst = encode_number (ve_has_next_file_number e) kNextFileNumber (ve_next_file_number e) dst;
          dst = encode_number (ve_has_last_sequence e) kLastSequence (ve_last_sequence e) dst;
          dst = fold (\<lambda>(level, key) dst.
                  PutLengthPrefixedSlice (PutVarint32 (PutTag kCompactPointer dst) (word_of_int level)) key)
                (ve_compact_pointers e) dst;
          dst = fold (\<lambda>(level, num) dst. PutVarint64 (PutVarint32 (PutTag kDeletedFile dst) (word_of_int level)) num)
                (ve_deleted_files e) dst
      in fold (\<lambda>(level, f) dst.
           let dst = PutVarint32 (PutTag kNewFile dst) (word_of_int level);
               dst = PutVarint64 dst (fm_number f);
               dst = PutVarint64 dst (fm_file_size f);
               dst = PutLengthPrefixedSlice dst (fm_smallest f)
           in PutLengthPrefixedSlice dst (fm_largest f)) (ve_new_files e) dst)"

text \<open>Readers: \<open>None\<close> is false.\<close>

definition GetInternalKey :: "bytes \<Rightarrow> (bytes \<times> bytes) option" where
  "GetInternalKey input = GetLengthPrefixedSlice input"

definition GetLevel :: "bytes \<Rightarrow> (int \<times> bytes) option" where
  "GetLevel input =
     (case GetVarint32 input of
        None \<Rightarrow> None
      | Some (v, input) \<Rightarrow> if v < of_nat kNumLevels then Some (sint v, input) else None)"

definition decode_number :: "string \<Rightarrow> bytes \<Rightarrow> (u64 \<Rightarrow> VersionEdit) \<Rightarrow> bytes + VersionEdit \<times> bytes" where
  "decode_number msg input set_number =
     (case GetVarint64 input of None \<Rightarrow> Inl (chars msg) | Some (num, input) \<Rightarrow> Inr (set_number num, input))"

text \<open>The switch: the message, or the changed edit and the remaining input.\<close>

definition DecodeFrom_field :: "u32 \<Rightarrow> bytes \<Rightarrow> VersionEdit \<Rightarrow> bytes + VersionEdit \<times> bytes" where
  "DecodeFrom_field tag input e =
     (if tag = Tag_value kComparator then
        (case GetLengthPrefixedSlice input of
           None \<Rightarrow> Inl (chars ''comparator name'')
         | Some (str, input) \<Rightarrow> Inr (e\<lparr>ve_comparator := str, ve_has_comparator := True\<rparr>, input))
      else if tag = Tag_value kLogNumber then
        decode_number ''log number'' input (\<lambda>num. e\<lparr>ve_log_number := num, ve_has_log_number := True\<rparr>)
      else if tag = Tag_value kPrevLogNumber then
        decode_number ''previous log number'' input (\<lambda>num. e\<lparr>ve_prev_log_number := num, ve_has_prev_log_number := True\<rparr>)
      else if tag = Tag_value kNextFileNumber then
        decode_number ''next file number'' input (\<lambda>num. e\<lparr>ve_next_file_number := num, ve_has_next_file_number := True\<rparr>)
      else if tag = Tag_value kLastSequence then
        decode_number ''last sequence number'' input (\<lambda>num. e\<lparr>ve_last_sequence := num, ve_has_last_sequence := True\<rparr>)
      else if tag = Tag_value kCompactPointer then
        (case get_pair GetLevel GetInternalKey input of
           None \<Rightarrow> Inl (chars ''compaction pointer'')
         | Some ((level, key), input) \<Rightarrow>
             Inr (e\<lparr>ve_compact_pointers := ve_compact_pointers e @ [(level, key)]\<rparr>, input))
      else if tag = Tag_value kDeletedFile then
        (case get_pair GetLevel GetVarint64 input of
           None \<Rightarrow> Inl (chars ''deleted file'')
         | Some ((level, num), input) \<Rightarrow>
             Inr (e\<lparr>ve_deleted_files := insort_insert (level, num) (ve_deleted_files e)\<rparr>, input))
      else if tag = Tag_value kNewFile then
        (case get_pair GetLevel (get_pair GetVarint64 (get_pair GetVarint64 (get_pair GetInternalKey GetInternalKey))) input of
           None \<Rightarrow> Inl (chars ''new-file entry'')
         | Some ((level, num, file_size, smallest, largest), input) \<Rightarrow>
             let f = (new_FileMetaData num)\<lparr>fm_file_size := file_size, fm_smallest := smallest, fm_largest := largest\<rparr>
             in Inr (e\<lparr>ve_new_files := ve_new_files e @ [(level, f)]\<rparr>, input))
      else Inl (chars ''unknown tag''))"

subsection \<open>Codes of the parts\<close>

definition put_level :: "int \<Rightarrow> bytes" where
  "put_level level = EncodeVarint32 (word_of_int level)"

interpretation level: codec put_level GetLevel "\<lambda>level. 0 \<le> level \<and> level < 7"
proof unfold_locales
  fix level :: int and rest
  assume "0 \<le> level \<and> level < 7"
  then obtain n where n: "level = int n" "n < 7" by (metis nonneg_int_cases of_nat_less_iff of_nat_numeral)
  then have "sint (of_nat n :: u32) = int n" by (simp add: signed_of_nat signed_take_bit_int_eq_self)
  moreover have "(of_nat n :: u32) < of_nat kNumLevels"
    using n by (simp add: word_less_nat_alt kNumLevels_def unat_of_nat)
  ultimately show "GetLevel (put_level level @ rest) = Some (level, rest)"
    by (simp add: GetLevel_def put_level_def n(1) varint32.get_put)
next
  fix p v q
  assume "GetLevel p = Some (v, q)"
  then obtain w where "GetVarint32 p = Some (w, q)" by (auto simp: GetLevel_def split: option.splits if_splits)
  then show "\<exists>x. x \<noteq> [] \<and> p = x @ q" by (rule varint32.get_suffix)
qed

interpretation ikey: codec length_prefixed GetInternalKey "\<lambda>v. length v < 2 ^ 32"
  using slice.codec_axioms by (simp add: GetInternalKey_def [abs_def])

interpretation level_key: codec_pair put_level GetLevel "\<lambda>level. 0 \<le> level \<and> level < 7"
  length_prefixed GetInternalKey "\<lambda>v. length v < 2 ^ 32" ..

interpretation level_number: codec_pair put_level GetLevel "\<lambda>level. 0 \<le> level \<and> level < 7"
  EncodeVarint64 GetVarint64 "\<lambda>_. True" ..

interpretation key_range: codec_pair length_prefixed GetInternalKey "\<lambda>v. length v < 2 ^ 32"
  length_prefixed GetInternalKey "\<lambda>v. length v < 2 ^ 32" ..

interpretation sized_range: codec_pair EncodeVarint64 GetVarint64 "\<lambda>_. True"
  "put_pair length_prefixed length_prefixed" "get_pair GetInternalKey GetInternalKey"
  "\<lambda>(a, b). length a < 2 ^ 32 \<and> length b < 2 ^ 32" ..

interpretation numbered_range: codec_pair EncodeVarint64 GetVarint64 "\<lambda>_. True"
  "put_pair EncodeVarint64 (put_pair length_prefixed length_prefixed)"
  "get_pair GetVarint64 (get_pair GetInternalKey GetInternalKey)"
  "\<lambda>(a, b). True \<and> (case b of (a, b) \<Rightarrow> length a < 2 ^ 32 \<and> length b < 2 ^ 32)" ..

interpretation new_file: codec_pair put_level GetLevel "\<lambda>level. 0 \<le> level \<and> level < 7"
  "put_pair EncodeVarint64 (put_pair EncodeVarint64 (put_pair length_prefixed length_prefixed))"
  "get_pair GetVarint64 (get_pair GetVarint64 (get_pair GetInternalKey GetInternalKey))"
  "\<lambda>(a, b). True \<and> (case b of (a, b) \<Rightarrow> True \<and> (case b of (a, b) \<Rightarrow> length a < 2 ^ 32 \<and> length b < 2 ^ 32))" ..

lemma decode_number_suffix: "decode_number msg input f = Inr (e', input') \<Longrightarrow> \<exists>x. input = x @ input'"
  using varint64.get_suffix by (fastforce simp: decode_number_def split: option.splits)

lemma DecodeFrom_field_suffix: "DecodeFrom_field tag input e = Inr (e', input') \<Longrightarrow> \<exists>x. input = x @ input'"
  unfolding DecodeFrom_field_def
  by (auto simp: Let_def split: option.splits if_splits prod.splits
      dest!: decode_number_suffix slice.get_suffix level_key.get_suffix level_number.get_suffix new_file.get_suffix)

text \<open>The loop: the message, if any, and the edit.\<close>

function DecodeFrom_loop :: "bytes \<Rightarrow> VersionEdit \<Rightarrow> bytes option \<times> VersionEdit" where
  "DecodeFrom_loop input e =
     (case GetVarint32 input of
        None \<Rightarrow> (if input \<noteq> [] then Some (chars ''invalid tag'') else None, e)
      | Some (tag, input) \<Rightarrow>
          (case DecodeFrom_field tag input e of
             Inl msg \<Rightarrow> (Some msg, e)
           | Inr (e, input) \<Rightarrow> DecodeFrom_loop input e))"
  by pat_completeness auto
termination
proof (relation "measure (\<lambda>(input, _). length input)", goal_cases)
  case (2 input e r tag rest s e' input')
  then have "GetVarint32 input = Some (tag, rest)" "DecodeFrom_field tag rest e = Inr (e', input')" by auto
  with varint32.get_length DecodeFrom_field_suffix show ?case by fastforce
qed simp

declare DecodeFrom_loop.simps [simp del]

definition VersionEdit_DecodeFrom :: "bytes \<Rightarrow> VersionEdit \<Rightarrow> Status \<times> VersionEdit" where
  "VersionEdit_DecodeFrom src e =
     (let (msg, e) = DecodeFrom_loop src (VersionEdit_Clear e)
      in (case msg of None \<Rightarrow> status_OK | Some msg \<Rightarrow> new_Status kCorruption (chars ''VersionEdit'') msg, e))"

subsection \<open>The round trip\<close>

text \<open>Edits as the database makes them: numbers that are not set are 0, levels exist, lengths have 32 bits.\<close>

definition file_ok :: "int \<times> FileMetaData \<Rightarrow> bool" where
  "file_ok = (\<lambda>(level, f). 0 \<le> level \<and> level < 7 \<and> fm_refs f = 0 \<and> fm_allowed_seeks f = 2 ^ 30
     \<and> length (fm_smallest f) < 2 ^ 32 \<and> length (fm_largest f) < 2 ^ 32)"

definition edit_ok :: "VersionEdit \<Rightarrow> bool" where
  "edit_ok e \<longleftrightarrow> length (ve_comparator e) < 2 ^ 32 \<and> (\<not> ve_has_comparator e \<longrightarrow> ve_comparator e = [])
     \<and> (\<not> ve_has_log_number e \<longrightarrow> ve_log_number e = 0) \<and> (\<not> ve_has_prev_log_number e \<longrightarrow> ve_prev_log_number e = 0)
     \<and> (\<not> ve_has_next_file_number e \<longrightarrow> ve_next_file_number e = 0)
     \<and> (\<not> ve_has_last_sequence e \<longrightarrow> ve_last_sequence e = 0)
     \<and> (\<forall>(level, key)\<in>set (ve_compact_pointers e). 0 \<le> level \<and> level < 7 \<and> length key < 2 ^ 32)
     \<and> sorted (ve_deleted_files e) \<and> distinct (ve_deleted_files e)
     \<and> (\<forall>(level, num)\<in>set (ve_deleted_files e). 0 \<le> level \<and> level < 7)
     \<and> (\<forall>f\<in>set (ve_new_files e). file_ok f)"

definition pointer_code :: "int \<times> bytes \<Rightarrow> bytes" where
  "pointer_code p = PutTag kCompactPointer [] @ put_pair put_level length_prefixed p"

definition deleted_code :: "int \<times> u64 \<Rightarrow> bytes" where
  "deleted_code p = PutTag kDeletedFile [] @ put_pair put_level EncodeVarint64 p"

definition file_code :: "int \<times> FileMetaData \<Rightarrow> bytes" where
  "file_code = (\<lambda>(level, f). PutTag kNewFile [] @
     put_pair put_level (put_pair EncodeVarint64 (put_pair EncodeVarint64 (put_pair length_prefixed length_prefixed)))
       (level, fm_number f, fm_file_size f, fm_smallest f, fm_largest f))"

lemma put_parts:
  "PutTag tag dst = dst @ PutTag tag []" "PutVarint32 dst v = dst @ EncodeVarint32 v" "PutVarint64 dst w = dst @ EncodeVarint64 w"
  by (simp_all add: PutTag_def PutVarint32_def PutVarint64_def)

lemma fold_append: "(\<And>x dst. x \<in> set xs \<Longrightarrow> f x dst = dst @ g x) \<Longrightarrow> fold f xs dst = dst @ concat (map g xs)"
  by (induction xs arbitrary: dst) simp_all

definition number_code :: "bool \<Rightarrow> Tag \<Rightarrow> u64 \<Rightarrow> bytes" where
  "number_code has tag num = (if has then PutTag tag [] @ EncodeVarint64 num else [])"

lemma EncodeTo_eq:
  "VersionEdit_EncodeTo e dst = dst
     @ (if ve_has_comparator e then PutTag kComparator [] @ length_prefixed (ve_comparator e) else [])
     @ number_code (ve_has_log_number e) kLogNumber (ve_log_number e)
     @ number_code (ve_has_prev_log_number e) kPrevLogNumber (ve_prev_log_number e)
     @ number_code (ve_has_next_file_number e) kNextFileNumber (ve_next_file_number e)
     @ number_code (ve_has_last_sequence e) kLastSequence (ve_last_sequence e)
     @ concat (map pointer_code (ve_compact_pointers e)) @ concat (map deleted_code (ve_deleted_files e))
     @ concat (map file_code (ve_new_files e))"
proof -
  have num: "encode_number has tag num dst = dst @ number_code has tag num" for has tag num dst
    by (simp add: encode_number_def number_code_def put_parts(3) put_parts(1) [of tag dst])
  have pointers: "fold (\<lambda>(level, key) dst.
        PutLengthPrefixedSlice (PutVarint32 (PutTag kCompactPointer dst) (word_of_int level)) key) ps dst =
      dst @ concat (map pointer_code ps)" for ps dst
  proof (rule fold_append, clarify)
    fix level key and dst :: bytes
    show "PutLengthPrefixedSlice (PutVarint32 (PutTag kCompactPointer dst) (word_of_int level)) key = dst @ pointer_code (level, key)"
      by (simp add: pointer_code_def put_pair_def put_level_def PutLengthPrefixedSlice_append put_parts(2) put_parts(1) [of _ dst])
  qed
  have deleted: "fold (\<lambda>(level, num) dst. PutVarint64 (PutVarint32 (PutTag kDeletedFile dst) (word_of_int level)) num) ds dst =
      dst @ concat (map deleted_code ds)" for ds dst
  proof (rule fold_append, clarify)
    fix level num and dst :: bytes
    show "PutVarint64 (PutVarint32 (PutTag kDeletedFile dst) (word_of_int level)) num = dst @ deleted_code (level, num)"
      by (simp add: deleted_code_def put_pair_def put_level_def put_parts(2,3) put_parts(1) [of _ dst])
  qed
  have files: "fold (\<lambda>(level, f) dst.
           let dst = PutVarint32 (PutTag kNewFile dst) (word_of_int level);
               dst = PutVarint64 dst (fm_number f);
               dst = PutVarint64 dst (fm_file_size f);
               dst = PutLengthPrefixedSlice dst (fm_smallest f)
           in PutLengthPrefixedSlice dst (fm_largest f)) fs dst = dst @ concat (map file_code fs)" for fs dst
  proof (rule fold_append, clarify)
    fix level f and dst :: bytes
    show "(let dst = PutVarint32 (PutTag kNewFile dst) (word_of_int level);
               dst = PutVarint64 dst (fm_number f);
               dst = PutVarint64 dst (fm_file_size f);
               dst = PutLengthPrefixedSlice dst (fm_smallest f)
           in PutLengthPrefixedSlice dst (fm_largest f)) = dst @ file_code (level, f)"
      by (simp add: file_code_def put_pair_def put_level_def put_parts(2,3) PutLengthPrefixedSlice_append
          put_parts(1) [of _ dst] Let_def)
  qed
  show ?thesis
    unfolding VersionEdit_EncodeTo_def Let_def num pointers deleted files [unfolded Let_def]
    by (simp add: PutLengthPrefixedSlice_append put_parts(1) [of kComparator dst])
qed

lemma decode_tag:
  assumes "DecodeFrom_field (Tag_value tag) rest e = Inr (e', rest')"
  shows "DecodeFrom_loop (PutTag tag [] @ rest) e = DecodeFrom_loop rest' e'"
  using assms unfolding PutTag_def PutVarint32_def append_Nil by (subst DecodeFrom_loop.simps) (simp add: varint32.get_put)

lemma decode_pointers:
  "\<forall>(level, key)\<in>set ps. 0 \<le> level \<and> level < 7 \<and> length key < 2 ^ 32 \<Longrightarrow>
    DecodeFrom_loop (concat (map pointer_code ps) @ rest) e =
      DecodeFrom_loop rest (e\<lparr>ve_compact_pointers := ve_compact_pointers e @ ps\<rparr>)"
proof (induction ps arbitrary: e)
  case (Cons p ps)
  then have "DecodeFrom_field (Tag_value kCompactPointer) (put_pair put_level length_prefixed p @ concat (map pointer_code ps) @ rest) e =
      Inr (e\<lparr>ve_compact_pointers := ve_compact_pointers e @ [p]\<rparr>, concat (map pointer_code ps) @ rest)"
    by (cases p) (simp add: DecodeFrom_field_def level_key.get_put)
  from decode_tag [OF this] Cons show ?case by (simp add: pointer_code_def [of p])
qed simp

lemma decode_deleted:
  "\<forall>(level, num)\<in>set ds. 0 \<le> level \<and> level < 7 \<Longrightarrow>
    DecodeFrom_loop (concat (map deleted_code ds) @ rest) e =
      DecodeFrom_loop rest (e\<lparr>ve_deleted_files := fold insort_insert ds (ve_deleted_files e)\<rparr>)"
proof (induction ds arbitrary: e)
  case (Cons p ds)
  then have "DecodeFrom_field (Tag_value kDeletedFile) (put_pair put_level EncodeVarint64 p @ concat (map deleted_code ds) @ rest) e =
      Inr (e\<lparr>ve_deleted_files := insort_insert p (ve_deleted_files e)\<rparr>, concat (map deleted_code ds) @ rest)"
    by (cases p) (simp add: DecodeFrom_field_def level_number.get_put)
  from decode_tag [OF this] Cons show ?case by (simp add: deleted_code_def [of p])
qed simp

lemma decode_files:
  "\<forall>f\<in>set fs. file_ok f \<Longrightarrow>
    DecodeFrom_loop (concat (map file_code fs) @ rest) e = DecodeFrom_loop rest (e\<lparr>ve_new_files := ve_new_files e @ fs\<rparr>)"
proof (induction fs arbitrary: e)
  case (Cons p fs)
  obtain level f where p: "p = (level, f)" by force
  let ?v = "(level, fm_number f, fm_file_size f, fm_smallest f, fm_largest f)"
  let ?put = "put_pair put_level (put_pair EncodeVarint64 (put_pair EncodeVarint64 (put_pair length_prefixed length_prefixed)))"
  have f: "(new_FileMetaData (fm_number f))\<lparr>fm_file_size := fm_file_size f, fm_smallest := fm_smallest f, fm_largest := fm_largest f\<rparr> = f"
    using Cons.prems p by (cases f) (simp add: new_FileMetaData_def file_ok_def)
  have "DecodeFrom_field (Tag_value kNewFile) (?put ?v @ concat (map file_code fs) @ rest) e =
      Inr (e\<lparr>ve_new_files := ve_new_files e @ [p]\<rparr>, concat (map file_code fs) @ rest)"
    using Cons.prems p f by (simp add: DecodeFrom_field_def new_file.get_put file_ok_def)
  moreover have "file_code p = PutTag kNewFile [] @ ?put ?v" by (simp add: file_code_def p)
  ultimately show ?case using decode_tag Cons by simp
qed simp

lemma fold_insort_insert: "sorted xs \<Longrightarrow> distinct xs \<Longrightarrow> fold insort_insert xs [] = xs"
proof (induction xs rule: rev_induct)
  case (snoc x xs)
  then show ?case by (auto simp: insort_insert_insort sorted_append sorted_insort_is_snoc)
qed simp

lemma decode_number_code:
  assumes "\<And>num rest. DecodeFrom_field (Tag_value tag) (EncodeVarint64 num @ rest) e = Inr (set_number num, rest)"
  shows "DecodeFrom_loop (number_code has tag num @ rest) e = DecodeFrom_loop rest (if has then set_number num else e)"
  using decode_tag [OF assms] by (simp add: number_code_def)

lemma decode_EncodeTo:
  assumes "edit_ok e"
  shows "DecodeFrom_loop (VersionEdit_EncodeTo e []) (VersionEdit_Clear e0) =
    (None, e\<lparr>ve_compact_pointers := ve_compact_pointers e0 @ ve_compact_pointers e\<rparr>)"
proof -
  have comparator: "DecodeFrom_loop ((if has then PutTag kComparator [] @ length_prefixed name else []) @ rest) e' =
      DecodeFrom_loop rest (if has then e'\<lparr>ve_comparator := name, ve_has_comparator := True\<rparr> else e')"
    if "length name < 2 ^ 32" for has name rest e'
    using that decode_tag [of kComparator "length_prefixed name @ rest" e'] by (simp add: DecodeFrom_field_def slice.get_put)
  have log: "DecodeFrom_loop (number_code has kLogNumber num @ rest) e' =
      DecodeFrom_loop rest (if has then e'\<lparr>ve_log_number := num, ve_has_log_number := True\<rparr> else e')" for has num rest e'
    by (rule decode_number_code) (simp add: DecodeFrom_field_def decode_number_def varint64.get_put)
  have prev: "DecodeFrom_loop (number_code has kPrevLogNumber num @ rest) e' =
      DecodeFrom_loop rest (if has then e'\<lparr>ve_prev_log_number := num, ve_has_prev_log_number := True\<rparr> else e')" for has num rest e'
    by (rule decode_number_code) (simp add: DecodeFrom_field_def decode_number_def varint64.get_put)
  have next_file: "DecodeFrom_loop (number_code has kNextFileNumber num @ rest) e' =
      DecodeFrom_loop rest (if has then e'\<lparr>ve_next_file_number := num, ve_has_next_file_number := True\<rparr> else e')" for has num rest e'
    by (rule decode_number_code) (simp add: DecodeFrom_field_def decode_number_def varint64.get_put)
  have seq: "DecodeFrom_loop (number_code has kLastSequence num @ rest) e' =
      DecodeFrom_loop rest (if has then e'\<lparr>ve_last_sequence := num, ve_has_last_sequence := True\<rparr> else e')" for has num rest e'
    by (rule decode_number_code) (simp add: DecodeFrom_field_def decode_number_def varint64.get_put)
  have ok: "length (ve_comparator e) < 2 ^ 32"
    "\<forall>(level, key)\<in>set (ve_compact_pointers e). 0 \<le> level \<and> level < 7 \<and> length key < 2 ^ 32"
    "\<forall>(level, num)\<in>set (ve_deleted_files e). 0 \<le> level \<and> level < 7" "\<forall>f\<in>set (ve_new_files e). file_ok f"
    "sorted (ve_deleted_files e)" "distinct (ve_deleted_files e)"
    using assms by (simp_all add: edit_ok_def)
  have nil: "DecodeFrom_loop [] e' = (None, e')" for e' by (simp add: DecodeFrom_loop.simps varint32.get_Nil)
  note all = comparator [OF ok(1)] log prev next_file seq decode_pointers [OF ok(2)] decode_deleted [OF ok(3)]
    decode_files [OF ok(4), where rest = "[]", simplified append_Nil2]
  show ?thesis
    unfolding EncodeTo_eq append_Nil all nil
    using assms fold_insort_insert [OF ok(5,6)]
    by (cases e; cases e0) (simp add: edit_ok_def VersionEdit_Clear_def)
qed

text \<open>C36: What a version edit logs is read back. Decoding the code of an edit gives the edit and the status OK. The
  compaction pointers are appended to those that the object had: \<open>Clear\<close> does not remove them.\<close>

theorem ldb_version_edit_roundtrip:
  assumes "edit_ok e"
  shows "VersionEdit_DecodeFrom (VersionEdit_EncodeTo e []) e0 =
      (status_OK, e\<lparr>ve_compact_pointers := ve_compact_pointers e0 @ ve_compact_pointers e\<rparr>)
    \<and> VersionEdit_EncodeTo e dst = dst @ VersionEdit_EncodeTo e []"
  using decode_EncodeTo [OF assms] by (simp add: VersionEdit_DecodeFrom_def) (simp add: EncodeTo_eq)

definition sample_edit :: VersionEdit where
  "sample_edit = DeleteFile 1 8 (AddFile 2 9 100 [97] [98] (SetCompactPointer 3 [99] (SetLogNumber 5 new_VersionEdit)))"

lemma ldb_version_edit_roundtrip_witness:
  "VersionEdit_DecodeFrom (VersionEdit_EncodeTo sample_edit []) sample_edit =
     (status_OK, sample_edit\<lparr>ve_compact_pointers := [(3, [99]), (3, [99])]\<rparr>)"
proof -
  have "edit_ok sample_edit"
    by (simp add: sample_edit_def edit_ok_def file_ok_def DeleteFile_def AddFile_def SetCompactPointer_def SetLogNumber_def
        new_VersionEdit_def VersionEdit_Clear_def new_FileMetaData_def insort_insert_insort)
  from ldb_version_edit_roundtrip [OF this, of sample_edit, THEN conjunct1] show ?thesis
    by (simp add: sample_edit_def DeleteFile_def AddFile_def SetCompactPointer_def SetLogNumber_def
        new_VersionEdit_def VersionEdit_Clear_def)
qed

end
