(* ===== verification/Ldb_Filename.thy ===== *)
theory Ldb_Filename imports Ldb_Status begin

text \<open>
  The names of the files of a database, \<open>db/filename.cc\<close>. Not modelled is \<open>SetCurrentFile\<close>, which only calls
  the environment.
\<close>

subsection \<open>The code\<close>

datatype FileType = kLogFile | kDBLockFile | kTableFile | kDescriptorFile | kCurrentFile | kTempFile | kInfoLogFile

text \<open>What \<open>printf\<close> writes for \<open>%06llu\<close>. The buffer of 100 characters holds every name.\<close>

definition decimal6 :: "nat \<Rightarrow> bytes" where
  "decimal6 n = replicate (6 - length (decimal n)) 48 @ decimal n"

definition MakeFileName :: "bytes \<Rightarrow> u64 \<Rightarrow> string \<Rightarrow> bytes" where
  "MakeFileName dbname num suffix = dbname @ chars ''/'' @ decimal6 (unat num) @ chars ''.'' @ chars suffix"

definition LogFileName :: "bytes \<Rightarrow> u64 \<Rightarrow> bytes" where
  "LogFileName dbname num = MakeFileName dbname num ''log''"

definition TableFileName :: "bytes \<Rightarrow> u64 \<Rightarrow> bytes" where
  "TableFileName dbname num = MakeFileName dbname num ''ldb''"

definition SSTTableFileName :: "bytes \<Rightarrow> u64 \<Rightarrow> bytes" where
  "SSTTableFileName dbname num = MakeFileName dbname num ''sst''"

definition DescriptorFileName :: "bytes \<Rightarrow> u64 \<Rightarrow> bytes" where
  "DescriptorFileName dbname num = dbname @ chars ''/MANIFEST-'' @ decimal6 (unat num)"

definition CurrentFileName :: "bytes \<Rightarrow> bytes" where
  "CurrentFileName dbname = dbname @ chars ''/CURRENT''"

definition LockFileName :: "bytes \<Rightarrow> bytes" where
  "LockFileName dbname = dbname @ chars ''/LOCK''"

definition TempFileName :: "bytes \<Rightarrow> u64 \<Rightarrow> bytes" where
  "TempFileName dbname num = MakeFileName dbname num ''dbtmp''"

definition InfoLogFileName :: "bytes \<Rightarrow> bytes" where
  "InfoLogFileName dbname = dbname @ chars ''/LOG''"

definition OldInfoLogFileName :: "bytes \<Rightarrow> bytes" where
  "OldInfoLogFileName dbname = dbname @ chars ''/LOG.old''"

definition starts_with :: "bytes \<Rightarrow> bytes \<Rightarrow> bool" where
  "starts_with s x \<longleftrightarrow> length x \<le> length s \<and> take (length x) s = x"

definition ParseFileName :: "bytes \<Rightarrow> (u64 \<times> FileType) option" where
  "ParseFileName filename =
     (let rest = filename in
      if rest = chars ''CURRENT'' then Some (0, kCurrentFile)
      else if rest = chars ''LOCK'' then Some (0, kDBLockFile)
      else if rest = chars ''LOG'' \<or> rest = chars ''LOG.old'' then Some (0, kInfoLogFile)
      else if starts_with rest (chars ''MANIFEST-'') then
        (case ConsumeDecimalNumber (drop (length (chars ''MANIFEST-'')) rest) of
           None \<Rightarrow> None
         | Some (num, rest) \<Rightarrow> if rest \<noteq> [] then None else Some (num, kDescriptorFile))
      else
        (case ConsumeDecimalNumber rest of
           None \<Rightarrow> None
         | Some (num, suffix) \<Rightarrow>
             if suffix = chars ''.log'' then Some (num, kLogFile)
             else if suffix = chars ''.sst'' \<or> suffix = chars ''.ldb'' then Some (num, kTableFile)
             else if suffix = chars ''.dbtmp'' then Some (num, kTempFile)
             else None))"

subsection \<open>The round trip\<close>

lemma consume_zeros: "consume_digits 0 (replicate k 48 @ xs) = consume_digits 0 xs"
  by (induction k) simp_all

lemma ConsumeDecimalNumber_decimal6:
  assumes "rest = [] \<or> hd rest < 48 \<or> 57 < hd rest"
  shows "ConsumeDecimalNumber (decimal6 (unat (num :: u64)) @ rest) = Some (num, rest)"
proof -
  have "unat num < 2 ^ 64" using unat_lt64 by simp
  from ConsumeDecimalNumber_decimal [OF this assms] have "consume_digits 0 (decimal (unat num) @ rest) = Some (num, rest)"
    by (auto simp: ConsumeDecimalNumber_def split: option.splits if_splits)
  then show ?thesis by (simp add: ConsumeDecimalNumber_def decimal6_def consume_zeros)
qed

text \<open>The name of a numbered file is none of the others.\<close>

lemma decimal6_Cons:
  obtains c cs where "decimal6 n = c # cs" "c \<le> 57"
proof -
  obtain c cs where c: "decimal6 n = c # cs" by (cases "decimal6 n") (simp_all add: decimal6_def)
  then have "c \<in> set (decimal6 n)" by simp
  then have "c = 48 \<or> c \<in> set (decimal n)" by (auto simp: decimal6_def)
  then have "c \<le> 57" using decimal_digits [of c n] by auto
  with c that show thesis by blast
qed

lemma ParseFileName_numbered:
  assumes "rest = [] \<or> hd rest < 48 \<or> 57 < hd rest"
  shows "ParseFileName (decimal6 (unat num) @ rest) =
    (if rest = chars ''.log'' then Some (num, kLogFile)
     else if rest = chars ''.sst'' \<or> rest = chars ''.ldb'' then Some (num, kTableFile)
     else if rest = chars ''.dbtmp'' then Some (num, kTempFile)
     else None)"
proof -
  obtain c cs where c: "decimal6 (unat num) = c # cs" "c \<le> 57" by (rule decimal6_Cons)
  then have "c \<noteq> 67" "c \<noteq> 76" "c \<noteq> 77" by auto
  then show ?thesis
    using ConsumeDecimalNumber_decimal6 [OF assms, of num] c(1)
    by (simp add: ParseFileName_def starts_with_def chars_def of_char_def)
qed

text \<open>The name is the directory, a slash and what is parsed to this number and type.\<close>

definition parses_as :: "bytes \<Rightarrow> bytes \<Rightarrow> u64 \<Rightarrow> FileType \<Rightarrow> bool" where
  "parses_as name dbname num t \<longleftrightarrow> (let n = length dbname + 1 in
     take n name = dbname @ chars ''/'' \<and> ParseFileName (drop n name) = Some (num, t))"

lemma parses_as_Make:
  "ParseFileName (decimal6 (unat num) @ chars ''.'' @ chars suffix) = Some (num, t) \<Longrightarrow>
    parses_as (MakeFileName db num suffix) db num t"
  by (simp add: parses_as_def MakeFileName_def Let_def chars_def)

lemma parses_as_numbered:
  "parses_as (LogFileName db num) db num kLogFile" "parses_as (TableFileName db num) db num kTableFile"
  "parses_as (SSTTableFileName db num) db num kTableFile" "parses_as (TempFileName db num) db num kTempFile"
  unfolding LogFileName_def TableFileName_def SSTTableFileName_def TempFileName_def
  by (rule parses_as_Make, simp add: ParseFileName_numbered chars_def)+

lemma parses_as_descriptor: "parses_as (DescriptorFileName db num) db num kDescriptorFile"
  using ConsumeDecimalNumber_decimal6 [of "[]" num]
  by (simp add: parses_as_def Let_def DescriptorFileName_def ParseFileName_def starts_with_def chars_def of_char_def)

text \<open>C37: The names of the files of a database round trip. Each is the directory, a slash and a name that is parsed
  to the number and the type of the file; files without a number have number 0.\<close>

theorem ldb_filename_roundtrip:
  "parses_as (LogFileName db num) db num kLogFile \<and> parses_as (TableFileName db num) db num kTableFile
   \<and> parses_as (SSTTableFileName db num) db num kTableFile \<and> parses_as (DescriptorFileName db num) db num kDescriptorFile
   \<and> parses_as (TempFileName db num) db num kTempFile \<and> parses_as (CurrentFileName db) db 0 kCurrentFile
   \<and> parses_as (LockFileName db) db 0 kDBLockFile \<and> parses_as (InfoLogFileName db) db 0 kInfoLogFile
   \<and> parses_as (OldInfoLogFileName db) db 0 kInfoLogFile"
proof (intro conjI parses_as_numbered parses_as_descriptor)
  show "parses_as (CurrentFileName db) db 0 kCurrentFile" "parses_as (LockFileName db) db 0 kDBLockFile"
    "parses_as (InfoLogFileName db) db 0 kInfoLogFile" "parses_as (OldInfoLogFileName db) db 0 kInfoLogFile"
    by (simp_all add: parses_as_def Let_def CurrentFileName_def LockFileName_def InfoLogFileName_def
        OldInfoLogFileName_def chars_def ParseFileName_def)
qed

end
