(* ===== verification/Ldb_Arena.thy ===== *)
theory Ldb_Arena imports Prelude begin

text \<open>
  The arena of a memtable, \<open>util/arena.cc\<close>: memory that is given out in pieces of larger blocks and released
  with the arena. Addresses and sizes are 64-bit words. \<open>new_char\<close> is \<open>new char[]\<close>, a function of the blocks
  that the arena already has and of the size; where it throws \<open>bad_alloc\<close> it and the operation are \<open>None\<close>.
\<close>

subsection \<open>The code\<close>

definition arena_kBlockSize :: csize where
  "arena_kBlockSize = 4096"

record Arena =
  ar_alloc_ptr :: ptr
  ar_alloc_bytes_remaining :: csize
  ar_blocks :: "(ptr \<times> csize) list"
  ar_memory_usage :: csize

definition new_Arena :: Arena where
  "new_Arena = \<lparr>ar_alloc_ptr = 0, ar_alloc_bytes_remaining = 0, ar_blocks = [], ar_memory_usage = 0\<rparr>"

type_synonym new_char = "(ptr \<times> csize) list \<Rightarrow> csize \<Rightarrow> ptr option"

text \<open>The blocks are kept with their sizes; a pointer has 8 bytes.\<close>

definition AllocateNewBlock :: "new_char \<Rightarrow> csize \<Rightarrow> Arena \<Rightarrow> (ptr \<times> Arena) option" where
  "AllocateNewBlock new_char block_bytes a =
     do { result \<leftarrow> new_char (ar_blocks a) block_bytes;
          Some (result, a\<lparr>ar_blocks := ar_blocks a @ [(result, block_bytes)],
            ar_memory_usage := ar_memory_usage a + (block_bytes + 8)\<rparr>) }"

definition AllocateFallback :: "new_char \<Rightarrow> csize \<Rightarrow> Arena \<Rightarrow> (ptr \<times> Arena) option" where
  "AllocateFallback new_char bytes a =
     (if arena_kBlockSize div 4 < bytes then AllocateNewBlock new_char bytes a
      else
        do { (alloc_ptr, a) \<leftarrow> AllocateNewBlock new_char arena_kBlockSize a;
             let result = alloc_ptr;
             Some (result, a\<lparr>ar_alloc_ptr := alloc_ptr + bytes, ar_alloc_bytes_remaining := arena_kBlockSize - bytes\<rparr>) })"

definition Allocate :: "new_char \<Rightarrow> csize \<Rightarrow> Arena \<Rightarrow> (ptr \<times> Arena) option" where
  "Allocate new_char bytes a =
     (if bytes \<le> ar_alloc_bytes_remaining a
      then Some (ar_alloc_ptr a, a\<lparr>ar_alloc_ptr := ar_alloc_ptr a + bytes,
              ar_alloc_bytes_remaining := ar_alloc_bytes_remaining a - bytes\<rparr>)
      else AllocateFallback new_char bytes a)"

definition AllocateAligned :: "new_char \<Rightarrow> csize \<Rightarrow> Arena \<Rightarrow> (ptr \<times> Arena) option" where
  "AllocateAligned new_char bytes a =
     (let align = 8;
          current_mod = ar_alloc_ptr a AND (align - 1);
          slop = (if current_mod = 0 then 0 else align - current_mod);
          needed = bytes + slop
      in if needed \<le> ar_alloc_bytes_remaining a
         then Some (ar_alloc_ptr a + slop, a\<lparr>ar_alloc_ptr := ar_alloc_ptr a + needed,
                 ar_alloc_bytes_remaining := ar_alloc_bytes_remaining a - needed\<rparr>)
         else AllocateFallback new_char bytes a)"


subsection \<open>Correctness\<close>
















text \<open>A series of requests, aligned or not, with the pieces they get.\<close>

fun arena_requests :: "new_char \<Rightarrow> (bool \<times> csize) list \<Rightarrow> Arena \<Rightarrow> ((ptr \<times> csize) list \<times> Arena) option" where
  "arena_requests new_char [] a = Some ([], a)"
| "arena_requests new_char ((aligned, n) # rs) a =
     do { (p, a) \<leftarrow> (if aligned then AllocateAligned new_char n a else Allocate new_char n a);
          (ps, a) \<leftarrow> arena_requests new_char rs a;
          Some ((p, n) # ps, a) }"






text \<open>An allocator that takes the first address behind all blocks, as long as the address space lasts.\<close>

definition bump_allocator :: new_char where
  "bump_allocator blocks n =
     (let p = 8 * (1 + (\<Sum>b\<leftarrow>blocks. unat (fst b) + unat (snd b)))
      in if p + unat n < 2 ^ 64 then Some (of_nat p) else None)"


lemmas arena_run_defs = new_Arena_def Allocate_def AllocateAligned_def AllocateFallback_def AllocateNewBlock_def
  arena_kBlockSize_def bump_allocator_def Let_def


text \<open>A larger aligned request makes \<open>bytes + slop\<close> wrap around. Here 2^64 - 1 bytes are granted after five, from the 4091 that
  are left of the block.\<close>

lemma AllocateAligned_wraps:
  "arena_requests bump_allocator [(False, 5), (True, - 1)] new_Arena =
     Some ([(8, 5), (16, - 1)], \<lparr>ar_alloc_ptr = 15, ar_alloc_bytes_remaining = 4089, ar_blocks = [(8, 4096)], ar_memory_usage = 4104\<rparr>)"
  by (simp add: arena_run_defs)

end
