(* ===== verification/Spec2Isabelle.thy ===== *)
theory Spec2Isabelle imports Pb_Wire Pb_Encode_Total Pb_Stream_Safety Pb_Mem_Safety Pb_Messages FBase64_Decode
  Ldb_Filter_Block Ldb_Crc32c Ldb_Dbformat Ldb_Log_Correct Ldb_Block_Correct
  Ldb_Write_Batch Ldb_Version_Edit Ldb_Filename Ldb_Arena begin

text \<open>
  Verification of the C and C++ code that the iOS app sCatCh carries. The app itself is Swift; its
  C code comes with Firebase: the protocol buffer library nanopb (\<open>src/nanopb\<close>), the upload messages that
  GoogleDataTransport and the core diagnostics encode with it, the base64 coder of the realtime
  database's web socket, and leveldb (\<open>src/leveldb-library\<close>), the store of its offline data. The copies
  under \<open>src/Pods\<close> are identical.

  \<^bold>\<open>Foundations.\<close> \<open>Prelude\<close> has the machine integers, little-endian byte codes, bounded arrays and the
  combinator for C's early returns. \<open>CMem\<close> is memory: bytes at addresses, typed loads and stores, the
  block table of the allocator, and a flag for misuse the C standard leaves undefined. Pointers and
  \<open>size_t\<close> have 64 bits, memory is little-endian.

  \<^bold>\<open>nanopb.\<close> \<open>Pb_Types\<close> holds \<open>pb.h\<close>: type codes, \<open>pb_field_t\<close>, the descriptor macros and the stream
  structures. \<open>Pb_Common\<close> is the iterator of \<open>pb_common.c\<close> with the loops over it. \<open>Pb_Istream\<close> and
  \<open>Pb_Ostream\<close> are the streams and wire primitives of \<open>pb_decode.c\<close> and \<open>pb_encode.c\<close>, \<open>Pb_Varint\<close> and
  \<open>Pb_Wire\<close> their meaning and round trips (locale \<open>wire_codec\<close>, interpreted for each code). \<open>Pb_Encode\<close> is
  the message encoder, \<open>Pb_Encode_Ref\<close> its specification \<open>message_code\<close> and the refinement, \<open>Pb_Encode_Total\<close>
  its termination. \<open>Pb_Release\<close> has defaults and release, \<open>Pb_Decode\<close> the message decoder with the local
  variables of \<open>pb_decode_noinit\<close>. \<open>Pb_Dec_Rel\<close> proves, in a locale, that a relation between states that
  every primitive respects is respected by the whole decoder; \<open>Pb_Stream_Safety\<close> interprets it for the
  input buffer and \<open>Pb_Mem_Safety\<close> for the memory of the message. \<open>Pb_Decode_Total\<close> proves that decoding
  returns. The functions that call each other
  through submessages take the inner call as an argument and are tied by recursion on a fuel; \<open>None\<close>
  is no defined result. For encoding, a fuel above the nesting depth of the descriptor is proved to be
  enough; for decoding, one above that depth plus the bytes of the input, if the descriptor is not
  recursive, has no extension range and only types with a decoder, and callbacks do not stand still. Of
  other descriptors it is shown that whatever decoding returns keeps the bounds of the input. Callbacks, the allocator and the addresses of descriptors are the record \<open>env\<close>.

  \<^bold>\<open>Messages.\<close> \<open>Pb_Struct\<close> is the macro \<open>PB_FIELD\<close> over C structures as a 64-bit compiler lays them out.
  \<open>Cct_Messages\<close> and \<open>Core_Messages\<close> are the generated descriptors, structures and enums of
  \<open>cct.nanopb\<close> and \<open>firebasecore.nanopb\<close>, and \<open>Pb_Messages\<close> what nanopb does with them: the iterator finds
  the members, and the small messages have the bytes and sizes that the descriptors say.

  \<^bold>\<open>Base64.\<close> \<open>FBase64\<close> has both functions of \<open>fbase64.c\<close> and the correctness of the encoder, \<open>FBase64_Decode\<close>
  that of the decoder.

  \<^bold>\<open>leveldb.\<close> A \<open>std::string\<close> and a \<open>Slice\<close> are byte lists, and a reader gives the value with the bytes
  after it. \<open>Ldb_Coding\<close> is \<open>util/coding\<close> and the locale \<open>codec\<close> of a writer and its reader. \<open>Ldb_Filter\<close> is
  the hash and the Bloom filter policy, with the locale \<open>filter_policy\<close>: a filter matches the keys it was made
  for. \<open>Ldb_Filter_Block\<close> builds and reads the filter block of a table on any such policy.
  \<open>Ldb_Crc32c\<close> is the checksum, proved to be the bitwise shift register. \<open>Ldb_Comparator\<close> has the order of
  byte strings and the locale \<open>comparator\<close>, \<open>Ldb_Dbformat\<close> the internal keys of entries and the comparator
  and policy on them (locale \<open>internal_keys\<close>). \<open>Ldb_Status\<close> is the result type of operations that fail, \<open>Ldb_Env\<close>
  the POSIX files over the system calls, with the locales \<open>writable_file\<close> and \<open>sequential_file\<close>. \<open>Ldb_Log\<close> is the
  writer and reader of the log and \<open>Ldb_Log_Correct\<close> their round trip over files cut anywhere. \<open>Ldb_Block\<close> builds
  and reads the blocks of a table, and \<open>Ldb_Block_Correct\<close> shows that the iterator is a cursor over the entries.
  \<open>Ldb_Skiplist\<close> is the skip list of \<open>db/skiplist.h\<close> for any comparator; \<open>Ldb_Skiplist_Correct\<close> shows, in the locale
  \<open>key_order\<close>, that every level is an ascending path and that the searches and insertions respect it. \<open>Ldb_Memtable\<close>
  is the memtable over it, whose entries are ordered by \<open>memtable_order\<close>, and \<open>Ldb_Write_Batch\<close> the batches with the
  composition of both: the operations of batches inserted one after the other form a store with snapshots. The loops
  of the skip list are partial functions, and the properties include that they return. \<open>Ldb_Arena\<close> is the memory of
  a memtable in 64-bit addresses and sizes, \<open>Ldb_Version_Edit\<close> the records of the manifest and \<open>Ldb_Filename\<close> the names of the files.

  \<^bold>\<open>Not modelled.\<close> The Swift app; the Objective-C frameworks, which work on Foundation objects; the
  branches of nanopb that the build leaves out (\<open>PB_WITHOUT_64BIT\<close>, \<open>PB_BUFFER_ONLY\<close>, \<open>PB_VALIDATE_UTF8\<close>,
  big-endian machines); field callbacks of an encoder that change memory. Of leveldb: the threads, files and environment (\<open>env_posix\<close>), the table cache, compaction and
  version sets, and the database itself.
\<close>

end
